(* ===== verification/Prelude.thy ===== *)
theory Prelude
  imports Main "HOL-Library.Word"
begin

unbundle bit_operations_syntax

text \<open>
  What every component shares: the machine integers of the source as words of their
  width, byte strings as lists of 8-bit words, the big-endian conversions of
  \<open>std::primitive::u16\<close> and \<open>u32\<close> (\<open>to_be_bytes\<close>, \<open>from_be_bytes\<close>),
  \<open>slice::chunks\<close>, and two collections of facts: \<open>codec_simps\<close> (lengths and round
  trips of encoders) and \<open>frame_rules\<close> (what an operation leaves unchanged).
\<close>

named_theorems codec_simps "lengths and round trips of the wire encoders"
named_theorems frame_rules "fields and sessions that an operation leaves unchanged"

type_synonym u8 = "8 word"
type_synonym u16 = "16 word"
type_synonym u32 = "32 word"
type_synonym u64 = "64 word"
type_synonym bytes = "u8 list"

text \<open>A string literal of the source as its bytes.\<close>

definition str_bytes :: "string \<Rightarrow> bytes" where
  "str_bytes s = map of_char s"

section \<open>Big-endian integers\<close>

definition u16_to_be_bytes :: "u16 \<Rightarrow> bytes" where
  "u16_to_be_bytes w = [ucast (drop_bit 8 w), ucast w]"

definition u16_from_be_bytes :: "u8 \<Rightarrow> u8 \<Rightarrow> u16" where
  "u16_from_be_bytes a b = push_bit 8 (ucast a) OR ucast b"

definition u32_to_be_bytes :: "u32 \<Rightarrow> bytes" where
  "u32_to_be_bytes w =
     [ucast (drop_bit 24 w), ucast (drop_bit 16 w), ucast (drop_bit 8 w), ucast w]"

definition u32_from_be_bytes :: "u8 \<Rightarrow> u8 \<Rightarrow> u8 \<Rightarrow> u8 \<Rightarrow> u32" where
  "u32_from_be_bytes a b c d =
     push_bit 24 (ucast a) OR push_bit 16 (ucast b) OR push_bit 8 (ucast c) OR ucast d"

lemma length_u16_to_be_bytes [codec_simps, simp]: "length (u16_to_be_bytes w) = 2"
  by (simp add: u16_to_be_bytes_def)

lemma length_u32_to_be_bytes [codec_simps, simp]: "length (u32_to_be_bytes w) = 4"
  by (simp add: u32_to_be_bytes_def)

lemma u16_be_join [codec_simps]:
  "u16_from_be_bytes (ucast (drop_bit 8 w)) (ucast w) = w"
  unfolding u16_from_be_bytes_def
  by (rule bit_word_eqI) (auto simp: bit_simps)

lemma u32_be_join [codec_simps]:
  "u32_from_be_bytes (ucast (drop_bit 24 w)) (ucast (drop_bit 16 w))
     (ucast (drop_bit 8 w)) (ucast w) = w"
  unfolding u32_from_be_bytes_def
proof (rule bit_word_eqI)
  fix n assume "n < LENGTH(32)"
  then consider "n < 8" | "8 \<le> n" "n < 16" | "16 \<le> n" "n < 24" | "24 \<le> n" "n < 32"
    by fastforce
  then show "bit (push_bit 24 (ucast (ucast (drop_bit 24 w) :: u8)) OR
        push_bit 16 (ucast (ucast (drop_bit 16 w) :: u8)) OR
        push_bit 8 (ucast (ucast (drop_bit 8 w) :: u8)) OR ucast (ucast w :: u8) :: u32) n = bit w n"
    by cases (auto simp: bit_simps)
qed

lemma u16_be_split [codec_simps]: "u16_to_be_bytes (u16_from_be_bytes a b) = [a, b]"
proof -
  have "ucast (drop_bit 8 (u16_from_be_bytes a b)) = a"
    unfolding u16_from_be_bytes_def by (rule bit_word_eqI) (auto simp: bit_simps dest: bit_imp_le_length)
  moreover have "ucast (u16_from_be_bytes a b) = b"
    unfolding u16_from_be_bytes_def by (rule bit_word_eqI) (auto simp: bit_simps)
  ultimately show ?thesis by (simp add: u16_to_be_bytes_def)
qed

lemma u32_be_split [codec_simps]:
  "u32_to_be_bytes (u32_from_be_bytes a b c d) = [a, b, c, d]"
proof -
  have "ucast (drop_bit 24 (u32_from_be_bytes a b c d)) = a"
    and "ucast (drop_bit 16 (u32_from_be_bytes a b c d)) = b"
    and "ucast (drop_bit 8 (u32_from_be_bytes a b c d)) = c"
    and "ucast (u32_from_be_bytes a b c d) = d"
    unfolding u32_from_be_bytes_def
    by ((rule bit_word_eqI, auto simp: bit_simps dest: bit_imp_le_length)[1])+
  then show ?thesis by (simp add: u32_to_be_bytes_def)
qed

lemma unat_of_nat_u16 [codec_simps]: "unat (of_nat n :: u16) = n mod 65536"
  by (simp add: unat_of_nat)

lemma unat_of_nat_u8 [codec_simps]: "unat (of_nat n :: u8) = n mod 256"
  by (simp add: unat_of_nat)

lemma unat_u16_less [simp]: "unat (w :: u16) < 65536"
  using unsigned_less [of w, where ?'a = nat] by simp

lemma unat_u8_less [simp]: "unat (w :: u8) < 256"
  using unsigned_less [of w, where ?'a = nat] by simp

section \<open>\<open>slice::chunks\<close>\<close>

text \<open>
  \<open>xs.chunks(n)\<close>: consecutive pieces of \<open>n\<close> elements, the last one shorter. The
  standard library panics at \<open>n = 0\<close>; callers of the model carry \<open>0 < n\<close> where it
  matters, and the equation below gives no chunk at all there.
\<close>

function chunks :: "nat \<Rightarrow> 'a list \<Rightarrow> 'a list list" where
  "chunks n xs = (if n = 0 \<or> xs = [] then [] else take n xs # chunks n (drop n xs))"
  by pat_completeness auto
termination
  by (relation "measure (\<lambda>(n, xs). length xs)") auto

declare chunks.simps [simp del]

lemma chunks_Nil [simp]: "chunks n [] = []"
  by (simp add: chunks.simps)

lemma chunks_step:
  "0 < n \<Longrightarrow> xs \<noteq> [] \<Longrightarrow> chunks n xs = take n xs # chunks n (drop n xs)"
  by (subst chunks.simps) simp

lemma concat_chunks [codec_simps]: "0 < n \<Longrightarrow> concat (chunks n xs) = xs"
proof (induction n xs rule: chunks.induct)
  case (1 n xs)
  then show ?case
    by (cases "xs = []") (auto simp: chunks_step)
qed

lemma chunks_bounded: "c \<in> set (chunks n xs) \<Longrightarrow> 0 < length c \<and> length c \<le> n"
proof (induction n xs rule: chunks.induct)
  case (1 n xs)
  show ?case
  proof (cases "n = 0 \<or> xs = []")
    case True
    with "1.prems" show ?thesis by (auto simp: chunks.simps)
  next
    case False
    with "1.prems" consider "c = take n xs" | "c \<in> set (chunks n (drop n xs))"
      by (auto simp: chunks_step)
    then show ?thesis using "1.IH" False by cases auto
  qed
qed

lemma ceiling_div_step:
  fixes m n :: nat
  assumes "0 < n" "n < m"
  shows "(m + n - 1) div n = Suc ((m - n + n - 1) div n)"
proof -
  have "m + n - 1 = (m - n + n - 1) + n" using assms by simp
  then show ?thesis using assms by (metis div_add_self2 not_less_zero add.commute plus_1_eq_Suc)
qed

lemma ceiling_div_one:
  fixes m n :: nat
  assumes "0 < m" "m \<le> n"
  shows "(m + n - 1) div n = 1"
  using assms by (intro div_nat_eqI) auto

lemma length_chunks: "0 < n \<Longrightarrow> length (chunks n xs) = (length xs + n - 1) div n"
proof (induction n xs rule: chunks.induct)
  case (1 n xs)
  consider "xs = []" | "xs \<noteq> []" "length xs \<le> n" | "xs \<noteq> []" "n < length xs" by linarith
  then show ?case
  proof cases
    case 1
    with "1.prems" show ?thesis by simp
  next
    case 2
    with "1.prems" show ?thesis by (simp add: chunks_step ceiling_div_one del: One_nat_def)
  next
    case 3
    with 1 have "length (chunks n (drop n xs)) = (length xs - n + n - 1) div n" by simp
    moreover from 3 "1.prems" have "length (chunks n xs) = Suc (length (chunks n (drop n xs)))"
      by (subst chunks_step) simp_all
    ultimately show ?thesis using 3 "1.prems" by (simp only: ceiling_div_step)
  qed
qed

section \<open>Lists\<close>

lemma prefix_cases_append:
  "xs @ ys = us @ vs \<Longrightarrow>
     (\<exists>ws. us = xs @ ws \<and> ys = ws @ vs) \<or> (\<exists>ws. xs = us @ ws \<and> vs = ws @ ys)"
  by (auto simp: append_eq_append_conv2)

lemma nth_append_drop: "i < length xs \<Longrightarrow> (xs @ ys) ! i = xs ! i"
  by (simp add: nth_append)

end
