(* ===== verification/Utf8.thy ===== *)
theory Utf8
  imports Prelude
begin

text \<open>
  The part of \<open>std::string\<close> the source uses: \<open>String::from_utf8\<close> (in
  \<open>decode_connect_payload\<close>) and \<open>String::from_utf8_lossy\<close> (for the reason of a
  CONN_ERR frame). A Rust \<open>String\<close> is a byte string that satisfies \<open>utf8_valid\<close>. One
  decoding step looks at the front of the buffer and answers \<open>Good n\<close> (a code point of
  \<open>n\<close> bytes) or \<open>Bad n\<close> (a maximal ill-formed piece of \<open>n\<close> bytes, which the lossy
  conversion replaces by one U+FFFD), by the table of well-formed sequences of the Unicode
  standard that \<open>core::str\<close> implements.
\<close>

datatype utf8_step = Good nat | Bad nat

definition in_range :: "u8 \<Rightarrow> u8 \<Rightarrow> u8 \<Rightarrow> bool" where
  "in_range lo hi b \<longleftrightarrow> lo \<le> b \<and> b \<le> hi"

definition utf8_cont :: "u8 \<Rightarrow> bool" where
  "utf8_cont b \<longleftrightarrow> in_range 0x80 0xBF b"

text \<open>The second byte allowed after a leading byte of a three- and a four-byte sequence.\<close>

definition utf8_second3 :: "u8 \<Rightarrow> u8 \<Rightarrow> bool" where
  "utf8_second3 b c \<longleftrightarrow>
     (if b = 0xE0 then in_range 0xA0 0xBF c
      else if b = 0xED then in_range 0x80 0x9F c
      else utf8_cont c)"

definition utf8_second4 :: "u8 \<Rightarrow> u8 \<Rightarrow> bool" where
  "utf8_second4 b c \<longleftrightarrow>
     (if b = 0xF0 then in_range 0x90 0xBF c
      else if b = 0xF4 then in_range 0x80 0x8F c
      else utf8_cont c)"

text \<open>\<open>follow\<close> checks the bytes after the leading one, each with its own test.\<close>

fun utf8_follow :: "(u8 \<Rightarrow> bool) list \<Rightarrow> nat \<Rightarrow> bytes \<Rightarrow> utf8_step" where
  "utf8_follow [] n bs = Good n"
| "utf8_follow (p # ps) n [] = Bad n"
| "utf8_follow (p # ps) n (b # bs) = (if p b then utf8_follow ps (Suc n) bs else Bad n)"

text \<open>The tests that a leading byte asks of the bytes after it; \<open>None\<close> for a byte that leads nothing.\<close>

definition utf8_tests :: "u8 \<Rightarrow> (u8 \<Rightarrow> bool) list option" where
  "utf8_tests b =
     (if b < 0x80 then Some []
      else if in_range 0xC2 0xDF b then Some [utf8_cont]
      else if in_range 0xE0 0xEF b then Some [utf8_second3 b, utf8_cont]
      else if in_range 0xF0 0xF4 b then Some [utf8_second4 b, utf8_cont, utf8_cont]
      else None)"

fun utf8_next :: "bytes \<Rightarrow> utf8_step" where
  "utf8_next [] = Bad 1"
| "utf8_next (b # bs) =
     (case utf8_tests b of Some ps \<Rightarrow> utf8_follow ps 1 bs | None \<Rightarrow> Bad 1)"

lemma utf8_follow_ge: "utf8_follow ps n bs = Good k \<or> utf8_follow ps n bs = Bad k \<Longrightarrow> n \<le> k"
  by (induction ps n bs rule: utf8_follow.induct) (auto split: if_splits)

lemma utf8_follow_Good:
  "utf8_follow ps n bs = Good k \<Longrightarrow>
     k = n + length ps \<and> length ps \<le> length bs \<and> utf8_follow ps n (bs @ cs) = Good k \<and>
     utf8_follow ps n (take (length ps) bs) = Good k"
  by (induction ps n bs rule: utf8_follow.induct) (auto split: if_splits)

lemma utf8_next_GoodE:
  assumes "utf8_next bs = Good n"
  obtains b cs ps where "bs = b # cs" "utf8_tests b = Some ps" "n = Suc (length ps)"
    "length ps \<le> length cs" "\<And>ds. utf8_follow ps 1 (cs @ ds) = Good n"
    "utf8_follow ps 1 (take (length ps) cs) = Good n"
  using assms utf8_follow_Good that
  by (cases bs) (auto split: option.splits, fastforce)

lemma utf8_next_pos:
  assumes "utf8_next bs = Good n \<or> utf8_next bs = Bad n"
  shows "0 < n"
proof (cases bs)
  case (Cons b cs)
  with assms utf8_follow_ge [of _ 1 cs n] show ?thesis
    by (cases "utf8_tests b") fastforce+
qed (use assms in auto)

lemma utf8_next_shrinks:
  "bs \<noteq> [] \<Longrightarrow> utf8_next bs = Good n \<or> utf8_next bs = Bad n \<Longrightarrow> length bs - n < length bs"
  using utf8_next_pos [of bs n] by (cases bs) auto

lemma utf8_next_Good_le: "utf8_next bs = Good n \<Longrightarrow> n \<le> length bs"
  by (elim utf8_next_GoodE) simp

lemma utf8_next_append: "utf8_next bs = Good n \<Longrightarrow> utf8_next (bs @ cs) = Good n"
  by (elim utf8_next_GoodE) simp

lemma utf8_next_take: "utf8_next bs = Good n \<Longrightarrow> utf8_next (take n bs) = Good n"
  by (elim utf8_next_GoodE) simp

subsection \<open>\<open>String::from_utf8\<close>\<close>

function utf8_valid :: "bytes \<Rightarrow> bool" where
  "utf8_valid bs =
     (if bs = [] then True
      else case utf8_next bs of Good n \<Rightarrow> utf8_valid (drop n bs) | Bad n \<Rightarrow> False)"
  by pat_completeness auto
termination
  by (relation "measure length") (auto simp: utf8_next_shrinks)

declare utf8_valid.simps [simp del]

definition from_utf8 :: "bytes \<Rightarrow> bytes option" where
  "from_utf8 bs = (if utf8_valid bs then Some bs else None)"

lemma utf8_valid_Nil [simp]: "utf8_valid []"
  by (simp add: utf8_valid.simps)

lemma utf8_valid_append: "utf8_valid xs \<Longrightarrow> utf8_valid ys \<Longrightarrow> utf8_valid (xs @ ys)"
proof (induction xs rule: utf8_valid.induct)
  case (1 xs)
  show ?case
  proof (cases "xs = []")
    case True
    with "1.prems" show ?thesis by simp
  next
    case False
    with "1.prems" obtain n where n: "utf8_next xs = Good n" "utf8_valid (drop n xs)"
      by (subst (asm) utf8_valid.simps) (auto split: utf8_step.splits)
    from "1.IH" [OF False n(1) n(2) "1.prems"(2)] have "utf8_valid (drop n xs @ ys)" .
    moreover have "drop n (xs @ ys) = drop n xs @ ys"
      using utf8_next_Good_le [OF n(1)] by simp
    ultimately show ?thesis
      using False utf8_next_append [OF n(1), of ys]
      by (subst utf8_valid.simps) simp
  qed
qed

lemma utf8_valid_ascii: "\<forall>b\<in>set bs. b < 0x80 \<Longrightarrow> utf8_valid bs"
proof (induction bs)
  case (Cons b bs)
  then show ?case by (subst utf8_valid.simps) (simp add: utf8_tests_def)
qed simp

subsection \<open>\<open>String::from_utf8_lossy\<close>\<close>

text \<open>U+FFFD in UTF-8.\<close>

definition replacement :: bytes where
  "replacement = [0xEF, 0xBF, 0xBD]"

function from_utf8_lossy :: "bytes \<Rightarrow> bytes" where
  "from_utf8_lossy bs =
     (if bs = [] then []
      else case utf8_next bs of
        Good n \<Rightarrow> take n bs @ from_utf8_lossy (drop n bs)
      | Bad n \<Rightarrow> replacement @ from_utf8_lossy (drop n bs))"
  by pat_completeness auto
termination
  by (relation "measure length") (auto simp: utf8_next_shrinks)

declare from_utf8_lossy.simps [simp del]

lemma from_utf8_lossy_Nil [simp]: "from_utf8_lossy [] = []"
  by (simp add: from_utf8_lossy.simps)

lemma utf8_valid_replacement: "utf8_valid replacement"
  by (simp add: replacement_def utf8_valid.simps utf8_tests_def in_range_def
      utf8_second3_def utf8_cont_def)

lemma utf8_valid_char: "utf8_next bs = Good n \<Longrightarrow> utf8_valid (take n bs)"
  using utf8_next_take [of bs n] by (subst utf8_valid.simps) simp

lemma from_utf8_lossy_valid: "utf8_valid (from_utf8_lossy bs)"
proof (induction bs rule: from_utf8_lossy.induct)
  case (1 bs)
  show ?case
    by (subst from_utf8_lossy.simps)
      (auto split: utf8_step.splits intro!: utf8_valid_append utf8_valid_char
        utf8_valid_replacement dest: "1.IH")
qed

lemma from_utf8_lossy_id: "utf8_valid bs \<Longrightarrow> from_utf8_lossy bs = bs"
proof (induction bs rule: from_utf8_lossy.induct)
  case (1 bs)
  show ?case
  proof (cases "bs = []")
    case False
    with "1.prems" obtain n where n: "utf8_next bs = Good n" "utf8_valid (drop n bs)"
      by (subst (asm) utf8_valid.simps) (auto split: utf8_step.splits)
    with "1.IH" False have "from_utf8_lossy (drop n bs) = drop n bs" by simp
    with False n(1) show ?thesis by (subst from_utf8_lossy.simps) simp
  qed simp
qed

end
