(* ===== verification/Codec.thy ===== *)
theory Codec
  imports Prelude
begin

text \<open>
  The contract between a self-delimiting wire format and the reassembly loop of its
  receiver. \<open>stream_codec\<close> is what the loop relies on: an encoded item decodes to itself
  whatever follows it, a proper prefix of one asks for more data, and a decoded item is
  the encoding it was read from. \<open>reassembler\<close> adds a loop with the three branches of
  the receiver (item, more data required, failure) and shows that it cuts any
  segmentation of a stream of encoded items into exactly those items, in order. The
  frame format and the receive loop of the multiplexer are the instance, in the theory Mux.
\<close>

section \<open>Self-delimiting codecs\<close>

locale stream_codec =
  fixes wf :: "'f \<Rightarrow> bool"
    and enc :: "'f \<Rightarrow> bytes"
    and dec :: "bytes \<Rightarrow> 'e + ('f \<times> nat)"
    and more :: "'e"
  assumes dec_enc: "wf f \<Longrightarrow> dec (enc f @ rest) = Inr (f, length (enc f))"
    and dec_prefix: "wf f \<Longrightarrow> enc f = p @ s \<Longrightarrow> s \<noteq> [] \<Longrightarrow> dec p = Inl more"
    and dec_exact: "dec buf = Inr (f, n) \<Longrightarrow> wf f \<and> n = length (enc f) \<and> buf = enc f @ drop n buf"
    and dec_Nil: "dec [] = Inl more"
begin

definition partial :: "bytes \<Rightarrow> bool" where
  "partial t \<longleftrightarrow> t = [] \<or> (\<exists>g s. wf g \<and> enc g = t @ s \<and> s \<noteq> [])"

definition stream :: "'f list \<Rightarrow> bytes" where
  "stream fs = concat (map enc fs)"

lemma stream_simps [simp]:
  "stream [] = []" "stream (f # fs) = enc f @ stream fs" "stream (fs @ gs) = stream fs @ stream gs"
  by (simp_all add: stream_def)

lemma partial_Nil [simp]: "partial []"
  by (simp add: partial_def)

lemma dec_partial: "partial t \<Longrightarrow> dec t = Inl more"
  by (auto simp: partial_def dec_Nil intro: dec_prefix)

lemma partial_no_item: "wf f \<Longrightarrow> \<not> partial (enc f @ rest)"
  using dec_enc dec_partial by fastforce

lemma partial_stream_Nil: "\<forall>f\<in>set fs. wf f \<Longrightarrow> partial (stream fs) \<Longrightarrow> fs = []"
  by (cases fs) (auto simp: stream_def partial_no_item)

lemma enc_not_Nil: "wf f \<Longrightarrow> enc f \<noteq> []"
  using dec_enc [of f "[]"] dec_Nil by auto

text \<open>No encoding is a proper prefix of another, so a stream has one reading only.\<close>

lemma enc_prefix_free: "wf f \<Longrightarrow> wf g \<Longrightarrow> enc f @ xs = enc g @ ys \<Longrightarrow> f = g \<and> xs = ys"
  using dec_enc [of f xs] dec_enc [of g ys] by auto

lemma stream_inject:
  "\<forall>f\<in>set fs. wf f \<Longrightarrow> \<forall>g\<in>set gs. wf g \<Longrightarrow> stream fs = stream gs \<Longrightarrow> fs = gs"
proof (induction fs arbitrary: gs)
  case Nil
  show ?case
  proof (cases gs)
    case (Cons g gs')
    with Nil have "enc g = []" "wf g" by simp_all
    then show ?thesis using enc_not_Nil [of g] by simp
  qed simp
next
  case (Cons f fs)
  show ?case
  proof (cases gs)
    case Nil
    with Cons.prems have "enc f = []" "wf f" by simp_all
    then show ?thesis using enc_not_Nil [of f] by simp
  next
    case gs: (Cons g gs')
    with Cons.prems have "f = g \<and> stream fs = stream gs'"
      by (intro enc_prefix_free) simp_all
    with Cons.IH [of gs'] Cons.prems gs show ?thesis by simp
  qed
qed

text \<open>Any front part of a stream is a list of whole items and one partial item.\<close>

lemma stream_front:
  "\<forall>f\<in>set fs. wf f \<Longrightarrow> front @ rest = stream fs \<Longrightarrow>
     \<exists>done todo t. fs = done @ todo \<and> front = stream done @ t \<and> partial t \<and> t @ rest = stream todo"
proof (induction fs arbitrary: front)
  case Nil
  then show ?case by auto
next
  case (Cons f fs)
  from Cons.prems(2) have "front @ rest = enc f @ stream fs" by simp
  from prefix_cases_append [OF this]
  consider ws where "enc f = front @ ws" "rest = ws @ stream fs"
    | ws where "front = enc f @ ws" "stream fs = ws @ rest" by blast
  then show ?case
  proof cases
    case 1
    show ?thesis
    proof (cases "ws = []")
      case True
      with 1 have "f # fs = [f] @ fs \<and> front = stream [f] @ [] \<and> partial [] \<and> [] @ rest = stream fs"
        by simp
      then show ?thesis by blast
    next
      case False
      with 1 Cons.prems have "partial front" by (auto simp: partial_def)
      with 1 have "f # fs = [] @ (f # fs) \<and> front = stream [] @ front \<and> partial front \<and>
          front @ rest = stream (f # fs)" by simp
      then show ?thesis by blast
    qed
  next
    case 2
    with Cons obtain "done" todo t where *: "fs = done @ todo" "ws = stream done @ t"
        "partial t" "t @ rest = stream todo"
      by (metis list.set_intros(2))
    with 2 have "f # fs = (f # done) @ todo \<and> front = stream (f # done) @ t \<and> partial t \<and>
        t @ rest = stream todo" by simp
    then show ?thesis by blast
  qed
qed

end

section \<open>Reassembly\<close>

locale reassembler = stream_codec wf enc dec more
  for wf :: "'f \<Rightarrow> bool" and enc :: "'f \<Rightarrow> bytes" and dec :: "bytes \<Rightarrow> 'e + ('f \<times> nat)"
    and more :: "'e" +
  fixes loop :: "bytes \<Rightarrow> 'f list \<times> bytes"
  assumes loop_item: "dec buf = Inr (f, n) \<Longrightarrow>
      loop buf = (f # fst (loop (drop n buf)), snd (loop (drop n buf)))"
    and loop_more: "dec buf = Inl more \<Longrightarrow> loop buf = ([], buf)"
    and loop_fail: "dec buf = Inl e \<Longrightarrow> e \<noteq> more \<Longrightarrow> loop buf = ([], [])"
begin

lemma loop_stream:
  "\<forall>f\<in>set fs. wf f \<Longrightarrow> loop (stream fs @ t) = (fs @ fst (loop t), snd (loop t))"
  by (induction fs) (simp_all add: loop_item [OF dec_enc])

lemma loop_stream_partial:
  "\<forall>f\<in>set fs. wf f \<Longrightarrow> partial t \<Longrightarrow> loop (stream fs @ t) = (fs, t)"
  by (simp add: loop_stream loop_more dec_partial)

text \<open>
  One arrival: whatever front part of a stream is in the buffer, the loop takes out the
  whole items of it and keeps the partial one, so that what is still to come completes it.
\<close>

lemma loop_front:
  assumes "\<forall>f\<in>set fs. wf f" "front @ rest = stream fs"
  obtains "done" todo t where "fs = done @ todo" "loop front = (done, t)" "partial t"
    "t @ rest = stream todo"
proof -
  from stream_front [OF assms] obtain "done" todo t where *:
    "fs = done @ todo" "front = stream done @ t" "partial t" "t @ rest = stream todo" by blast
  from * assms(1) have "loop front = (done, t)"
    by (simp add: loop_stream_partial)
  with * show thesis by (intro that)
qed

text \<open>The buffer that a call leaves is never one that a further call would shorten.\<close>

lemma loop_rest:
  "dec (snd (loop buf)) = Inl more"
proof (induction "length buf" arbitrary: buf rule: less_induct)
  case less
  show ?case
  proof (cases "dec buf")
    case (Inl e)
    then show ?thesis by (cases "e = more") (simp_all add: loop_more loop_fail dec_Nil)
  next
    case (Inr p)
    then obtain f n where p: "dec buf = Inr (f, n)" by (cases p) auto
    from dec_exact [OF this] enc_not_Nil [of f] have "length (drop n buf) < length buf"
      by (cases buf) auto
    from less.hyps [OF this] show ?thesis by (simp add: loop_item [OF p])
  qed
qed

lemma loop_items_wf: "f \<in> set (fst (loop buf)) \<Longrightarrow> wf f"
proof (induction "length buf" arbitrary: buf rule: less_induct)
  case less
  show ?case
  proof (cases "dec buf")
    case (Inl e)
    with less.prems show ?thesis by (cases "e = more") (simp_all add: loop_more loop_fail)
  next
    case (Inr p)
    then obtain g n where p: "dec buf = Inr (g, n)" by (cases p) auto
    from dec_exact [OF this] enc_not_Nil [of g] have "length (drop n buf) < length buf" "wf g"
      by (cases buf; auto)+
    with less.hyps [OF this(1)] less.prems show ?thesis by (auto simp: loop_item [OF p])
  qed
qed

end

end
