(* ===== verification/Frame.thy ===== *)
theory Frame
  imports Utf8 Codec
begin

text \<open>
  \<open>src/frame.rs\<close>: the frame types with their wire codes, the frame codec
  (\<open>Frame::encode\<close>, \<open>Frame::decode\<close>) and the payload of a CONNECT frame
  (\<open>encode_connect_payload\<close>, \<open>decode_connect_payload\<close>). Indexing into the buffer is
  \<open>buf ! i\<close>; every index of the source lies below the length tested just before it.
\<close>

section \<open>Frame types\<close>

datatype frame_type = Connect | ConnectOk | ConnectErr | Data | Close

definition frame_type_code :: "frame_type \<Rightarrow> u8" where
  "frame_type_code t =
     (case t of Connect \<Rightarrow> 0x01 | ConnectOk \<Rightarrow> 0x02 | ConnectErr \<Rightarrow> 0x03
      | Data \<Rightarrow> 0x04 | Close \<Rightarrow> 0x05)"

definition from_u8 :: "u8 \<Rightarrow> frame_type option" where
  "from_u8 v =
     (if v = 0x01 then Some Connect
      else if v = 0x02 then Some ConnectOk
      else if v = 0x03 then Some ConnectErr
      else if v = 0x04 then Some Data
      else if v = 0x05 then Some Close
      else None)"

definition frame_type_display :: "frame_type \<Rightarrow> string" where
  "frame_type_display t =
     (case t of Connect \<Rightarrow> ''CONNECT'' | ConnectOk \<Rightarrow> ''CONN_OK'' | ConnectErr \<Rightarrow> ''CONN_ERR''
      | Data \<Rightarrow> ''DATA'' | Close \<Rightarrow> ''CLOSE'')"

instantiation frame_type :: enum
begin

definition enum_frame_type :: "frame_type list" where
  "enum_frame_type = [Connect, ConnectOk, ConnectErr, Data, Close]"

definition enum_all_frame_type :: "(frame_type \<Rightarrow> bool) \<Rightarrow> bool" where
  "enum_all_frame_type P \<longleftrightarrow> P Connect \<and> P ConnectOk \<and> P ConnectErr \<and> P Data \<and> P Close"

definition enum_ex_frame_type :: "(frame_type \<Rightarrow> bool) \<Rightarrow> bool" where
  "enum_ex_frame_type P \<longleftrightarrow> P Connect \<or> P ConnectOk \<or> P ConnectErr \<or> P Data \<or> P Close"

instance
proof
  show univ: "(UNIV :: frame_type set) = set enum_class.enum"
    using frame_type.exhaust by (auto simp: enum_frame_type_def)
  show "distinct (enum_class.enum :: frame_type list)"
    by (simp add: enum_frame_type_def)
  show "enum_class.enum_all P \<longleftrightarrow> Ball UNIV P" for P :: "frame_type \<Rightarrow> bool"
    unfolding univ by (simp add: enum_all_frame_type_def enum_frame_type_def)
  show "enum_class.enum_ex P \<longleftrightarrow> Bex UNIV P" for P :: "frame_type \<Rightarrow> bool"
    unfolding univ by (simp add: enum_ex_frame_type_def enum_frame_type_def)
qed

end

lemma from_u8_code [codec_simps, simp]: "from_u8 (frame_type_code t) = Some t"
  by (cases t) (simp_all add: from_u8_def frame_type_code_def)

lemma from_u8_SomeD: "from_u8 v = Some t \<Longrightarrow> v = frame_type_code t"
  by (auto simp: from_u8_def frame_type_code_def split: if_splits)

lemma from_u8_None_iff: "from_u8 v = None \<longleftrightarrow> v = 0 \<or> 5 < v"
proof -
  have "v \<in> {0, 1, 2, 3, 4, 5} \<or> 5 < v"
    by (simp add: word_less_nat_alt unat_eq_0 [symmetric]) (unat_arith)
  then show ?thesis by (auto simp: from_u8_def)
qed

lemma frame_type_display_inj: "frame_type_display s = frame_type_display t \<Longrightarrow> s = t"
  by (cases s; cases t) (simp_all add: frame_type_display_def)

section \<open>Frames\<close>

definition HDR_SIZE :: nat where
  "HDR_SIZE = 7"

record frame =
  frame_type :: frame_type
  session_id :: u32
  payload :: bytes

datatype frame_decode_state = MoreDataRequired | DecodingFailed

definition frame_new :: "frame_type \<Rightarrow> u32 \<Rightarrow> bytes \<Rightarrow> frame" where
  "frame_new t sid p = \<lparr>frame_type = t, session_id = sid, payload = p\<rparr>"

text \<open>\<open>self.payload.len() as u16\<close> keeps the low 16 bits, as \<open>of_nat\<close> does.\<close>

definition encode :: "frame \<Rightarrow> bytes" where
  "encode f =
     [frame_type_code (frame_type f)]
       @ u32_to_be_bytes (session_id f)
       @ u16_to_be_bytes (of_nat (length (payload f)))
       @ payload f"

definition decode :: "bytes \<Rightarrow> frame_decode_state + (frame \<times> nat)" where
  "decode buf =
     (if length buf < HDR_SIZE then Inl MoreDataRequired
      else case from_u8 (buf ! 0) of
        None \<Rightarrow> Inl DecodingFailed
      | Some t \<Rightarrow>
          (let sid = u32_from_be_bytes (buf ! 1) (buf ! 2) (buf ! 3) (buf ! 4);
               payload_len = unat (u16_from_be_bytes (buf ! 5) (buf ! 6));
               total = HDR_SIZE + payload_len
           in if length buf < total then Inl MoreDataRequired
              else Inr (\<lparr>frame_type = t, session_id = sid,
                         payload = take (total - HDR_SIZE) (drop HDR_SIZE buf)\<rparr>, total)))"

text \<open>A frame whose payload length fits the 16-bit length field.\<close>

definition frame_wf :: "frame \<Rightarrow> bool" where
  "frame_wf f \<longleftrightarrow> length (payload f) < 65536"

lemma frame_new_simps [simp]:
  "frame_type (frame_new t sid p) = t"
  "session_id (frame_new t sid p) = sid"
  "payload (frame_new t sid p) = p"
  by (simp_all add: frame_new_def)

lemma length_encode [codec_simps]: "length (encode f) = HDR_SIZE + length (payload f)"
  by (simp add: encode_def HDR_SIZE_def)

text \<open>What \<open>decode\<close> makes of an encoded frame of any length, with any bytes behind it.\<close>

lemma decode_encode_any:
  "decode (encode f @ rest) =
     (let n = length (payload f) mod 65536
      in Inr (f\<lparr>payload := take n (payload f)\<rparr>, HDR_SIZE + n))"
proof -
  let ?n = "length (payload f) mod 65536"
  have le: "?n \<le> length (payload f)" by simp
  have "encode f @ rest =
      frame_type_code (frame_type f) # u32_to_be_bytes (session_id f) @
      u16_to_be_bytes (of_nat (length (payload f))) @ payload f @ rest"
    by (simp add: encode_def)
  then show ?thesis using le
    by (simp add: decode_def HDR_SIZE_def u32_to_be_bytes_def u16_to_be_bytes_def
        u16_be_join u32_be_join unat_of_nat_u16 Let_def not_less del: mod_less_eq_dividend)
qed

lemma decode_encode: "frame_wf f \<Longrightarrow> decode (encode f @ rest) = Inr (f, length (encode f))"
  by (simp add: decode_encode_any frame_wf_def length_encode)

lemma decode_exact:
  assumes "decode buf = Inr (f, n)"
  shows "frame_wf f \<and> n = length (encode f) \<and> buf = encode f @ drop n buf"
proof -
  from assms have len: "HDR_SIZE \<le> length buf"
    by (auto simp: decode_def split: if_splits)
  then obtain b0 b1 b2 b3 b4 b5 b6 bs where buf: "buf = b0 # b1 # b2 # b3 # b4 # b5 # b6 # bs"
    by (auto simp: HDR_SIZE_def Suc_le_length_iff numeral_eq_Suc)
  from assms obtain t where t: "from_u8 b0 = Some t"
    by (auto simp: buf decode_def split: if_splits option.splits)
  let ?k = "unat (u16_from_be_bytes b5 b6)"
  from assms t have k: "?k \<le> length bs" and n: "n = HDR_SIZE + ?k"
    and f: "f = \<lparr>frame_type = t, session_id = u32_from_be_bytes b1 b2 b3 b4, payload = take ?k bs\<rparr>"
    by (auto simp: buf decode_def Let_def HDR_SIZE_def split: if_splits)
  have "of_nat ?k = u16_from_be_bytes b5 b6" by simp
  with k have "encode f = b0 # b1 # b2 # b3 # b4 # b5 # b6 # take ?k bs"
    by (simp add: f encode_def u16_be_split u32_be_split from_u8_SomeD [OF t])
  moreover have "drop n buf = drop ?k bs"
    by (simp add: n buf HDR_SIZE_def numeral_eq_Suc)
  ultimately show ?thesis using k
    by (simp add: f n frame_wf_def HDR_SIZE_def) (simp add: buf)
qed

lemma decode_prefix:
  assumes "frame_wf f" "encode f = p @ s" "s \<noteq> []"
  shows "decode p = Inl MoreDataRequired"
proof (cases "length p < HDR_SIZE")
  case True
  then show ?thesis by (simp add: decode_def)
next
  case False
  have code: "encode f = frame_type_code (frame_type f) # u32_to_be_bytes (session_id f) @
      u16_to_be_bytes (of_nat (length (payload f))) @ payload f"
    by (simp add: encode_def)
  have same: "p ! i = encode f ! i" if "i < HDR_SIZE" for i
    using False that assms(2) by (simp add: nth_append)
  have "length p < HDR_SIZE + length (payload f)"
    using assms(2,3) length_encode [of f] by (metis length_append length_greater_0_conv less_add_same_cancel1)
  moreover have "p ! 0 = frame_type_code (frame_type f)"
    "p ! 5 = ucast (drop_bit 8 (of_nat (length (payload f)) :: u16))"
    "p ! 6 = ucast (of_nat (length (payload f)) :: u16)"
    using same [of 0] same [of 5] same [of 6]
    by (simp_all add: HDR_SIZE_def code u32_to_be_bytes_def u16_to_be_bytes_def)
  ultimately show ?thesis using False assms(1)
    by (simp add: decode_def Let_def u16_be_join unat_of_nat_u16 frame_wf_def)
qed

lemma decode_Nil: "decode [] = Inl MoreDataRequired"
  by (simp add: decode_def HDR_SIZE_def)

lemma decode_failed_iff:
  "decode buf = Inl DecodingFailed \<longleftrightarrow> HDR_SIZE \<le> length buf \<and> from_u8 (buf ! 0) = None"
  by (auto simp: decode_def Let_def split: option.splits)

lemma decode_consumes: "decode buf = Inr (f, n) \<Longrightarrow> HDR_SIZE \<le> n \<and> n \<le> length buf"
  by (auto simp: decode_def Let_def split: if_splits option.splits)

interpretation frames: stream_codec frame_wf encode decode MoreDataRequired
  by unfold_locales (simp_all add: decode_encode decode_prefix decode_exact decode_Nil)

section \<open>The payload of a CONNECT frame\<close>

definition encode_connect_payload :: "bytes \<Rightarrow> u16 \<Rightarrow> bool \<Rightarrow> bytes" where
  "encode_connect_payload host port udp =
     [of_nat (length host)] @ host @ u16_to_be_bytes port
       @ (if udp then [0b10000000] else [0b00000000])"

definition decode_connect_payload :: "bytes \<Rightarrow> (bytes \<times> u16 \<times> bool) option" where
  "decode_connect_payload data =
     (if data = [] then None
      else let n = unat (data ! 0)
           in if length data < 1 + n + 2 + 1 then None
              else case from_utf8 (take n (drop 1 data)) of
                None \<Rightarrow> None
              | Some host \<Rightarrow>
                  let port = u16_from_be_bytes (data ! (1 + n)) (data ! (2 + n));
                      udp = (if data ! (n + 3) AND 0b10000000 = 0 then False else True)
                  in Some (host, port, udp))"

lemma length_encode_connect_payload [codec_simps]:
  "length (encode_connect_payload host port udp) = length host + 4"
  by (simp add: encode_connect_payload_def)

lemma connect_payload_decodes:
  assumes "utf8_valid host" "length host < 256"
  shows "decode_connect_payload (encode_connect_payload host port udp @ rest) =
    Some (host, port, udp)"
proof -
  have "unat (of_nat (length host) :: u8) = length host"
    using assms(2) by (simp add: unat_of_nat_u8)
  then show ?thesis using assms(1)
    by (simp add: decode_connect_payload_def encode_connect_payload_def Let_def from_utf8_def
        u16_to_be_bytes_def u16_be_join nth_append)
qed

lemma connect_payload_prefix_rejected:
  assumes "length host < 256" "encode_connect_payload host port udp = p @ s" "s \<noteq> []"
  shows "decode_connect_payload p = None"
proof (cases p)
  case (Cons b bs)
  with assms(2) have "b = of_nat (length host)"
    by (simp add: encode_connect_payload_def)
  with assms(1) have "unat b = length host" by (simp add: unat_of_nat_u8)
  moreover have "length p < length host + 4"
    using assms(2,3) length_encode_connect_payload [of host port udp]
    by (metis length_append length_greater_0_conv less_add_same_cancel1)
  ultimately show ?thesis using Cons
    by (simp add: decode_connect_payload_def)
qed (simp add: decode_connect_payload_def)

lemma decode_connect_payload_host:
  "decode_connect_payload data = Some (h, p, u) \<Longrightarrow>
     utf8_valid h \<and> h = take (unat (data ! 0)) (drop 1 data) \<and> length h = unat (data ! 0)"
  by (auto simp: decode_connect_payload_def Let_def from_utf8_def split: if_splits)

lemma connect_payload_long_host:
  assumes "decode_connect_payload (encode_connect_payload host port udp) = Some (h, p, u)"
  shows "h = take (length host mod 256) host"
proof -
  have "length host mod 256 \<le> length host" by simp
  with decode_connect_payload_host [OF assms] show ?thesis
    by (simp add: encode_connect_payload_def unat_of_nat_u8 del: mod_less_eq_dividend)
qed

section \<open>The test of the source\<close>

text \<open>The unit test of \<open>src/frame.rs\<close>: \<open>pop\<close> takes the settings byte off.\<close>

definition rejects_connect_payload_without_settings_byte :: bool where
  "rejects_connect_payload_without_settings_byte \<longleftrightarrow>
     (let payload = encode_connect_payload (str_bytes ''example.com'') 25565 False
      in decode_connect_payload (butlast payload) = None)"

lemma frame_test_passes: "rejects_connect_payload_without_settings_byte"
proof -
  let ?p = "encode_connect_payload (str_bytes ''example.com'') 25565 False"
  have "?p \<noteq> []" by (simp add: encode_connect_payload_def)
  then have "?p = butlast ?p @ [last ?p]" by simp
  from connect_payload_prefix_rejected [OF _ this] show ?thesis
    by (simp add: rejects_connect_payload_without_settings_byte_def str_bytes_def)
qed

end
