(* ===== verification/Mailbox.thy ===== *)
theory Mailbox
  imports Frame
begin

text \<open>
  What the users of the multiplexer (event loops, session handlers, relays) rely on: a table
  of mailboxes, one per registered session, each a queue of the frames dispatched to it and
  not yet taken. The laws say what registering, dropping and dispatching make of a lookup;
  the lemmas follow for any table that keeps them. The multiplexer of \<open>src/mux.rs\<close> is
  the instance, in the theory Mux.
\<close>

locale mailbox_table =
  fixes inv :: "'m \<Rightarrow> bool"
    and mailbox :: "'m \<Rightarrow> u32 \<Rightarrow> frame list option"
    and register :: "u32 \<Rightarrow> 'm \<Rightarrow> 'm"
    and unregister :: "u32 \<Rightarrow> 'm \<Rightarrow> 'm"
    and deliver :: "frame \<Rightarrow> 'm \<Rightarrow> 'm"
  assumes inv_register: "inv m \<Longrightarrow> inv (register sid m)"
    and inv_unregister: "inv m \<Longrightarrow> inv (unregister sid m)"
    and inv_deliver: "inv m \<Longrightarrow> inv (deliver f m)"
    and mailbox_register: "inv m \<Longrightarrow> mailbox (register sid m) = (mailbox m)(sid \<mapsto> [])"
    and mailbox_unregister: "inv m \<Longrightarrow> mailbox (unregister sid m) = (mailbox m)(sid := None)"
    and mailbox_deliver: "inv m \<Longrightarrow> mailbox (deliver f m) =
      (case mailbox m (session_id f) of
         None \<Rightarrow> mailbox m
       | Some q \<Rightarrow> (mailbox m)(session_id f \<mapsto> q @ [f]))"
begin

lemma inv_deliver_all: "inv m \<Longrightarrow> inv (fold deliver fs m)"
  by (induction fs arbitrary: m) (simp_all add: inv_deliver)

text \<open>
  A batch of frames leaves in every mailbox the frames of its own session, behind what was
  queued, in the order of the batch.
\<close>

lemma mailbox_deliver_all:
  "inv m \<Longrightarrow>
     mailbox (fold deliver fs m) sid =
       map_option (\<lambda>q. q @ filter (\<lambda>f. session_id f = sid) fs) (mailbox m sid)"
proof (induction fs arbitrary: m)
  case Nil
  then show ?case by (simp add: option.map_ident)
next
  case (Cons f fs)
  then have "mailbox (fold deliver (f # fs) m) sid =
      map_option (\<lambda>q. q @ filter (\<lambda>f. session_id f = sid) fs) (mailbox (deliver f m) sid)"
    by (simp add: inv_deliver)
  with Cons.prems show ?case
    by (cases "mailbox m (session_id f)"; cases "session_id f = sid")
      (auto simp: mailbox_deliver option.map_comp comp_def)
qed

lemma deliver_other: "inv m \<Longrightarrow> session_id f \<noteq> sid \<Longrightarrow> mailbox (deliver f m) sid = mailbox m sid"
  by (simp add: mailbox_deliver split: option.split)

lemma deliver_unregistered:
  "inv m \<Longrightarrow> session_id f = sid \<Longrightarrow> mailbox (deliver f (unregister sid m)) = mailbox (unregister sid m)"
  by (simp add: mailbox_deliver inv_unregister mailbox_unregister)

lemma register_twice: "inv m \<Longrightarrow> mailbox (register sid (deliver f (register sid m))) sid = Some []"
  by (simp add: mailbox_register inv_register inv_deliver)

lemma sessions_deliver: "inv m \<Longrightarrow> dom (mailbox (deliver f m)) = dom (mailbox m)"
  by (auto simp: mailbox_deliver split: option.split)

end

locale resettable_table = mailbox_table inv mailbox register unregister deliver
  for inv :: "'m \<Rightarrow> bool" and mailbox :: "'m \<Rightarrow> u32 \<Rightarrow> frame list option"
    and register unregister :: "u32 \<Rightarrow> 'm \<Rightarrow> 'm" and deliver :: "frame \<Rightarrow> 'm \<Rightarrow> 'm" +
  fixes clear :: "'m \<Rightarrow> 'm"
  assumes inv_clear: "inv m \<Longrightarrow> inv (clear m)"
    and mailbox_clear: "inv m \<Longrightarrow> mailbox (clear m) = Map.empty"
begin

lemma clear_discards: "inv m \<Longrightarrow> mailbox (fold deliver fs (clear m)) = Map.empty"
  by (rule ext) (simp add: mailbox_deliver_all inv_clear mailbox_clear)

lemma clear_then_register:
  "inv m \<Longrightarrow> mailbox (register sid (clear m)) = [sid \<mapsto> []]"
  by (simp add: mailbox_register inv_clear mailbox_clear)

end

end
