(* ===== verification/Mux.thy ===== *)
theory Mux
  imports Mailbox
begin

text \<open>
  \<open>src/mux.rs\<close>: the multiplexer. The state record holds the fields of \<open>MuxInner\<close>, the
  channels that \<open>register_session\<close> creates (a store: \<open>sessions\<close> maps a session id to the
  index of the channel its sender feeds, the session task holds the index as its receiver),
  and the place where the task of \<open>run_link_sender\<close> stands. The link id type \<open>'l\<close> and the
  network (\<open>RnsNode::send_on_link\<close>, \<open>LINK_MDU\<close>) belong to the crate \<open>rns_net\<close> and are
  parameters. A bounded send on a full channel suspends its task; here it is \<open>None\<close>.
\<close>

section \<open>State\<close>

text \<open>
  An unbounded channel: what is queued, whether its sender still exists (it is dropped when
  its entry leaves the session map) and whether its receiver does (it is dropped when the
  session task ends).
\<close>

record chan =
  cq :: "frame list"
  tx_alive :: bool
  rx_alive :: bool

record 'l mux =
  link_id :: "'l option"
  sessions :: "u32 \<rightharpoonup> nat"
  next_sid :: u32
  recv_buf :: bytes
  data_q :: "bytes list"
  chans :: "chan list"
  sender :: "('l \<times> bytes list) option"

definition DATA_CONTEXT :: u8 where
  "DATA_CONTEXT = 0x00"

text \<open>The capacity of the channel that \<open>run_link_sender\<close> makes.\<close>

definition SENDER_CAPACITY :: nat where
  "SENDER_CAPACITY = 5"

definition mux_new :: "'l mux" where
  "mux_new =
     \<lparr>link_id = None, sessions = Map.empty, next_sid = 0, recv_buf = [], data_q = [],
      chans = [], sender = None\<rparr>"

section \<open>Operations of \<open>MuxHandle\<close>\<close>

definition set_link_id :: "'l \<Rightarrow> 'l mux \<Rightarrow> 'l mux" where
  "set_link_id l m = m\<lparr>link_id := Some l\<rparr>"

definition clear_link_id :: "'l mux \<Rightarrow> 'l mux" where
  "clear_link_id m = m\<lparr>link_id := None\<rparr>"

definition close_tx :: "chan \<Rightarrow> chan" where
  "close_tx ch = ch\<lparr>tx_alive := False\<rparr>"

text \<open>Clearing the session map drops every sender that was in it.\<close>

definition reset :: "'l mux \<Rightarrow> 'l mux" where
  "reset m = m\<lparr>link_id := None, sessions := Map.empty, recv_buf := [],
               chans := map close_tx (chans m)\<rparr>"

definition is_connected :: "'l mux \<Rightarrow> bool" where
  "is_connected m \<longleftrightarrow> link_id m \<noteq> None"

definition next_session_id :: "'l mux \<Rightarrow> u32 \<times> 'l mux" where
  "next_session_id m = (let sid = next_sid m + 1 in (sid, m\<lparr>next_sid := sid\<rparr>))"

text \<open>Dropping the sender a session id maps to, if there is one: its channel has no sender then.\<close>

definition drop_sender :: "u32 \<Rightarrow> 'l mux \<Rightarrow> chan list" where
  "drop_sender sid m =
     (case sessions m sid of None \<Rightarrow> chans m | Some c \<Rightarrow> (chans m)[c := close_tx (chans m ! c)])"

definition chan_new :: chan where
  "chan_new = \<lparr>cq = [], tx_alive = True, rx_alive = True\<rparr>"

definition register_session :: "u32 \<Rightarrow> 'l mux \<Rightarrow> nat \<times> 'l mux" where
  "register_session sid m =
     (length (chans m),
      m\<lparr>sessions := (sessions m)(sid \<mapsto> length (chans m)),
        chans := drop_sender sid m @ [chan_new]\<rparr>)"

definition drop_session :: "u32 \<Rightarrow> 'l mux \<Rightarrow> 'l mux" where
  "drop_session sid m =
     m\<lparr>sessions := (sessions m)(sid := None), chans := drop_sender sid m\<rparr>"

definition send_frame :: "frame \<Rightarrow> 'l mux \<Rightarrow> 'l mux option" where
  "send_frame f m =
     (if length (data_q m) < SENDER_CAPACITY then Some (m\<lparr>data_q := data_q m @ [encode f]\<rparr>)
      else None)"

definition send :: "frame_type \<Rightarrow> u32 \<Rightarrow> bytes \<Rightarrow> 'l mux \<Rightarrow> 'l mux option" where
  "send t sid p m = send_frame (frame_new t sid p) m"

definition dispatch :: "frame \<Rightarrow> 'l mux \<Rightarrow> 'l mux" where
  "dispatch f m =
     (case sessions m (session_id f) of
        None \<Rightarrow> m
      | Some c \<Rightarrow>
          if rx_alive (chans m ! c)
          then m\<lparr>chans := (chans m)[c := (chans m ! c)\<lparr>cq := cq (chans m ! c) @ [f]\<rparr>]\<rparr>
          else m)"

text \<open>The loop of \<open>receive_data\<close>: frames out of the buffer, and what stays in it.\<close>

function receive_loop :: "bytes \<Rightarrow> frame list \<times> bytes" where
  "receive_loop buf =
     (case decode buf of
        Inr (f, consumed) \<Rightarrow>
          (let (frames, rest) = receive_loop (drop consumed buf) in (f # frames, rest))
      | Inl MoreDataRequired \<Rightarrow> ([], buf)
      | Inl DecodingFailed \<Rightarrow> ([], []))"
  by pat_completeness auto
termination
  by (relation "measure length") (auto dest!: decode_consumes simp: HDR_SIZE_def)

declare receive_loop.simps [simp del]

definition receive_data :: "bytes \<Rightarrow> 'l mux \<Rightarrow> frame list \<times> 'l mux" where
  "receive_data data m =
     (let (frames, rest) = receive_loop (recv_buf m @ data) in (frames, m\<lparr>recv_buf := rest\<rparr>))"

section \<open>The receiving end of a session\<close>

datatype recv_result = Got frame | Pending | Closed

text \<open>
  \<open>session_rx.recv().await\<close>: the oldest queued frame; with nothing queued it waits while the
  sender exists and answers \<open>None\<close> (here \<open>Closed\<close>) once it is gone.
\<close>

definition recv :: "nat \<Rightarrow> 'l mux \<Rightarrow> recv_result \<times> 'l mux" where
  "recv c m =
     (let ch = chans m ! c
      in case cq ch of
           f # q \<Rightarrow> (Got f, m\<lparr>chans := (chans m)[c := ch\<lparr>cq := q\<rparr>]\<rparr>)
         | [] \<Rightarrow> (if tx_alive ch then Pending else Closed, m))"

definition drop_receiver :: "nat \<Rightarrow> 'l mux \<Rightarrow> 'l mux" where
  "drop_receiver c m =
     m\<lparr>chans := (chans m)[c := (chans m ! c)\<lparr>cq := [], rx_alive := False\<rparr>]\<rparr>"

section \<open>The task of \<open>run_link_sender\<close>\<close>

text \<open>
  One iteration of its loop in two kinds of steps: take an encoded frame from the channel
  and look at the active link, then one step per chunk. The link id was copied when the
  frame was taken; a failed send forgets the link id of the multiplexer, whatever it is by
  then, and the rest of the frame.
\<close>

definition sender_recv :: "nat \<Rightarrow> 'l mux \<Rightarrow> 'l mux" where
  "sender_recv LINK_MDU m =
     (case (sender m, data_q m) of
        (None, d # q) \<Rightarrow>
          (case link_id m of
             None \<Rightarrow> m\<lparr>data_q := q\<rparr>
           | Some active \<Rightarrow> m\<lparr>data_q := q, sender := Some (active, chunks LINK_MDU d)\<rparr>)
      | _ \<Rightarrow> m)"

definition sender_chunk ::
  "('n \<Rightarrow> 'l \<Rightarrow> bytes \<Rightarrow> u8 \<Rightarrow> bool \<times> 'n) \<Rightarrow> 'n \<times> 'l mux \<Rightarrow> 'n \<times> 'l mux" where
  "sender_chunk send_on_link = (\<lambda>(net, m).
     case sender m of
       None \<Rightarrow> (net, m)
     | Some (active, []) \<Rightarrow> (net, m\<lparr>sender := None\<rparr>)
     | Some (active, c # cs) \<Rightarrow>
         (let (ok, net') = send_on_link net active c DATA_CONTEXT
          in if ok then (net', m\<lparr>sender := Some (active, cs)\<rparr>)
             else (net', m\<lparr>link_id := None, sender := None\<rparr>)))"

section \<open>Well-formed session tables\<close>

text \<open>
  Every entry of the session map is the sender of a channel of its own, and a channel has a
  sender exactly while some entry feeds it.
\<close>

definition mux_inv :: "'l mux \<Rightarrow> bool" where
  "mux_inv m \<longleftrightarrow>
     (\<forall>sid c. sessions m sid = Some c \<longrightarrow> c < length (chans m) \<and> tx_alive (chans m ! c)) \<and>
     (\<forall>sid sid' c. sessions m sid = Some c \<longrightarrow> sessions m sid' = Some c \<longrightarrow> sid = sid') \<and>
     (\<forall>c. c < length (chans m) \<longrightarrow> tx_alive (chans m ! c) \<longrightarrow> (\<exists>sid. sessions m sid = Some c))"

lemma mux_invD:
  assumes "mux_inv m" "sessions m sid = Some c"
  shows "c < length (chans m)" "tx_alive (chans m ! c)" "sessions m sid' = Some c \<Longrightarrow> sid' = sid"
  using assms unfolding mux_inv_def by blast+

lemma mux_inv_owner:
  "mux_inv m \<Longrightarrow> c < length (chans m) \<Longrightarrow> tx_alive (chans m ! c) \<Longrightarrow> \<exists>sid. sessions m sid = Some c"
  unfolding mux_inv_def by blast

text \<open>
  The invariant speaks of the session map and the \<open>tx_alive\<close> flags only, so an operation
  that keeps both keeps it.
\<close>

lemma mux_inv_cong:
  assumes "sessions m' = sessions m" "length (chans m') = length (chans m)"
    and "\<And>c. c < length (chans m) \<Longrightarrow> tx_alive (chans m' ! c) = tx_alive (chans m ! c)"
  shows "mux_inv m' \<longleftrightarrow> mux_inv m"
  unfolding mux_inv_def assms(1,2) using assms(3) by blast

lemma tx_alive_update:
  "tx_alive ch = tx_alive (cs ! c) \<Longrightarrow> i < length cs \<Longrightarrow> tx_alive (cs[c := ch] ! i) = tx_alive (cs ! i)"
  by (cases "i = c") auto

lemma close_tx_simps [simp]:
  "cq (close_tx ch) = cq ch" "tx_alive (close_tx ch) = False" "rx_alive (close_tx ch) = rx_alive ch"
  by (simp_all add: close_tx_def)

lemma chan_new_simps [simp]: "cq chan_new = []" "tx_alive chan_new" "rx_alive chan_new"
  by (simp_all add: chan_new_def)

lemma length_drop_sender [simp]: "length (drop_sender sid m) = length (chans m)"
  by (simp add: drop_sender_def split: option.split)

lemma nth_drop_sender:
  "mux_inv m \<Longrightarrow> c < length (chans m) \<Longrightarrow>
     drop_sender sid m ! c = (if sessions m sid = Some c then close_tx (chans m ! c) else chans m ! c)"
  by (auto simp: drop_sender_def nth_list_update split: option.split)

lemma mux_inv_new [simp]: "mux_inv mux_new"
  by (simp add: mux_inv_def mux_new_def)

lemma mux_invI:
  assumes "\<And>sid c. sessions m sid = Some c \<Longrightarrow> c < length (chans m) \<and> tx_alive (chans m ! c)"
    and "\<And>sid sid' c. sessions m sid = Some c \<Longrightarrow> sessions m sid' = Some c \<Longrightarrow> sid = sid'"
    and "\<And>c. c < length (chans m) \<Longrightarrow> tx_alive (chans m ! c) \<Longrightarrow> \<exists>sid. sessions m sid = Some c"
  shows "mux_inv m"
  unfolding mux_inv_def using assms by blast

lemma mux_inv_drop_session:
  assumes "mux_inv m"
  shows "mux_inv (drop_session sid m)"
proof (rule mux_invI)
  fix s c assume "sessions (drop_session sid m) s = Some c"
  then have "s \<noteq> sid" "sessions m s = Some c"
    by (auto simp: drop_session_def split: if_splits)
  with mux_invD(1,2) [OF assms, of s c] mux_invD(3) [OF assms, of s c sid]
  show "c < length (chans (drop_session sid m)) \<and> tx_alive (chans (drop_session sid m) ! c)"
    by (auto simp: drop_session_def nth_drop_sender [OF assms])
next
  fix s s' c
  assume "sessions (drop_session sid m) s = Some c" "sessions (drop_session sid m) s' = Some c"
  then have "sessions m s = Some c" "sessions m s' = Some c"
    by (auto simp: drop_session_def split: if_splits)
  with mux_invD(3) [OF assms] show "s = s'" by metis
next
  fix c
  assume "c < length (chans (drop_session sid m))" "tx_alive (chans (drop_session sid m) ! c)"
  then have "c < length (chans m)" "tx_alive (chans m ! c)" "sessions m sid \<noteq> Some c"
    by (auto simp: drop_session_def nth_drop_sender [OF assms] split: if_splits)
  with mux_inv_owner [OF assms, of c] show "\<exists>s. sessions (drop_session sid m) s = Some c"
    by (auto simp: drop_session_def)
qed

lemma mux_inv_register_session:
  assumes "mux_inv m"
  shows "mux_inv (snd (register_session sid m))"
proof (rule mux_invI)
  let ?m = "snd (register_session sid m)"
  fix s c assume "sessions ?m s = Some c"
  then consider "s = sid" "c = length (chans m)" | "s \<noteq> sid" "sessions m s = Some c"
    by (auto simp: register_session_def split: if_splits)
  then show "c < length (chans ?m) \<and> tx_alive (chans ?m ! c)"
  proof cases
    case 2
    then have "sessions m sid \<noteq> Some c" using mux_invD(3) [OF assms, of s c sid] by blast
    with 2 mux_invD(1,2) [OF assms, of s c] show ?thesis
      by (simp add: register_session_def nth_append nth_drop_sender [OF assms])
  qed (simp add: register_session_def nth_append)
next
  let ?m = "snd (register_session sid m)"
  fix s s' c assume "sessions ?m s = Some c" "sessions ?m s' = Some c"
  then have "s = sid \<and> c = length (chans m) \<or> sessions m s = Some c"
    "s' = sid \<and> c = length (chans m) \<or> sessions m s' = Some c"
    by (auto simp: register_session_def split: if_splits)
  with mux_invD(1,3) [OF assms] show "s = s'" by (metis less_irrefl)
next
  let ?m = "snd (register_session sid m)"
  fix c assume c: "c < length (chans ?m)" "tx_alive (chans ?m ! c)"
  show "\<exists>s. sessions ?m s = Some c"
  proof (cases "c = length (chans m)")
    case False
    with c have "c < length (chans m)" "tx_alive (drop_sender sid m ! c)"
      by (auto simp: register_session_def nth_append)
    with assms obtain s where "sessions m s = Some c" "s \<noteq> sid"
      by (auto simp: nth_drop_sender dest: mux_inv_owner split: if_splits)
    then show ?thesis by (auto simp: register_session_def)
  qed (auto simp: register_session_def)
qed

lemma mux_inv_reset: "mux_inv (reset m)"
  by (simp add: mux_inv_def reset_def)

lemma mux_inv_dispatch: "mux_inv m \<Longrightarrow> mux_inv (dispatch f m)"
  by (subst mux_inv_cong [of _ m])
    (auto simp: dispatch_def tx_alive_update split: option.split)

lemma mux_inv_recv: "mux_inv m \<Longrightarrow> mux_inv (snd (recv c m))"
  by (subst mux_inv_cong [of _ m])
    (auto simp: recv_def Let_def tx_alive_update split: list.split)

lemma mux_inv_drop_receiver: "mux_inv m \<Longrightarrow> mux_inv (drop_receiver c m)"
  by (subst mux_inv_cong [of _ m]) (auto simp: drop_receiver_def tx_alive_update)

lemma mux_inv_fields:
  "mux_inv (set_link_id l m) = mux_inv m"
  "mux_inv (clear_link_id m) = mux_inv m"
  "mux_inv (snd (next_session_id m)) = mux_inv m"
  "mux_inv (snd (receive_data data m)) = mux_inv m"
  by (simp_all add: mux_inv_def set_link_id_def clear_link_id_def next_session_id_def
      receive_data_def Let_def split: prod.split)

lemma mux_inv_send: "send t sid p m = Some m' \<Longrightarrow> mux_inv m' = mux_inv m"
  by (auto simp: send_def send_frame_def mux_inv_def split: if_splits)

lemma mux_inv_send_frame: "send_frame f m = Some m' \<Longrightarrow> mux_inv m' = mux_inv m"
  by (auto simp: send_frame_def mux_inv_def split: if_splits)

lemma mux_inv_sender_recv: "mux_inv (sender_recv mdu m) = mux_inv m"
  by (simp add: sender_recv_def mux_inv_def split: option.split list.split prod.split)

lemma mux_inv_sender_chunk: "mux_inv (snd (sender_chunk so (net, m))) = mux_inv m"
  by (simp add: sender_chunk_def mux_inv_def Let_def split: option.split list.split prod.split)

lemmas mux_inv_ops =
  mux_inv_new mux_inv_drop_session mux_inv_register_session mux_inv_reset mux_inv_dispatch
  mux_inv_recv mux_inv_drop_receiver mux_inv_fields mux_inv_sender_recv mux_inv_sender_chunk

section \<open>Mailboxes\<close>

text \<open>
  The queue of a registered session whose receiver still exists. This is the abstraction
  that relates the channel store to the table of mailboxes.
\<close>

definition mailbox :: "'l mux \<Rightarrow> u32 \<Rightarrow> frame list option" where
  "mailbox m sid =
     (case sessions m sid of
        None \<Rightarrow> None
      | Some c \<Rightarrow> if rx_alive (chans m ! c) then Some (cq (chans m ! c)) else None)"

lemma mailbox_cong: "sessions m' = sessions m \<Longrightarrow> chans m' = chans m \<Longrightarrow> mailbox m' = mailbox m"
  by (rule ext) (simp add: mailbox_def cong: option.case_cong if_cong)

definition register :: "u32 \<Rightarrow> 'l mux \<Rightarrow> 'l mux" where
  "register sid m = snd (register_session sid m)"

lemma mailbox_register: "mux_inv m \<Longrightarrow> mailbox (register sid m) = (mailbox m)(sid \<mapsto> [])"
proof (rule ext)
  fix s assume inv: "mux_inv m"
  show "mailbox (register sid m) s = ((mailbox m)(sid \<mapsto> [])) s"
  proof (cases "s = sid")
    case True
    then show ?thesis by (simp add: mailbox_def register_def register_session_def nth_append)
  next
    case False
    then show ?thesis
      using mux_invD(1) [OF inv, of s]
      by (auto simp: mailbox_def register_def register_session_def nth_append
          nth_drop_sender [OF inv] split: option.split)
  qed
qed

lemma mailbox_drop_session: "mux_inv m \<Longrightarrow> mailbox (drop_session sid m) = (mailbox m)(sid := None)"
proof (rule ext)
  fix s assume inv: "mux_inv m"
  show "mailbox (drop_session sid m) s = ((mailbox m)(sid := None)) s"
    using mux_invD(1) [OF inv, of s]
    by (auto simp: mailbox_def drop_session_def nth_drop_sender [OF inv] split: option.split)
qed

lemma mailbox_reset: "mailbox (reset m) = Map.empty"
  by (simp add: mailbox_def reset_def fun_eq_iff)

lemma mailbox_dispatch:
  assumes inv: "mux_inv m"
  shows "mailbox (dispatch f m) =
    (case mailbox m (session_id f) of
       None \<Rightarrow> mailbox m
     | Some q \<Rightarrow> (mailbox m)(session_id f \<mapsto> q @ [f]))"
proof (rule ext)
  fix s
  show "mailbox (dispatch f m) s =
    (case mailbox m (session_id f) of
       None \<Rightarrow> mailbox m
     | Some q \<Rightarrow> (mailbox m)(session_id f \<mapsto> q @ [f])) s"
  proof (cases "sessions m (session_id f)")
    case None
    then show ?thesis by (simp add: mailbox_def dispatch_def)
  next
    case (Some c)
    show ?thesis
    proof (cases "s = session_id f")
      case True
      with Some mux_invD(1) [OF inv Some] show ?thesis by (simp add: mailbox_def dispatch_def)
    next
      case False
      then have "sessions m s \<noteq> Some c" using mux_invD(3) [OF inv Some, of s] by blast
      with Some False show ?thesis
        by (auto simp: mailbox_def dispatch_def nth_list_update split: option.split)
    qed
  qed
qed

interpretation table: resettable_table mux_inv mailbox register drop_session dispatch reset
  by unfold_locales
    (simp_all add: mux_inv_ops register_def [symmetric] mux_inv_register_session [folded register_def]
      mailbox_register mailbox_drop_session mailbox_dispatch mailbox_reset)

text \<open>What the receiver of a registered session gets, and what is left.\<close>

lemma recv_Cons:
  assumes "mux_inv m" "sessions m sid = Some c" "mailbox m sid = Some (f # q)"
  shows "fst (recv c m) = Got f \<and> mailbox (snd (recv c m)) = (mailbox m)(sid \<mapsto> q)"
proof -
  from assms have ch: "rx_alive (chans m ! c)" "cq (chans m ! c) = f # q"
    by (auto simp: mailbox_def split: if_splits)
  have other: "sessions m s \<noteq> Some c" if "s \<noteq> sid" for s
    using that mux_invD(3) [OF assms(1,2), of s] by blast
  have "mailbox (snd (recv c m)) s = ((mailbox m)(sid \<mapsto> q)) s" for s
    using ch assms(2) other [of s] mux_invD(1) [OF assms(1,2)]
    by (auto simp: recv_def mailbox_def nth_list_update split: option.split)
  with ch show ?thesis by (auto simp: recv_def)
qed

lemma recv_Nil:
  "mux_inv m \<Longrightarrow> sessions m sid = Some c \<Longrightarrow> mailbox m sid = Some [] \<Longrightarrow> recv c m = (Pending, m)"
  by (auto simp: mailbox_def recv_def mux_invD split: if_splits)

text \<open>A channel without a sender runs dry: what was queued is still received, then \<open>Closed\<close>.\<close>

definition chan_closed :: "'l mux \<Rightarrow> nat \<Rightarrow> bool" where
  "chan_closed m c \<longleftrightarrow> \<not> tx_alive (chans m ! c)"

lemma recv_closed: "chan_closed m c \<Longrightarrow> cq (chans m ! c) = [] \<Longrightarrow> recv c m = (Closed, m)"
  by (simp add: recv_def chan_closed_def)

lemma reset_closes: "c < length (chans m) \<Longrightarrow> chan_closed (reset m) c"
  by (simp add: chan_closed_def reset_def)

lemma drop_session_closes:
  "mux_inv m \<Longrightarrow> sessions m sid = Some c \<Longrightarrow> chan_closed (drop_session sid m) c"
  by (simp add: chan_closed_def drop_session_def nth_drop_sender mux_invD)

lemma register_closes_old:
  "mux_inv m \<Longrightarrow> sessions m sid = Some c \<Longrightarrow> chan_closed (register sid m) c"
  by (simp add: chan_closed_def register_def register_session_def nth_append nth_drop_sender mux_invD)

text \<open>What dispatching and reassembly leave alone.\<close>

lemma dispatch_all_fields [frame_rules]:
  "next_sid (fold dispatch fs m) = next_sid m" "sessions (fold dispatch fs m) = sessions m"
  by (induction fs arbitrary: m; simp add: dispatch_def split: option.split)+

lemma receive_data_fields [frame_rules]:
  "receive_data d m = (fs, m') \<Longrightarrow> next_sid m' = next_sid m \<and> sessions m' = sessions m \<and> mux_inv m' = mux_inv m"
  by (auto simp: receive_data_def mux_inv_def split: prod.splits)

section \<open>Reassembly of link data\<close>

lemma receive_loop_item:
  "decode buf = Inr (f, n) \<Longrightarrow>
     receive_loop buf = (f # fst (receive_loop (drop n buf)), snd (receive_loop (drop n buf)))"
  by (subst receive_loop.simps) (simp add: case_prod_beta)

lemma receive_loop_stop:
  "decode buf = Inl MoreDataRequired \<Longrightarrow> receive_loop buf = ([], buf)"
  "decode buf = Inl DecodingFailed \<Longrightarrow> receive_loop buf = ([], [])"
  by (subst receive_loop.simps, simp)+

interpretation link_data:
  reassembler frame_wf encode decode MoreDataRequired receive_loop
proof
  fix buf e
  assume "decode buf = Inl e" "e \<noteq> MoreDataRequired"
  then show "receive_loop buf = ([], [])" by (cases e) (simp_all add: receive_loop_stop)
qed (simp_all add: receive_loop_item receive_loop_stop)

end
