(* ===== verification/Tunnel.thy ===== *)
theory Tunnel
  imports Mux
begin

text \<open>
  One direction of the tunnel: the multiplexer of one peer with its link sender, the link,
  and the multiplexer of the other peer. The detailed state moves bytes: encoded frames in
  the bounded channel, chunks of at most \<open>LINK_MDU\<close> bytes on the link, a reassembly buffer.
  The abstract contract is a first-in first-out channel of frames with one mailbox per
  session at its end. Every reachable state refines it, and every accepted frame can be
  brought to the far end. The link is assumed reliable and ordered here, as the README of
  the program says it must be; the failing link is treated in the theory Mux (the step
  \<open>sender_chunk\<close>) and below (\<open>sender_failure\<close>).
\<close>

section \<open>Sequences of arrivals\<close>

text \<open>The LinkData events of one link in their order: buffer, decode, hand the frames on.\<close>

fun receive_all :: "bytes list \<Rightarrow> 'l mux \<Rightarrow> frame list \<times> 'l mux" where
  "receive_all [] m = ([], m)"
| "receive_all (d # ds) m =
     (let (fs, m') = receive_data d m; (gs, m'') = receive_all ds m' in (fs @ gs, m''))"

abbreviation frames_wf :: "frame list \<Rightarrow> bool" where
  "frames_wf fs \<equiv> \<forall>f\<in>set fs. frame_wf f"

definition frame_stream :: "frame list \<Rightarrow> bytes" where
  "frame_stream fs = concat (map encode fs)"

lemma frame_stream_simps [simp]:
  "frame_stream [] = []"
  "frame_stream (f # fs) = encode f @ frame_stream fs"
  "frame_stream (fs @ gs) = frame_stream fs @ frame_stream gs"
  by (simp_all add: frame_stream_def)

lemma stream_eq: "frames.stream fs = frame_stream fs"
  by (simp add: frames.stream_def frame_stream_def)

lemma receive_data_front:
  assumes "frames_wf fs" "recv_buf m @ data @ rest = frame_stream fs"
  obtains "done" todo t where "fs = done @ todo" "receive_data data m = (done, m\<lparr>recv_buf := t\<rparr>)"
    "frames.partial t" "t @ rest = frame_stream todo"
proof -
  from assms(2) have "(recv_buf m @ data) @ rest = frames.stream fs" by (simp add: stream_eq)
  from link_data.loop_front [OF assms(1) this] obtain "done" todo t where
    "fs = done @ todo" "receive_loop (recv_buf m @ data) = (done, t)" "frames.partial t"
    "t @ rest = frames.stream todo" .
  then show thesis by (intro that) (simp_all add: receive_data_def stream_eq)
qed

lemma receive_all_front:
  "frames_wf fs \<Longrightarrow> recv_buf m @ concat ds @ rest = frame_stream fs \<Longrightarrow> frames.partial (recv_buf m) \<Longrightarrow>
     \<exists>done todo t. fs = done @ todo \<and> receive_all ds m = (done, m\<lparr>recv_buf := t\<rparr>) \<and>
       frames.partial t \<and> t @ rest = frame_stream todo"
proof (induction ds arbitrary: m fs)
  case Nil
  then have "fs = [] @ fs \<and> receive_all [] m = ([], m\<lparr>recv_buf := recv_buf m\<rparr>)" by simp
  with Nil show ?case by (metis append_Nil concat.simps(1))
next
  case (Cons d ds)
  from Cons.prems have "recv_buf m @ d @ concat ds @ rest = frame_stream fs" by simp
  from receive_data_front [OF Cons.prems(1) this] obtain done1 todo1 t1 where 1:
    "fs = done1 @ todo1" "receive_data d m = (done1, m\<lparr>recv_buf := t1\<rparr>)"
    "frames.partial t1" "t1 @ concat ds @ rest = frame_stream todo1" .
  let ?m1 = "m\<lparr>recv_buf := t1\<rparr>"
  from Cons.IH [of todo1 ?m1] 1 Cons.prems(1) obtain done2 todo2 t2 where
    "todo1 = done2 @ todo2" "receive_all ds ?m1 = (done2, ?m1\<lparr>recv_buf := t2\<rparr>)"
    "frames.partial t2" "t2 @ rest = frame_stream todo2" by auto
  with 1 show ?case by (intro exI [of _ "done1 @ done2"] exI [of _ todo2] exI [of _ t2]) simp
qed

text \<open>The whole stream, in any segmentation, from an empty buffer.\<close>

lemma receive_all_stream:
  assumes "frames_wf fs" "recv_buf m = []" "concat ds = frame_stream fs"
  shows "receive_all ds m = (fs, m)"
proof -
  from receive_all_front [of fs m ds "[]"] assms obtain "done" todo t where *:
    "fs = done @ todo" "receive_all ds m = (done, m\<lparr>recv_buf := t\<rparr>)"
    "frames.partial t" "t = frame_stream todo" by auto
  from * assms(1) have "todo = []"
    by (intro frames.partial_stream_Nil) (simp_all add: stream_eq)
  with * assms(2) show ?thesis by simp
qed

section \<open>The link sender\<close>

lemma sender_recv_idle:
  "sender m = None \<Longrightarrow> data_q m = d # q \<Longrightarrow> link_id m = Some l \<Longrightarrow>
     sender_recv mdu m = m\<lparr>data_q := q, sender := Some (l, chunks mdu d)\<rparr>"
  by (simp add: sender_recv_def)

lemma sender_recv_no_link:
  "sender m = None \<Longrightarrow> data_q m = d # q \<Longrightarrow> link_id m = None \<Longrightarrow>
     sender_recv mdu m = m\<lparr>data_q := q\<rparr>"
  by (simp add: sender_recv_def)

text \<open>The frame being sent, chunk by chunk, with nothing else of the task in between.\<close>

fun sender_run ::
  "('n \<Rightarrow> 'l \<Rightarrow> bytes \<Rightarrow> u8 \<Rightarrow> bool \<times> 'n) \<Rightarrow> nat \<Rightarrow> 'n \<times> 'l mux \<Rightarrow> 'n \<times> 'l mux" where
  "sender_run so 0 s = s"
| "sender_run so (Suc k) s = sender_run so k (sender_chunk so s)"

text \<open>A link that takes every chunk: what it carries is the list of chunks sent.\<close>

definition wire_send :: "bytes list \<Rightarrow> 'l \<Rightarrow> bytes \<Rightarrow> u8 \<Rightarrow> bool \<times> bytes list" where
  "wire_send w l c ctx = (True, w @ [c])"

lemma sender_chunk_wire:
  "sender m = Some (l, c # cs) \<Longrightarrow>
     sender_chunk wire_send (w, m) = (w @ [c], m\<lparr>sender := Some (l, cs)\<rparr>)"
  by (simp add: sender_chunk_def wire_send_def)

lemma sender_chunk_done:
  "sender m = Some (l, []) \<Longrightarrow> sender_chunk so (n, m) = (n, m\<lparr>sender := None\<rparr>)"
  by (simp add: sender_chunk_def)

lemma sender_chunk_idle: "sender m = None \<Longrightarrow> sender_chunk so (n, m) = (n, m)"
  by (simp add: sender_chunk_def)

lemma sender_run_idle: "sender m = None \<Longrightarrow> sender_run so k (n, m) = (n, m)"
  by (induction k) (simp_all add: sender_chunk_idle)

lemma sender_run_wire:
  "sender m = Some (l, cs) \<Longrightarrow> length cs < k \<Longrightarrow>
     sender_run wire_send k (w, m) = (w @ cs, m\<lparr>sender := None\<rparr>)"
proof (induction k arbitrary: w m cs)
  case (Suc k)
  show ?case
  proof (cases cs)
    case Nil
    with Suc.prems show ?thesis by (simp add: sender_chunk_done sender_run_idle)
  next
    case (Cons c cs')
    with Suc.prems Suc.IH [of "m\<lparr>sender := Some (l, cs')\<rparr>" cs' "w @ [c]"]
    show ?thesis by (simp add: sender_chunk_wire)
  qed
qed simp

text \<open>A failed chunk ends the frame: the rest of it is never sent and the link id is gone.\<close>

lemma sender_failure:
  assumes "sender m = Some (l, c # cs)" "so n l c DATA_CONTEXT = (False, n')"
  shows "sender_run so (Suc k) (n, m) = (n', m\<lparr>link_id := None, sender := None\<rparr>)"
  using assms by (simp add: sender_chunk_def sender_run_idle)

section \<open>The two ends and the link between them\<close>

text \<open>
  \<open>accepted\<close> and \<open>delivered\<close> record which frames the near end took and the far end put
  together; \<open>taken\<close> records what the receiver of the watched session \<open>sid\<close> got. They are
  history only: no step reads them.
\<close>

record 'l tunnel =
  near :: "'l mux"
  wire :: "bytes list"
  far :: "'l mux"
  accepted :: "frame list"
  delivered :: "frame list"
  taken :: "frame list"

inductive tunnel_step :: "nat \<Rightarrow> u32 \<Rightarrow> 'l tunnel \<Rightarrow> 'l tunnel \<Rightarrow> bool" for mdu :: nat and sid :: u32 where
  submit: "send_frame f (near t) = Some m \<Longrightarrow> frame_wf f \<Longrightarrow>
     tunnel_step mdu sid t (t\<lparr>near := m, accepted := accepted t @ [f]\<rparr>)"
| take_up: "sender (near t) = None \<Longrightarrow> data_q (near t) \<noteq> [] \<Longrightarrow> is_connected (near t) \<Longrightarrow>
     tunnel_step mdu sid t (t\<lparr>near := sender_recv mdu (near t)\<rparr>)"
| transmit: "sender (near t) \<noteq> None \<Longrightarrow> sender_chunk wire_send (wire t, near t) = (w, m) \<Longrightarrow>
     tunnel_step mdu sid t (t\<lparr>near := m, wire := w\<rparr>)"
| arrive: "wire t = c # w \<Longrightarrow> receive_data c (far t) = (fs, m) \<Longrightarrow>
     tunnel_step mdu sid t
       (t\<lparr>wire := w, far := fold dispatch fs m, delivered := delivered t @ fs\<rparr>)"
| open_session: "s \<noteq> sid \<Longrightarrow> tunnel_step mdu sid t (t\<lparr>far := register s (far t)\<rparr>)"
| close_session: "s \<noteq> sid \<Longrightarrow> tunnel_step mdu sid t (t\<lparr>far := drop_session s (far t)\<rparr>)"
| take_frame: "sessions (far t) s = Some c \<Longrightarrow> rx_alive (chans (far t) ! c) \<Longrightarrow> recv c (far t) = (Got f, m) \<Longrightarrow>
     tunnel_step mdu sid t
       (t\<lparr>far := m, taken := (if s = sid then taken t @ [f] else taken t)\<rparr>)"

text \<open>
  Both ends fresh on an established link; the far end has just registered the session.
\<close>

definition tunnel_init :: "'l \<Rightarrow> u32 \<Rightarrow> 'l tunnel" where
  "tunnel_init l sid =
     \<lparr>near = set_link_id l mux_new, wire = [], far = register sid (set_link_id l mux_new),
      accepted = [], delivered = [], taken = []\<rparr>"

inductive tunnel_reachable :: "nat \<Rightarrow> 'l \<Rightarrow> u32 \<Rightarrow> 'l tunnel \<Rightarrow> bool"
  for mdu :: nat and l :: 'l and sid :: u32 where
  init: "tunnel_reachable mdu l sid (tunnel_init l sid)"
| step: "tunnel_reachable mdu l sid t \<Longrightarrow> tunnel_step mdu sid t t' \<Longrightarrow> tunnel_reachable mdu l sid t'"

text \<open>The bytes on their way: reassembly buffer, link, current frame, channel.\<close>

definition sending :: "'l mux \<Rightarrow> bytes" where
  "sending m = (case sender m of None \<Rightarrow> [] | Some (l, cs) \<Rightarrow> concat cs)"

definition in_flight :: "'l tunnel \<Rightarrow> bytes" where
  "in_flight t = recv_buf (far t) @ concat (wire t) @ sending (near t) @ concat (data_q (near t))"

definition tunnel_inv :: "'l tunnel \<Rightarrow> bool" where
  "tunnel_inv t \<longleftrightarrow>
     (\<exists>fs. frames_wf fs \<and> accepted t = delivered t @ fs \<and> in_flight t = frame_stream fs) \<and>
     frames.partial (recv_buf (far t)) \<and> is_connected (near t)"

definition session_inv :: "u32 \<Rightarrow> 'l tunnel \<Rightarrow> bool" where
  "session_inv sid t \<longleftrightarrow>
     mux_inv (far t) \<and>
     (\<exists>q. mailbox (far t) sid = Some q \<and>
          taken t @ q = filter (\<lambda>f. session_id f = sid) (delivered t))"

lemma recv_buf_register [frame_rules]: "recv_buf (register s m) = recv_buf m"
  by (simp add: register_def register_session_def)

lemma recv_buf_drop_session [frame_rules]: "recv_buf (drop_session s m) = recv_buf m"
  by (simp add: drop_session_def)

lemma recv_buf_dispatch [frame_rules]: "recv_buf (dispatch f m) = recv_buf m"
  by (simp add: dispatch_def split: option.split)

lemma recv_buf_dispatch_all [frame_rules]: "recv_buf (fold dispatch fs m) = recv_buf m"
  by (induction fs arbitrary: m) (simp_all add: recv_buf_dispatch)

lemma recv_buf_recv [frame_rules]: "recv c m = (r, m') \<Longrightarrow> recv_buf m' = recv_buf m"
  by (auto simp: recv_def Let_def split: list.splits)

lemma mailbox_receive_data [frame_rules]: "receive_data d m = (fs, m') \<Longrightarrow> mailbox m' = mailbox m"
  by (auto simp: receive_data_def intro!: mailbox_cong split: prod.splits)

lemma mux_inv_receive_data: "receive_data d m = (fs, m') \<Longrightarrow> mux_inv m' = mux_inv m"
  by (metis mux_inv_fields(4) snd_conv)

lemma tunnel_inv_init: "tunnel_inv (tunnel_init l sid)"
  by (simp add: tunnel_inv_def tunnel_init_def in_flight_def sending_def frame_rules
      set_link_id_def is_connected_def mux_new_def)

lemma tunnel_inv_step:
  assumes "tunnel_step mdu sid t t'" "tunnel_inv t" "0 < mdu"
  shows "tunnel_inv t'"
  using assms(1,2)
proof cases
  case (submit f m)
  from assms(2) obtain fs where "frames_wf fs" "accepted t = delivered t @ fs"
      "in_flight t = frame_stream fs" by (auto simp: tunnel_inv_def)
  with submit have "frames_wf (fs @ [f])" "accepted t' = delivered t' @ fs @ [f]"
      "in_flight t' = frame_stream (fs @ [f])"
    by (auto simp: in_flight_def sending_def send_frame_def split: if_splits)
  with submit assms(2) show ?thesis
    by (auto simp: tunnel_inv_def is_connected_def send_frame_def split: if_splits)
next
  case take_up
  then obtain l d q where "link_id (near t) = Some l" "data_q (near t) = d # q"
    by (cases "data_q (near t)") (auto simp: is_connected_def)
  with take_up assms(2,3) show ?thesis
    by (simp add: tunnel_inv_def in_flight_def sending_def sender_recv_idle concat_chunks is_connected_def)
next
  case (transmit w m)
  then obtain l cs where s: "sender (near t) = Some (l, cs)" by auto
  with transmit assms(2) show ?thesis
    by (cases cs)
      (auto simp: tunnel_inv_def in_flight_def sending_def sender_chunk_wire sender_chunk_done is_connected_def)
next
  case (arrive c w fs m)
  from assms(2) obtain gs where gs: "frames_wf gs" "accepted t = delivered t @ gs"
      "in_flight t = frame_stream gs" by (auto simp: tunnel_inv_def)
  let ?rest = "concat w @ sending (near t) @ concat (data_q (near t))"
  from gs(3) arrive have "recv_buf (far t) @ c @ ?rest = frame_stream gs"
    by (simp add: in_flight_def)
  from receive_data_front [OF gs(1) this] arrive(3) obtain todo b where
    "gs = fs @ todo" "m = (far t)\<lparr>recv_buf := b\<rparr>" "frames.partial b" "b @ ?rest = frame_stream todo"
    by auto
  with arrive gs assms(2) show ?thesis
    by (auto simp: tunnel_inv_def in_flight_def frame_rules)
qed (auto simp: tunnel_inv_def in_flight_def frame_rules)

lemma session_inv_init: "session_inv sid (tunnel_init l sid)"
  by (simp add: session_inv_def tunnel_init_def table.mailbox_register table.inv_register mux_inv_fields)

lemma session_inv_step:
  assumes "tunnel_step mdu sid t t'" "session_inv sid t"
  shows "session_inv sid t'"
  using assms
proof cases
  case (arrive c w fs m)
  with assms(2) have "mux_inv m" "mailbox m = mailbox (far t)"
    by (auto simp: session_inv_def mux_inv_receive_data frame_rules)
  with arrive assms(2) show ?thesis
    by (auto simp: session_inv_def table.inv_deliver_all table.mailbox_deliver_all)
next
  case (take_frame s c f m)
  from assms(2) have inv: "mux_inv (far t)" by (simp add: session_inv_def)
  then have inv': "mux_inv m" using take_frame(4) by (metis mux_inv_recv snd_conv)
  obtain q where q: "mailbox (far t) s = Some q" using take_frame by (simp add: mailbox_def)
  with take_frame inv have "q \<noteq> []" using recv_Nil by force
  then obtain g q' where "q = g # q'" by (cases q) auto
  with recv_Cons [OF inv take_frame(2)] q take_frame inv' assms(2) show ?thesis
    by (auto simp: session_inv_def)
qed (auto simp: session_inv_def table.mailbox_register table.inv_register
    table.mailbox_unregister table.inv_unregister)

section \<open>Invariants of the reachable states\<close>

lemma reachable_invs:
  assumes "tunnel_reachable mdu l sid t" "0 < mdu"
  shows "tunnel_inv t \<and> session_inv sid t \<and> length (data_q (near t)) \<le> SENDER_CAPACITY"
  using assms(1)
proof (induction rule: tunnel_reachable.induct)
  case init
  show ?case
    by (simp add: tunnel_inv_init session_inv_init)
      (simp add: tunnel_init_def set_link_id_def mux_new_def)
next
  case (step t t')
  from step.hyps(2) step.IH have "length (data_q (near t')) \<le> SENDER_CAPACITY"
    by cases
      (auto simp: send_frame_def sender_recv_def sender_chunk_def wire_send_def SENDER_CAPACITY_def
        split: if_splits option.splits list.splits prod.splits)
  with step assms(2) show ?case by (blast intro: tunnel_inv_step session_inv_step)
qed

section \<open>Everything accepted arrives\<close>

text \<open>
  A bound on the steps left: two for every chunk still to be made of a queued frame, one for
  every chunk on the link, and the bookkeeping steps of the sender in between.
\<close>

definition sender_work :: "'l mux \<Rightarrow> nat" where
  "sender_work m = (case sender m of None \<Rightarrow> 0 | Some (l, cs) \<Rightarrow> 1 + 2 * length cs)"

definition tunnel_work :: "nat \<Rightarrow> 'l tunnel \<Rightarrow> nat" where
  "tunnel_work mdu t =
     sum_list (map (\<lambda>d. 2 + 2 * length (chunks mdu d)) (data_q (near t)))
     + sender_work (near t) + length (wire t)"

lemma tunnel_progress:
  assumes "tunnel_inv t" "tunnel_work mdu t \<noteq> 0"
  shows "\<exists>t'. tunnel_step mdu sid t t' \<and> tunnel_work mdu t' < tunnel_work mdu t \<and>
    accepted t' = accepted t"
proof -
  consider c w where "wire t = c # w"
    | l cs where "wire t = []" "sender (near t) = Some (l, cs)"
    | d q where "wire t = []" "sender (near t) = None" "data_q (near t) = d # q"
    using assms(2) by (cases "wire t"; cases "sender (near t)"; cases "data_q (near t)")
      (auto simp: tunnel_work_def sender_work_def)
  then show ?thesis
  proof cases
    case 1
    obtain fs m where "receive_data c (far t) = (fs, m)" by (cases "receive_data c (far t)")
    from arrive [OF 1 this] 1 show ?thesis by (fastforce simp: tunnel_work_def)
  next
    case 2
    obtain w m where s: "sender_chunk wire_send (wire t, near t) = (w, m)"
      by (cases "sender_chunk wire_send (wire t, near t)")
    with 2 have "tunnel_work mdu (t\<lparr>near := m, wire := w\<rparr>) < tunnel_work mdu t"
      by (cases cs) (auto simp: tunnel_work_def sender_work_def sender_chunk_wire sender_chunk_done)
    with transmit [OF _ s, of mdu sid] 2 show ?thesis by fastforce
  next
    case 3
    from assms(1) obtain l where "link_id (near t) = Some l"
      by (auto simp: tunnel_inv_def is_connected_def)
    with 3 have "tunnel_work mdu (t\<lparr>near := sender_recv mdu (near t)\<rparr>) < tunnel_work mdu t"
      by (simp add: tunnel_work_def sender_work_def sender_recv_idle)
    with take_up [of t mdu sid] 3 assms(1) show ?thesis by (fastforce simp: tunnel_inv_def)
  qed
qed

lemma tunnel_drained:
  assumes "tunnel_inv t" "tunnel_work mdu t = 0"
  shows "delivered t = accepted t"
proof -
  from assms obtain fs where fs: "frames_wf fs" "accepted t = delivered t @ fs"
    "in_flight t = frame_stream fs" by (auto simp: tunnel_inv_def)
  from assms(2) have "in_flight t = recv_buf (far t)"
    by (auto simp: tunnel_work_def sender_work_def in_flight_def sending_def split: option.splits)
  with fs assms(1) have "fs = []"
    by (intro frames.partial_stream_Nil) (simp_all add: stream_eq tunnel_inv_def)
  with fs show ?thesis by simp
qed

lemma tunnel_step_reachable:
  "(tunnel_step mdu sid)\<^sup>*\<^sup>* t t' \<Longrightarrow> tunnel_reachable mdu l sid t \<Longrightarrow> tunnel_reachable mdu l sid t'"
  by (induction rule: rtranclp_induct) (blast intro: tunnel_reachable.step)+

lemma tunnel_drains:
  assumes "tunnel_reachable mdu l sid t" "0 < mdu"
  shows "\<exists>t'. (tunnel_step mdu sid)\<^sup>*\<^sup>* t t' \<and> accepted t' = accepted t \<and> delivered t' = accepted t"
  using assms(1)
proof (induction "tunnel_work mdu t" arbitrary: t rule: less_induct)
  case less
  from reachable_invs [OF less.prems assms(2)] have inv: "tunnel_inv t" by simp
  show ?case
  proof (cases "tunnel_work mdu t = 0")
    case True
    with tunnel_drained [OF inv] show ?thesis by (intro exI [of _ t]) simp
  next
    case False
    from tunnel_progress [OF inv this] obtain t1 where t1:
      "tunnel_step mdu sid t t1" "tunnel_work mdu t1 < tunnel_work mdu t" "accepted t1 = accepted t"
      by blast
    from less.hyps [OF t1(2)] t1(1,3) less.prems obtain t2 where
      "(tunnel_step mdu sid)\<^sup>*\<^sup>* t1 t2" "accepted t2 = accepted t1" "delivered t2 = accepted t1"
      by (metis tunnel_reachable.step)
    with t1 show ?thesis by (metis converse_rtranclp_into_rtranclp)
  qed
qed

section \<open>A run to point at\<close>

text \<open>One frame accepted on a fresh link, and then brought to the far end.\<close>

lemma submit_first:
  assumes "frame_wf f"
  shows "\<exists>t. tunnel_reachable mdu l sid t \<and> accepted t = [f]"
proof -
  let ?t = "tunnel_init l sid"
  obtain m where "send_frame f (near ?t) = Some m"
    by (simp add: send_frame_def tunnel_init_def set_link_id_def mux_new_def SENDER_CAPACITY_def)
  from tunnel_reachable.step [OF tunnel_reachable.init submit [OF this assms]]
  show ?thesis by (fastforce simp: tunnel_init_def)
qed

lemma submit_and_deliver:
  assumes "frame_wf f" "0 < mdu"
  shows "\<exists>t. tunnel_reachable mdu l sid t \<and> accepted t = [f] \<and> delivered t = [f]"
  using submit_first [OF assms(1)] tunnel_drains [OF _ assms(2)] tunnel_step_reachable
  by metis

section \<open>Damage\<close>

text \<open>
  Whole frames, then a byte that is no frame type where a frame should start: the frames are
  delivered, the rest of the buffer is dropped.
\<close>

lemma receive_data_damaged:
  assumes "frames_wf fs" "recv_buf m @ data = frame_stream fs @ bad"
    and "HDR_SIZE \<le> length bad" "from_u8 (bad ! 0) = None"
  shows "receive_data data m = (fs, m\<lparr>recv_buf := []\<rparr>)"
proof -
  have "receive_loop bad = ([], [])"
    using assms(3,4) by (intro receive_loop_stop) (simp add: decode_failed_iff)
  with link_data.loop_stream [OF assms(1), of bad] assms(2) show ?thesis
    by (simp add: receive_data_def stream_eq)
qed

lemma receive_data_clean:
  assumes "frames_wf fs" "recv_buf m = []" "data = frame_stream fs"
  shows "receive_data data m = (fs, m)"
  using receive_data_damaged [of "[]"] link_data.loop_stream_partial [OF assms(1) frames.partial_Nil] assms(2,3)
  by (simp add: receive_data_def stream_eq)

end
