(* ===== verification/Mux_Spec.thy ===== *)
theory Mux_Spec
  imports Tunnel
begin

text \<open>
  The contract of the multiplexer. The operations of \<open>MuxHandle\<close>, of the receivers it
  hands out and of the task of \<open>run_link_sender\<close> are a datatype, and \<open>mux_step\<close> runs one on
  the state of the theory Mux. Beside it stands an abstract multiplexer that keeps no session
  map, no encoded bytes in its channel and no chunks: every channel knows the session that
  feeds it, the outbox holds frames, and the frame under way is the bytes that are left of
  it. The detailed multiplexer answers every sequence of operations as the abstract one does,
  and an operation on one session does not show in the channel of another.
\<close>

section \<open>Operations\<close>

datatype 'l mux_op =
    OpSetLink 'l | OpClearLink | OpReset | OpIsConnected | OpNextSid
  | OpRegister u32 | OpDrop u32
  | OpSend frame_type u32 bytes
  | OpDispatch frame | OpReceive bytes
  | OpRecv nat | OpLeave nat
  | OpTakeUp | OpChunk bool

datatype 'l mux_out =
    OutUnit | OutBool bool | OutSid u32 | OutChannel nat | OutFrames "frame list"
  | OutRecv recv_result | OutWire "('l \<times> bytes \<times> u8) option"

text \<open>A link that notes what it is given and answers \<open>ok\<close>.\<close>

definition noting_link ::
  "bool \<Rightarrow> ('l \<times> bytes \<times> u8) option \<Rightarrow> 'l \<Rightarrow> bytes \<Rightarrow> u8 \<Rightarrow> bool \<times> ('l \<times> bytes \<times> u8) option" where
  "noting_link ok n l c ctx = (ok, Some (l, c, ctx))"

text \<open>
  One operation and what its caller sees. A send on the full channel waits, which is the
  answer \<open>False\<close> and no change; a receiver that is gone is polled by nobody.
\<close>

fun mux_step :: "nat \<Rightarrow> 'l mux_op \<Rightarrow> 'l mux \<Rightarrow> 'l mux_out \<times> 'l mux" where
  "mux_step mdu (OpSetLink l) m = (OutUnit, set_link_id l m)"
| "mux_step mdu OpClearLink m = (OutUnit, clear_link_id m)"
| "mux_step mdu OpReset m = (OutUnit, reset m)"
| "mux_step mdu OpIsConnected m = (OutBool (is_connected m), m)"
| "mux_step mdu OpNextSid m = (let (sid, m') = next_session_id m in (OutSid sid, m'))"
| "mux_step mdu (OpRegister sid) m = (let (c, m') = register_session sid m in (OutChannel c, m'))"
| "mux_step mdu (OpDrop sid) m = (OutUnit, drop_session sid m)"
| "mux_step mdu (OpSend t sid p) m =
     (case send t sid p m of Some m' \<Rightarrow> (OutBool True, m') | None \<Rightarrow> (OutBool False, m))"
| "mux_step mdu (OpDispatch f) m = (OutUnit, dispatch f m)"
| "mux_step mdu (OpReceive d) m = (let (fs, m') = receive_data d m in (OutFrames fs, m'))"
| "mux_step mdu (OpRecv c) m =
     (if c < length (chans m) \<and> rx_alive (chans m ! c)
      then let (r, m') = recv c m in (OutRecv r, m') else (OutUnit, m))"
| "mux_step mdu (OpLeave c) m = (OutUnit, drop_receiver c m)"
| "mux_step mdu OpTakeUp m = (OutUnit, sender_recv mdu m)"
| "mux_step mdu (OpChunk ok) m =
     (let (n, m') = sender_chunk (noting_link ok) (None, m) in (OutWire n, m'))"

text \<open>A sequence of operations and the answers in their order.\<close>

fun run_ops :: "('op \<Rightarrow> 's \<Rightarrow> 'out \<times> 's) \<Rightarrow> 'op list \<Rightarrow> 's \<Rightarrow> 'out list \<times> 's" where
  "run_ops step [] s = ([], s)"
| "run_ops step (x # xs) s =
     (let (y, s') = step x s; (ys, s'') = run_ops step xs s' in (y # ys, s''))"

section \<open>The abstract multiplexer\<close>

record endpoint =
  ep_queue :: "frame list"
  ep_source :: "u32 option"
  ep_open :: bool

record 'l spec_mux =
  active :: "'l option"
  endpoints :: "endpoint list"
  last_sid :: u32
  unparsed :: bytes
  outbox :: "frame list"
  outgoing :: "('l \<times> bytes) option"

definition spec_new :: "'l spec_mux" where
  "spec_new =
     \<lparr>active = None, endpoints = [], last_sid = 0, unparsed = [], outbox = [], outgoing = None\<rparr>"

text \<open>What an operation on a session does to one channel.\<close>

definition orphan :: "endpoint \<Rightarrow> endpoint" where
  "orphan ep = ep\<lparr>ep_source := None\<rparr>"

definition unfeed :: "u32 \<Rightarrow> endpoint \<Rightarrow> endpoint" where
  "unfeed sid ep = (if ep_source ep = Some sid then orphan ep else ep)"

definition feed :: "frame \<Rightarrow> endpoint \<Rightarrow> endpoint" where
  "feed f ep =
     (if ep_source ep = Some (session_id f) \<and> ep_open ep then ep\<lparr>ep_queue := ep_queue ep @ [f]\<rparr>
      else ep)"

definition abandon :: "endpoint \<Rightarrow> endpoint" where
  "abandon ep = ep\<lparr>ep_queue := [], ep_open := False\<rparr>"

definition poll :: "endpoint \<Rightarrow> recv_result" where
  "poll ep =
     (case ep_queue ep of f # q \<Rightarrow> Got f
      | [] \<Rightarrow> if ep_source ep = None then Closed else Pending)"

fun spec_step :: "nat \<Rightarrow> 'l mux_op \<Rightarrow> 'l spec_mux \<Rightarrow> 'l mux_out \<times> 'l spec_mux" where
  "spec_step mdu (OpSetLink l) a = (OutUnit, a\<lparr>active := Some l\<rparr>)"
| "spec_step mdu OpClearLink a = (OutUnit, a\<lparr>active := None\<rparr>)"
| "spec_step mdu OpReset a =
     (OutUnit, a\<lparr>active := None, endpoints := map orphan (endpoints a), unparsed := []\<rparr>)"
| "spec_step mdu OpIsConnected a = (OutBool (active a \<noteq> None), a)"
| "spec_step mdu OpNextSid a = (OutSid (last_sid a + 1), a\<lparr>last_sid := last_sid a + 1\<rparr>)"
| "spec_step mdu (OpRegister sid) a =
     (OutChannel (length (endpoints a)),
      a\<lparr>endpoints := map (unfeed sid) (endpoints a)
           @ [\<lparr>ep_queue = [], ep_source = Some sid, ep_open = True\<rparr>]\<rparr>)"
| "spec_step mdu (OpDrop sid) a = (OutUnit, a\<lparr>endpoints := map (unfeed sid) (endpoints a)\<rparr>)"
| "spec_step mdu (OpSend t sid p) a =
     (if length (outbox a) < SENDER_CAPACITY
      then (OutBool True, a\<lparr>outbox := outbox a @ [frame_new t sid p]\<rparr>) else (OutBool False, a))"
| "spec_step mdu (OpDispatch f) a = (OutUnit, a\<lparr>endpoints := map (feed f) (endpoints a)\<rparr>)"
| "spec_step mdu (OpReceive d) a =
     (OutFrames (fst (receive_loop (unparsed a @ d))),
      a\<lparr>unparsed := snd (receive_loop (unparsed a @ d))\<rparr>)"
| "spec_step mdu (OpRecv c) a =
     (if c < length (endpoints a) \<and> ep_open (endpoints a ! c)
      then (OutRecv (poll (endpoints a ! c)),
            a\<lparr>endpoints := (endpoints a)[c := (endpoints a ! c)\<lparr>ep_queue := tl (ep_queue (endpoints a ! c))\<rparr>]\<rparr>)
      else (OutUnit, a))"
| "spec_step mdu (OpLeave c) a =
     (OutUnit, a\<lparr>endpoints := (endpoints a)[c := abandon (endpoints a ! c)]\<rparr>)"
| "spec_step mdu OpTakeUp a =
     (OutUnit,
      case (outgoing a, outbox a) of
        (None, f # q) \<Rightarrow> a\<lparr>outbox := q, outgoing := map_option (\<lambda>l. (l, encode f)) (active a)\<rparr>
      | _ \<Rightarrow> a)"
| "spec_step mdu (OpChunk ok) a =
     (case outgoing a of
        None \<Rightarrow> (OutWire None, a)
      | Some (l, b) \<Rightarrow>
          if b = [] then (OutWire None, a\<lparr>outgoing := None\<rparr>)
          else (OutWire (Some (l, take mdu b, DATA_CONTEXT)),
                if ok then a\<lparr>outgoing := Some (l, drop mdu b)\<rparr> else a\<lparr>active := None, outgoing := None\<rparr>))"

section \<open>Refinement\<close>

text \<open>
  What one step of the detailed state against one step of the abstract state has to show,
  and what follows for whole runs.
\<close>

locale data_refinement =
  fixes cstep :: "'op \<Rightarrow> 'c \<Rightarrow> 'out \<times> 'c"
    and astep :: "'op \<Rightarrow> 'a \<Rightarrow> 'out \<times> 'a"
    and rel :: "'c \<Rightarrow> 'a \<Rightarrow> bool"
  assumes simulate: "rel c a \<Longrightarrow>
    fst (cstep x c) = fst (astep x a) \<and> rel (snd (cstep x c)) (snd (astep x a))"
begin

lemma simulate_run:
  "rel c a \<Longrightarrow>
     fst (run_ops cstep xs c) = fst (run_ops astep xs a) \<and>
     rel (snd (run_ops cstep xs c)) (snd (run_ops astep xs a))"
proof (induction xs arbitrary: c a)
  case (Cons x xs)
  from Cons.IH simulate [OF Cons.prems, of x] show ?case by (simp add: case_prod_beta)
qed simp

end

text \<open>
  Channel by channel: the same queue, the same receiver, and the source of the abstract
  channel is the session whose entry holds its sender.
\<close>

definition same_endpoint :: "(u32 \<rightharpoonup> nat) \<Rightarrow> nat \<Rightarrow> chan \<Rightarrow> endpoint \<Rightarrow> bool" where
  "same_endpoint tbl c ch ep \<longleftrightarrow>
     ep_queue ep = cq ch \<and> ep_open ep = rx_alive ch \<and> tx_alive ch = (ep_source ep \<noteq> None) \<and>
     (\<forall>sid. ep_source ep = Some sid \<longleftrightarrow> tbl sid = Some c)"

definition refines :: "nat \<Rightarrow> 'l mux \<Rightarrow> 'l spec_mux \<Rightarrow> bool" where
  "refines mdu m a \<longleftrightarrow>
     link_id m = active a \<and> next_sid m = last_sid a \<and> recv_buf m = unparsed a \<and>
     data_q m = map encode (outbox a) \<and>
     sender m = map_option (\<lambda>(l, b). (l, chunks mdu b)) (outgoing a) \<and>
     length (chans m) = length (endpoints a) \<and>
     (\<forall>c<length (chans m). same_endpoint (sessions m) c (chans m ! c) (endpoints a ! c)) \<and>
     (\<forall>c\<in>ran (sessions m). c < length (chans m))"

lemma refinesD:
  assumes "refines mdu m a"
  shows "link_id m = active a" "next_sid m = last_sid a" "recv_buf m = unparsed a"
    and "data_q m = map encode (outbox a)"
    and "sender m = map_option (\<lambda>(l, b). (l, chunks mdu b)) (outgoing a)"
    and "length (chans m) = length (endpoints a)"
    and "c < length (chans m) \<Longrightarrow> same_endpoint (sessions m) c (chans m ! c) (endpoints a ! c)"
    and "sessions m sid = Some c \<Longrightarrow> c < length (chans m)"
  using assms by (auto simp: refines_def ran_def)

lemma refines_new: "refines mdu mux_new spec_new"
  by (simp add: refines_def mux_new_def spec_new_def)

text \<open>Only the fields of the link, the counter and the outgoing frames change.\<close>

lemma refines_table_cong:
  assumes "refines mdu m a" "sessions m' = sessions m" "chans m' = chans m" "endpoints a' = endpoints a"
    and "link_id m' = active a'" "next_sid m' = last_sid a'" "recv_buf m' = unparsed a'"
    and "data_q m' = map encode (outbox a')"
    and "sender m' = map_option (\<lambda>(l, b). (l, chunks mdu b)) (outgoing a')"
  shows "refines mdu m' a'"
  using assms(1) unfolding refines_def assms(2-9) by blast

text \<open>One channel changes its queue or its receiver.\<close>

lemma refines_update:
  assumes "refines mdu m a" "same_endpoint (sessions m) c ch ep"
  shows "refines mdu (m\<lparr>chans := (chans m)[c := ch]\<rparr>) (a\<lparr>endpoints := (endpoints a)[c := ep]\<rparr>)"
proof -
  have "same_endpoint (sessions m) d ((chans m)[c := ch] ! d) ((endpoints a)[c := ep] ! d)"
    if "d < length (chans m)" for d
    using that assms(2) refinesD(6) [OF assms(1)] refinesD(7) [OF assms(1) that]
    by (cases "d = c") simp_all
  with assms(1) show ?thesis unfolding refines_def by auto
qed

lemma same_endpointD:
  assumes "same_endpoint tbl c ch ep"
  shows "ep_queue ep = cq ch" "ep_open ep = rx_alive ch" "tx_alive ch = (ep_source ep \<noteq> None)"
    and "ep_source ep = Some sid \<longleftrightarrow> tbl sid = Some c"
  using assms by (simp_all add: same_endpoint_def)

lemma refines_inv:
  assumes "refines mdu m a"
  shows "mux_inv m"
proof (rule mux_invI)
  fix sid c assume tbl: "sessions m sid = Some c"
  with refinesD(8) [OF assms] have len: "c < length (chans m)" .
  with same_endpointD(3,4) [OF refinesD(7) [OF assms]] tbl
  show "c < length (chans m) \<and> tx_alive (chans m ! c)" by (metis option.distinct(1))
next
  fix sid sid' c assume tbl: "sessions m sid = Some c" "sessions m sid' = Some c"
  with same_endpointD(4) [OF refinesD(7) [OF assms refinesD(8) [OF assms tbl(1)]]] show "sid = sid'"
    by (metis option.inject)
next
  fix c assume "c < length (chans m)" "tx_alive (chans m ! c)"
  with same_endpointD(3,4) [OF refinesD(7) [OF assms]] show "\<exists>sid. sessions m sid = Some c"
    by (metis option.exhaust)
qed

lemma same_endpoint_unfeed:
  assumes "same_endpoint tbl c ch ep"
  shows "same_endpoint (tbl(sid := None)) c (if tbl sid = Some c then close_tx ch else ch) (unfeed sid ep)"
proof (cases "tbl sid = Some c")
  case True
  with same_endpointD(4) [OF assms, of sid] have src: "ep_source ep = Some sid" by simp
  have only: "(tbl s = Some c) = (s = sid)" for s
    using src same_endpointD(4) [OF assms, of s] by auto
  have "((tbl(sid := None)) s = Some c) = False" for s
    using only [of s] by simp
  with src same_endpointD(1,2) [OF assms] show ?thesis
    using True by (simp add: same_endpoint_def unfeed_def orphan_def)
next
  case False
  with assms show ?thesis by (auto simp: same_endpoint_def unfeed_def)
qed

lemma same_endpoint_fresh_entry:
  "same_endpoint (tbl(sid := None)) c ch ep \<Longrightarrow> c \<noteq> d \<Longrightarrow> same_endpoint (tbl(sid \<mapsto> d)) c ch ep"
  by (auto simp: same_endpoint_def split: if_splits)

lemma refines_drop_session:
  assumes "refines mdu m a"
  shows "refines mdu (drop_session sid m) (a\<lparr>endpoints := map (unfeed sid) (endpoints a)\<rparr>)"
proof -
  note inv = refines_inv [OF assms]
  have "same_endpoint ((sessions m)(sid := None)) c (drop_sender sid m ! c) (map (unfeed sid) (endpoints a) ! c)"
    if "c < length (chans m)" for c
    using same_endpoint_unfeed [OF refinesD(7) [OF assms that], of sid] that refinesD(6) [OF assms]
    by (simp add: nth_drop_sender [OF inv])
  moreover have "ran ((sessions m)(sid := None)) \<subseteq> ran (sessions m)" by (auto simp: ran_def)
  ultimately show ?thesis using assms unfolding refines_def drop_session_def by auto
qed

lemma refines_register_session:
  assumes "refines mdu m a"
  shows "refines mdu (snd (register_session sid m))
    (a\<lparr>endpoints := map (unfeed sid) (endpoints a)
         @ [\<lparr>ep_queue = [], ep_source = Some sid, ep_open = True\<rparr>]\<rparr>)"
proof -
  note inv = refines_inv [OF assms]
  let ?n = "length (chans m)"
  let ?tbl = "(sessions m)(sid \<mapsto> ?n)"
  let ?eps = "map (unfeed sid) (endpoints a) @ [\<lparr>ep_queue = [], ep_source = Some sid, ep_open = True\<rparr>]"
  have old: "same_endpoint ?tbl c (drop_sender sid m ! c) (map (unfeed sid) (endpoints a) ! c)"
    if "c < ?n" for c
    using same_endpoint_unfeed [OF refinesD(7) [OF assms that], of sid] that refinesD(6) [OF assms]
    by (simp add: nth_drop_sender [OF inv] same_endpoint_fresh_entry)
  have fresh: "same_endpoint ?tbl ?n chan_new \<lparr>ep_queue = [], ep_source = Some sid, ep_open = True\<rparr>"
    using refinesD(8) [OF assms] by (fastforce simp: same_endpoint_def)
  have "same_endpoint ?tbl c ((drop_sender sid m @ [chan_new]) ! c) (?eps ! c)" if "c < Suc ?n" for c
    using that old [of c] fresh refinesD(6) [OF assms]
    by (cases "c = ?n") (simp_all add: nth_append)
  moreover have "\<forall>c\<in>ran ?tbl. c < Suc ?n"
    using refinesD(8) [OF assms] by (fastforce simp: ran_def split: if_splits)
  ultimately show ?thesis using assms unfolding refines_def register_session_def by simp
qed

lemma refines_reset:
  assumes "refines mdu m a"
  shows "refines mdu (reset m)
    (a\<lparr>active := None, endpoints := map orphan (endpoints a), unparsed := []\<rparr>)"
proof -
  have "same_endpoint Map.empty c (map close_tx (chans m) ! c) (map orphan (endpoints a) ! c)"
    if "c < length (chans m)" for c
    using that refinesD(6) [OF assms] refinesD(7) [OF assms that]
    by (simp add: same_endpoint_def orphan_def)
  with assms show ?thesis unfolding refines_def reset_def by auto
qed

text \<open>The code looks the session up; the abstract multiplexer offers the frame to every channel.\<close>

lemma refines_dispatch:
  assumes "refines mdu m a"
  shows "refines mdu (dispatch f m) (a\<lparr>endpoints := map (feed f) (endpoints a)\<rparr>)"
proof -
  let ?m = "dispatch f m"
  have chan: "chans ?m ! c = (if sessions m (session_id f) = Some c \<and> rx_alive (chans m ! c)
      then (chans m ! c)\<lparr>cq := cq (chans m ! c) @ [f]\<rparr> else chans m ! c)"
    if "c < length (chans m)" for c
    using that by (cases "sessions m (session_id f) = Some c")
      (auto simp: dispatch_def nth_list_update split: option.split)
  have "same_endpoint (sessions m) c (chans ?m ! c) (map (feed f) (endpoints a) ! c)"
    if "c < length (chans m)" for c
    using that refinesD(6) [OF assms] refinesD(7) [OF assms that]
    by (auto simp: chan same_endpoint_def feed_def)
  moreover have "sessions ?m = sessions m" "length (chans ?m) = length (chans m)"
    "link_id ?m = link_id m" "next_sid ?m = next_sid m" "recv_buf ?m = recv_buf m"
    "data_q ?m = data_q m" "sender ?m = sender m"
    by (simp_all add: dispatch_def split: option.split)
  ultimately show ?thesis using assms unfolding refines_def by auto
qed

lemma recv_poll:
  assumes "refines mdu m a" "c < length (chans m)"
  shows "recv c m = (poll (endpoints a ! c),
    m\<lparr>chans := (chans m)[c := (chans m ! c)\<lparr>cq := tl (cq (chans m ! c))\<rparr>]\<rparr>)"
proof (cases "cq (chans m ! c)")
  case Nil
  then have "(chans m)[c := (chans m ! c)\<lparr>cq := []\<rparr>] = chans m"
    by (metis list_update_id chan.surjective chan.update_convs(1))
  then have "m = m\<lparr>chans := (chans m)[c := (chans m ! c)\<lparr>cq := []\<rparr>]\<rparr>" by simp
  with Nil same_endpointD(1,3) [OF refinesD(7) [OF assms]] show ?thesis
    by (simp add: recv_def poll_def)
next
  case (Cons f q)
  with same_endpointD(1) [OF refinesD(7) [OF assms]] show ?thesis by (simp add: recv_def poll_def)
qed

lemma refines_take_up:
  assumes "refines mdu m a"
  shows "refines mdu (sender_recv mdu m) (snd (spec_step mdu OpTakeUp a))"
proof -
  note r = refinesD(1-5) [OF assms]
  show ?thesis
    using r
    by (intro refines_table_cong [OF assms])
      (auto simp: sender_recv_def split: option.split list.split prod.split)
qed

lemma refines_chunk:
  assumes "refines mdu m a" "0 < mdu" "mux_step mdu (OpChunk ok) m = (out, m')"
  shows "out = fst (spec_step mdu (OpChunk ok) a) \<and> refines mdu m' (snd (spec_step mdu (OpChunk ok) a))"
proof (cases "outgoing a")
  case None
  with refinesD(5) [OF assms(1)] assms show ?thesis by (auto simp: sender_chunk_def)
next
  case (Some lb)
  obtain l b where lb: "lb = (l, b)" by (cases lb)
  with Some refinesD(5) [OF assms(1)] have s: "sender m = Some (l, chunks mdu b)" by simp
  note r = refinesD(1-4) [OF assms(1)]
  show ?thesis
  proof (cases "b = []")
    case True
    with s assms(3) have "out = OutWire None" "m' = m\<lparr>sender := None\<rparr>" by (simp_all add: sender_chunk_def)
    with Some lb True r show ?thesis
      by (auto intro!: refines_table_cong [OF assms(1)])
  next
    case False
    with s assms(2,3) have "out = OutWire (Some (l, take mdu b, DATA_CONTEXT))"
      "m' = (if ok then m\<lparr>sender := Some (l, chunks mdu (drop mdu b))\<rparr>
             else m\<lparr>link_id := None, sender := None\<rparr>)"
      by (simp_all add: sender_chunk_def noting_link_def chunks_step split: if_splits)
    with Some lb False r show ?thesis
      by (auto intro!: refines_table_cong [OF assms(1)])
  qed
qed

lemma refines_step:
  assumes "refines mdu m a" "0 < mdu"
  shows "fst (mux_step mdu x m) = fst (spec_step mdu x a) \<and>
    refines mdu (snd (mux_step mdu x m)) (snd (spec_step mdu x a))"
proof (cases x)
  case (OpSend t sid p)
  have "length (data_q m) = length (outbox a)" using refinesD(4) [OF assms(1)] by simp
  with OpSend refinesD(1-5) [OF assms(1)] assms(1) show ?thesis
    by (auto simp: send_def send_frame_def intro!: refines_table_cong [OF assms(1)])
next
  case (OpReceive d)
  have "receive_loop (recv_buf m @ d) = receive_loop (unparsed a @ d)"
    using refinesD(3) [OF assms(1)] by simp
  with OpReceive refinesD(1-5) [OF assms(1)] show ?thesis
    by (auto simp: receive_data_def case_prod_beta intro!: refines_table_cong [OF assms(1)])
next
  case (OpRecv c)
  show ?thesis
  proof (cases "c < length (chans m) \<and> rx_alive (chans m ! c)")
    case True
    with refinesD(7) [OF assms(1), of c] have
      "same_endpoint (sessions m) c ((chans m ! c)\<lparr>cq := tl (cq (chans m ! c))\<rparr>)
        ((endpoints a ! c)\<lparr>ep_queue := tl (ep_queue (endpoints a ! c))\<rparr>)"
      "ep_open (endpoints a ! c)" by (simp_all add: same_endpoint_def)
    with OpRecv True refinesD(6) [OF assms(1)] recv_poll [OF assms(1)] refines_update [OF assms(1)]
    show ?thesis by simp
  next
    case False
    with OpRecv refinesD(6) [OF assms(1)] refinesD(7) [OF assms(1), of c] assms(1) show ?thesis
      by (auto simp: same_endpoint_def)
  qed
next
  case (OpLeave c)
  show ?thesis
  proof (cases "c < length (chans m)")
    case True
    from refinesD(7) [OF assms(1) True] have
      "same_endpoint (sessions m) c ((chans m ! c)\<lparr>cq := [], rx_alive := False\<rparr>) (abandon (endpoints a ! c))"
      by (simp add: same_endpoint_def abandon_def)
    with OpLeave refines_update [OF assms(1)] show ?thesis by (simp add: drop_receiver_def)
  next
    case False
    with refinesD(6) [OF assms(1)] have
      "(chans m)[c := ch] = chans m" "(endpoints a)[c := ep] = endpoints a" for ch ep
      by (simp_all add: list_update_beyond)
    with OpLeave assms(1) show ?thesis by (simp add: drop_receiver_def)
  qed
next
  case OpTakeUp
  with refines_take_up [OF assms(1)] show ?thesis by simp
next
  case (OpChunk ok)
  with refines_chunk [OF assms] show ?thesis by (metis prod.collapse)
next
  case (OpRegister sid)
  with refines_register_session [OF assms(1), of sid] refinesD(6) [OF assms(1)] show ?thesis
    by (simp add: register_session_def)
next
  case OpReset
  with refines_reset [OF assms(1)] show ?thesis by simp
next
  case (OpDrop sid)
  with refines_drop_session [OF assms(1)] show ?thesis by simp
next
  case (OpDispatch f)
  with refines_dispatch [OF assms(1)] show ?thesis by simp
next
  case (OpSetLink l)
  with refinesD(1-5) [OF assms(1)] show ?thesis
    by (auto simp: set_link_id_def intro!: refines_table_cong [OF assms(1)])
next
  case OpClearLink
  with refinesD(1-5) [OF assms(1)] show ?thesis
    by (auto simp: clear_link_id_def intro!: refines_table_cong [OF assms(1)])
next
  case OpIsConnected
  with refinesD(1) [OF assms(1)] assms(1) show ?thesis by (simp add: is_connected_def)
next
  case OpNextSid
  with refinesD(1-5) [OF assms(1)] show ?thesis
    by (auto simp: next_session_id_def Let_def intro!: refines_table_cong [OF assms(1)])
qed

interpretation mux_spec:
  data_refinement "mux_step (Suc k)" "spec_step (Suc k)" "refines (Suc k)" for k
  by unfold_locales (rule refines_step, simp_all)

section \<open>Types\<close>

text \<open>What every operation keeps: a well-formed session table and a bounded channel.\<close>

definition mux_ok :: "'l mux \<Rightarrow> bool" where
  "mux_ok m \<longleftrightarrow> mux_inv m \<and> length (data_q m) \<le> SENDER_CAPACITY"

lemma mux_ok_new: "mux_ok mux_new"
  by (simp add: mux_ok_def) (simp add: mux_new_def)

lemma mux_step_inv: "mux_inv m \<Longrightarrow> mux_inv (snd (mux_step mdu x m))"
proof (cases x)
  case (OpChunk ok)
  then show "mux_inv m \<Longrightarrow> ?thesis"
    using mux_inv_sender_chunk [of "noting_link ok" None m] by (simp add: case_prod_beta)
qed (auto simp: mux_inv_ops case_prod_beta dest: mux_inv_send split: option.split)

lemma mux_step_bound:
  "length (data_q m) \<le> SENDER_CAPACITY \<Longrightarrow> length (data_q (snd (mux_step mdu x m))) \<le> SENDER_CAPACITY"
  by (cases x)
    (auto simp: set_link_id_def clear_link_id_def reset_def next_session_id_def register_session_def
      drop_session_def send_def send_frame_def dispatch_def receive_data_def recv_def Let_def
      drop_receiver_def sender_recv_def sender_chunk_def noting_link_def
      split: option.split list.split prod.split)

lemma mux_ok_run: "mux_ok m \<Longrightarrow> mux_ok (snd (run_ops (mux_step mdu) xs m))"
proof (induction xs arbitrary: m)
  case (Cons x xs)
  then have "mux_ok (snd (mux_step mdu x m))" by (simp add: mux_ok_def mux_step_inv mux_step_bound)
  from Cons.IH [OF this] show ?case by (simp add: case_prod_beta)
qed simp

section \<open>Sessions do not interfere\<close>

text \<open>
  The channel \<open>c\<close> of session \<open>sid\<close>: the operations that concern it, and what they do to
  it. Once its sender is gone (the session was dropped, registered again or the multiplexer
  reset) only its own receiver matters.
\<close>

definition concerns :: "u32 \<Rightarrow> nat \<Rightarrow> 'l mux_op \<Rightarrow> bool" where
  "concerns sid c x \<longleftrightarrow>
     (case x of
        OpReset \<Rightarrow> True
      | OpRegister s \<Rightarrow> s = sid
      | OpDrop s \<Rightarrow> s = sid
      | OpDispatch f \<Rightarrow> session_id f = sid
      | OpRecv d \<Rightarrow> d = c
      | OpLeave d \<Rightarrow> d = c
      | _ \<Rightarrow> False)"

definition chan_step :: "'l mux_op \<Rightarrow> chan \<Rightarrow> chan" where
  "chan_step x ch =
     (case x of
        OpReset \<Rightarrow> close_tx ch
      | OpRegister s \<Rightarrow> close_tx ch
      | OpDrop s \<Rightarrow> close_tx ch
      | OpDispatch f \<Rightarrow> if tx_alive ch \<and> rx_alive ch then ch\<lparr>cq := cq ch @ [f]\<rparr> else ch
      | OpRecv d \<Rightarrow> if rx_alive ch then ch\<lparr>cq := tl (cq ch)\<rparr> else ch
      | OpLeave d \<Rightarrow> ch\<lparr>cq := [], rx_alive := False\<rparr>
      | _ \<Rightarrow> ch)"

definition feeds :: "'l mux \<Rightarrow> u32 \<Rightarrow> nat \<Rightarrow> bool" where
  "feeds m sid c \<longleftrightarrow> c < length (chans m) \<and> (tx_alive (chans m ! c) \<longrightarrow> sessions m sid = Some c)"

lemma feeds_other:
  assumes "mux_inv m" "feeds m sid c" "sessions m s = Some c"
  shows "s = sid"
  using mux_invD(2) [OF assms(1,3)] mux_invD(3) [OF assms(1,3), of sid] assms(2)
  by (simp add: feeds_def)

lemma close_tx_closed: "\<not> tx_alive ch \<Longrightarrow> close_tx ch = ch"
  by (simp add: close_tx_def)

lemma nth_drop_own:
  assumes "mux_inv m" "feeds m sid c"
  shows "drop_sender s m ! c = (if s = sid then close_tx (chans m ! c) else chans m ! c)"
  using assms feeds_other [OF assms, of s] close_tx_closed [of "chans m ! c"]
  by (auto simp: nth_drop_sender feeds_def)

lemma recv_chan:
  "c < length (chans m) \<Longrightarrow>
     chans (snd (recv d m)) ! c = (if d = c then (chans m ! c)\<lparr>cq := tl (cq (chans m ! c))\<rparr> else chans m ! c)"
  by (auto simp: recv_def Let_def split: list.split)

lemma feeds_iff:
  assumes "mux_inv m" "feeds m sid c"
  shows "sessions m s = Some c \<longleftrightarrow> s = sid \<and> tx_alive (chans m ! c)"
  using feeds_other [OF assms, of s] mux_invD(2) [OF assms(1), of s c] assms(2)
  by (auto simp: feeds_def)

lemma dispatch_chan:
  assumes "mux_inv m" "feeds m sid c"
  shows "chans (dispatch f m) ! c =
    (if session_id f = sid \<and> tx_alive (chans m ! c) \<and> rx_alive (chans m ! c)
     then (chans m ! c)\<lparr>cq := cq (chans m ! c) @ [f]\<rparr> else chans m ! c)"
proof (cases "sessions m (session_id f) = Some c")
  case True
  with assms(2) feeds_iff [OF assms, of "session_id f"] show ?thesis
    by (simp add: dispatch_def feeds_def)
next
  case False
  with feeds_iff [OF assms, of "session_id f"] show ?thesis
    by (auto simp: dispatch_def split: option.split)
qed

lemma session_chan_step:
  assumes "mux_inv m" "feeds m sid c"
  shows "chans (snd (mux_step mdu x m)) ! c =
    (if concerns sid c x then chan_step x (chans m ! c) else chans m ! c)"
proof (cases x)
  case (OpRegister s)
  with assms(2) show ?thesis
    by (simp add: register_session_def nth_append nth_drop_own [OF assms] concerns_def chan_step_def feeds_def)
next
  case (OpDrop s)
  then show ?thesis by (simp add: drop_session_def nth_drop_own [OF assms] concerns_def chan_step_def)
next
  case (OpDispatch f)
  then show ?thesis by (simp add: dispatch_chan [OF assms] concerns_def chan_step_def)
next
  case (OpRecv d)
  with assms(2) show ?thesis
    by (auto simp: case_prod_beta recv_chan concerns_def chan_step_def feeds_def)
next
  case (OpLeave d)
  with assms(2) show ?thesis
    by (auto simp: drop_receiver_def concerns_def chan_step_def feeds_def nth_list_update)
qed (use assms(2) in \<open>auto simp: set_link_id_def clear_link_id_def reset_def next_session_id_def
    send_def send_frame_def receive_data_def Let_def sender_recv_def sender_chunk_def noting_link_def
    concerns_def chan_step_def feeds_def case_prod_beta
    split: option.split list.split prod.split\<close>)

text \<open>A sender that is gone stays gone, and an entry of the table changes only for its session.\<close>

lemma mux_step_length: "length (chans m) \<le> length (chans (snd (mux_step mdu x m)))"
  by (cases x)
    (auto simp: set_link_id_def clear_link_id_def reset_def next_session_id_def register_session_def
      drop_session_def send_def send_frame_def dispatch_def receive_data_def recv_def Let_def
      drop_receiver_def sender_recv_def sender_chunk_def noting_link_def
      split: option.split list.split prod.split)

lemma mux_step_entry:
  assumes "\<not> (x = OpReset \<or> x = OpRegister sid \<or> x = OpDrop sid)"
  shows "sessions (snd (mux_step mdu x m)) sid = sessions m sid"
  using assms
  by (cases x)
    (auto simp: set_link_id_def clear_link_id_def next_session_id_def register_session_def
      drop_session_def send_def send_frame_def dispatch_def receive_data_def recv_def Let_def
      drop_receiver_def sender_recv_def sender_chunk_def noting_link_def
      split: option.split list.split prod.split)

lemma chan_step_tx:
  "tx_alive (chan_step x ch) \<Longrightarrow> tx_alive ch \<and> (\<forall>s. x \<noteq> OpReset \<and> x \<noteq> OpRegister s \<and> x \<noteq> OpDrop s)"
  by (cases x) (auto simp: chan_step_def split: if_splits)

lemma feeds_step:
  assumes "mux_inv m" "feeds m sid c"
  shows "feeds (snd (mux_step mdu x m)) sid c"
proof -
  let ?m = "snd (mux_step mdu x m)"
  have "c < length (chans ?m)" using assms(2) mux_step_length [of m mdu x] by (simp add: feeds_def)
  moreover have "sessions ?m sid = Some c" if "tx_alive (chans ?m ! c)"
  proof -
    from that session_chan_step [OF assms, of mdu x] have
      "tx_alive (chans m ! c)" "\<not> (x = OpReset \<or> x = OpRegister sid \<or> x = OpDrop sid)"
      by (auto simp: concerns_def dest: chan_step_tx split: if_splits)
    with mux_step_entry [OF this(2), of mdu m] assms(2) show ?thesis by (simp add: feeds_def)
  qed
  ultimately show ?thesis by (simp add: feeds_def)
qed

lemma session_channel_run:
  assumes "mux_inv m" "feeds m sid c"
  shows "chans (snd (run_ops (mux_step mdu) xs m)) ! c =
    fold chan_step (filter (concerns sid c) xs) (chans m ! c)"
  using assms
proof (induction xs arbitrary: m)
  case (Cons x xs)
  from Cons.IH [OF mux_step_inv feeds_step, of m mdu x] Cons.prems
    session_chan_step [OF Cons.prems, of mdu x]
  show ?case by (simp add: case_prod_beta)
qed simp

text \<open>What the receiver is answered depends on its channel only.\<close>

definition chan_answer :: "chan \<Rightarrow> 'l mux_out" where
  "chan_answer ch =
     (if rx_alive ch
      then OutRecv (case cq ch of f # q \<Rightarrow> Got f | [] \<Rightarrow> if tx_alive ch then Pending else Closed)
      else OutUnit)"

lemma recv_answer:
  "c < length (chans m) \<Longrightarrow> fst (mux_step mdu (OpRecv c) m) = chan_answer (chans m ! c)"
  by (auto simp: recv_def chan_answer_def Let_def split: list.split)

lemma run_ops_append:
  "snd (run_ops step (xs @ ys) s) = snd (run_ops step ys (snd (run_ops step xs s)))"
  by (induction xs arbitrary: s) (simp_all add: case_prod_beta)

lemma run_ops_length: "length (chans m) \<le> length (chans (snd (run_ops (mux_step mdu) xs m)))"
proof (induction xs arbitrary: m)
  case (Cons x xs)
  from order_trans [OF mux_step_length Cons.IH, of m mdu x] show ?case by (simp add: case_prod_beta)
qed simp

text \<open>The channel made by a registration, from then on.\<close>

lemma registered_channel:
  assumes "mux_inv m" "c = length (chans m)"
  shows "chans (snd (run_ops (mux_step mdu) (OpRegister sid # xs) m)) ! c =
      fold chan_step (filter (concerns sid c) xs) chan_new"
    and "c < length (chans (snd (run_ops (mux_step mdu) (OpRegister sid # xs) m)))"
proof -
  let ?m = "snd (register_session sid m)"
  have m: "snd (run_ops (mux_step mdu) (OpRegister sid # xs) m) = snd (run_ops (mux_step mdu) xs ?m)"
    by (simp add: case_prod_beta)
  have "chans ?m ! c = chan_new" "sessions ?m sid = Some c" "c < length (chans ?m)"
    by (simp_all add: register_session_def assms(2) nth_append)
  with session_channel_run [OF mux_inv_register_session [OF assms(1)], of sid sid c mdu xs]
    run_ops_length [of ?m mdu xs]
  show "chans (snd (run_ops (mux_step mdu) (OpRegister sid # xs) m)) ! c =
      fold chan_step (filter (concerns sid c) xs) chan_new"
    and "c < length (chans (snd (run_ops (mux_step mdu) (OpRegister sid # xs) m)))"
    unfolding m by (simp_all add: feeds_def)
qed

end
