(* ===== verification/Socket_Filter.thy ===== *)
theory Socket_Filter
  imports Prelude
begin

text \<open>
  \<open>src/filter.rs\<close> with the \<open>PortType\<close> of \<open>src/forwarding.rs\<close>: the list of
  include and exclude rules an exit node applies to every address it is asked to reach.
  The address tests are those of \<open>std::net\<close> (\<open>is_private\<close>, \<open>is_unique_local\<close>,
  \<open>is_loopback\<close>), written on the octets as the standard library documents them. Name
  resolution (\<open>TargetAddr::resolve_dns\<close> of the crate \<open>fast_socks5\<close>) is a parameter.
\<close>

section \<open>Addresses\<close>

datatype ip_addr = V4 "32 word" | V6 "128 word"

text \<open>\<open>SocketAddr\<close>: an IPv6 one carries its flow information and scope id as well.\<close>

datatype socket_addr = SocketV4 "32 word" u16 | SocketV6 "128 word" u16 u32 u32

fun ip_of :: "socket_addr \<Rightarrow> ip_addr" where
  "ip_of (SocketV4 a p) = V4 a"
| "ip_of (SocketV6 a p fl sc) = V6 a"

fun port_of :: "socket_addr \<Rightarrow> u16" where
  "port_of (SocketV4 a p) = p"
| "port_of (SocketV6 a p fl sc) = p"

datatype target_addr = Ip socket_addr | Domain bytes u16

definition ipv4 :: "u8 \<Rightarrow> u8 \<Rightarrow> u8 \<Rightarrow> u8 \<Rightarrow> 32 word" where
  "ipv4 a b c d = u32_from_be_bytes a b c d"

definition octet :: "nat \<Rightarrow> 32 word \<Rightarrow> u8" where
  "octet i a = u32_to_be_bytes a ! i"

definition v4_is_loopback :: "32 word \<Rightarrow> bool" where
  "v4_is_loopback a \<longleftrightarrow> octet 0 a = 127"

definition v4_is_private :: "32 word \<Rightarrow> bool" where
  "v4_is_private a \<longleftrightarrow>
     octet 0 a = 10 \<or>
     octet 0 a = 172 \<and> 16 \<le> octet 1 a \<and> octet 1 a \<le> 31 \<or>
     octet 0 a = 192 \<and> octet 1 a = 168"

definition v6_is_loopback :: "128 word \<Rightarrow> bool" where
  "v6_is_loopback a \<longleftrightarrow> a = 1"

definition v6_is_unique_local :: "128 word \<Rightarrow> bool" where
  "v6_is_unique_local a \<longleftrightarrow> (ucast (drop_bit 112 a) :: u16) AND 0xFE00 = 0xFC00"

fun is_loopback :: "ip_addr \<Rightarrow> bool" where
  "is_loopback (V4 a) = v4_is_loopback a"
| "is_loopback (V6 a) = v6_is_loopback a"

fun is_private_net :: "ip_addr \<Rightarrow> bool" where
  "is_private_net (V4 a) = v4_is_private a"
| "is_private_net (V6 a) = v6_is_unique_local a"

lemma octet_ipv4 [simp]:
  "octet 0 (ipv4 a b c d) = a" "octet (Suc 0) (ipv4 a b c d) = b"
  "octet 2 (ipv4 a b c d) = c" "octet 3 (ipv4 a b c d) = d"
  by (simp_all add: octet_def ipv4_def u32_be_split)

section \<open>Filter rules\<close>

datatype port_type = Tcp | Udp | TcpUdp

datatype filter_result = Exclude | Include

datatype address_filter = AllAddresses | Address ip_addr | Private | Localhost

datatype port_filter_type = Single u16 | AllPorts

record port_filter =
  pf_port :: port_filter_type
  pf_type :: port_type

record filter_rule =
  address_filter :: address_filter
  port_filter :: port_filter
  filter_result :: filter_result

record filter_config =
  filters :: "filter_rule list"

fun address_matches :: "address_filter \<Rightarrow> socket_addr \<Rightarrow> bool" where
  "address_matches AllAddresses addr = True"
| "address_matches (Address a) addr = (ip_of addr = a)"
| "address_matches Private addr = is_private_net (ip_of addr)"
| "address_matches Localhost addr = is_loopback (ip_of addr)"

definition port_matches :: "port_filter \<Rightarrow> socket_addr \<Rightarrow> bool" where
  "port_matches f addr =
     (case pf_port f of Single checking_port \<Rightarrow> port_of addr = checking_port | AllPorts \<Rightarrow> True)"

text \<open>The \<open>matches!\<close> of \<open>allowed_ip\<close> on the type of a rule and the type asked for.\<close>

definition type_matches :: "port_type \<Rightarrow> port_type \<Rightarrow> bool" where
  "type_matches rule asked \<longleftrightarrow>
     (rule = Tcp \<and> asked = Tcp) \<or> (rule = Udp \<and> asked = Udp) \<or> rule = TcpUdp"

definition allowed_ip :: "socket_addr \<Rightarrow> filter_config \<Rightarrow> port_type \<Rightarrow> bool" where
  "allowed_ip socket_addr cfg ptype =
     fold (\<lambda>rule include.
        if type_matches (pf_type (port_filter rule)) ptype
           \<and> address_matches (address_filter rule) socket_addr
           \<and> port_matches (port_filter rule) socket_addr
        then (case filter_result rule of Exclude \<Rightarrow> False | Include \<Rightarrow> True)
        else include)
      (filters cfg) False"

definition target_to_socket ::
  "(target_addr \<Rightarrow> target_addr option) \<Rightarrow> target_addr \<Rightarrow> socket_addr option" where
  "target_to_socket resolve_dns addr =
     (case resolve_dns addr of
        Some (Ip sock) \<Rightarrow> Some sock
      | Some (Domain _ _) \<Rightarrow> None
      | None \<Rightarrow> None)"

definition filter_and_convert ::
  "(target_addr \<Rightarrow> target_addr option) \<Rightarrow> target_addr \<Rightarrow> filter_config option \<Rightarrow> port_type
     \<Rightarrow> socket_addr option" where
  "filter_and_convert resolve_dns addr config ptype =
     (case target_to_socket resolve_dns addr of
        None \<Rightarrow> None
      | Some sock \<Rightarrow>
          (case config of
             Some cfg \<Rightarrow> if allowed_ip sock cfg ptype then Some sock else None
           | None \<Rightarrow> Some sock))"

section \<open>What the rules mean\<close>

definition rule_applies :: "socket_addr \<Rightarrow> port_type \<Rightarrow> filter_rule \<Rightarrow> bool" where
  "rule_applies addr ptype rule \<longleftrightarrow>
     type_matches (pf_type (port_filter rule)) ptype
     \<and> address_matches (address_filter rule) addr
     \<and> port_matches (port_filter rule) addr"

text \<open>
  The reference reading of a rule list, as the documentation of the file gives it: the
  lowest rule that applies decides, and an address no rule applies to is refused.
\<close>

definition policy :: "filter_rule list \<Rightarrow> socket_addr \<Rightarrow> port_type \<Rightarrow> bool" where
  "policy rules addr ptype =
     (case find (rule_applies addr ptype) (rev rules) of
        None \<Rightarrow> False
      | Some rule \<Rightarrow> filter_result rule = Include)"

lemma allowed_ip_snoc:
  "allowed_ip addr \<lparr>filters = rules @ [rule]\<rparr> ptype =
     (if rule_applies addr ptype rule then filter_result rule = Include
      else allowed_ip addr \<lparr>filters = rules\<rparr> ptype)"
  by (simp add: allowed_ip_def rule_applies_def split: filter_result.split)

lemma policy_snoc:
  "policy (rules @ [rule]) addr ptype =
     (if rule_applies addr ptype rule then filter_result rule = Include
      else policy rules addr ptype)"
  by (simp add: policy_def)

lemma allowed_ip_Nil [simp]: "\<not> allowed_ip addr \<lparr>filters = []\<rparr> ptype"
  by (simp add: allowed_ip_def)

lemma allowed_ip_policy: "allowed_ip addr \<lparr>filters = rules\<rparr> ptype = policy rules addr ptype"
proof (induction rules rule: rev_induct)
  case Nil
  show ?case by (simp add: policy_def)
next
  case (snoc rule rules)
  then show ?case by (simp add: allowed_ip_snoc policy_snoc)
qed

text \<open>
  A list of include rules only, which is what the \<open>forward\<close> command builds, admits what
  some rule applies to; order and repetition do not matter there.
\<close>

lemma allowed_ip_includes:
  "\<forall>r\<in>set rules. filter_result r = Include \<Longrightarrow>
     allowed_ip addr \<lparr>filters = rules\<rparr> ptype \<longleftrightarrow> (\<exists>r\<in>set rules. rule_applies addr ptype r)"
  by (induction rules rule: rev_induct) (auto simp: allowed_ip_snoc)

lemma allowed_ip_append_exclude:
  assumes "\<forall>r\<in>set extra. filter_result r = Exclude"
    and "allowed_ip addr \<lparr>filters = rules @ extra\<rparr> ptype"
  shows "allowed_ip addr \<lparr>filters = rules\<rparr> ptype \<and> (\<forall>r\<in>set extra. \<not> rule_applies addr ptype r)"
  using assms
proof (induction extra rule: rev_induct)
  case (snoc r extra)
  then have "\<not> rule_applies addr ptype r"
    and "allowed_ip addr \<lparr>filters = rules @ extra\<rparr> ptype"
    by (auto simp: allowed_ip_snoc append_assoc [symmetric] simp del: append_assoc split: if_splits)
  with snoc show ?case by auto
qed simp

lemma filter_and_convert_Some_iff:
  "filter_and_convert resolve_dns addr (Some cfg) ptype = Some sock \<longleftrightarrow>
     resolve_dns addr = Some (Ip sock) \<and> allowed_ip sock cfg ptype"
  by (auto simp: filter_and_convert_def target_to_socket_def
      split: option.splits target_addr.splits if_splits)

section \<open>The trait \<open>FilterSocket\<close>\<close>

text \<open>
  Both filters implement one trait: a test on a socket address. The contract is that it
  looks at the address and the port only, so the extra fields of an IPv6 socket address
  never change a decision.
\<close>

locale filter_socket =
  fixes matches :: "'f \<Rightarrow> socket_addr \<Rightarrow> bool"
  assumes ip_and_port: "ip_of a = ip_of b \<Longrightarrow> port_of a = port_of b \<Longrightarrow> matches f a = matches f b"
begin

lemma ignores_scope: "matches f (SocketV6 a p fl sc) = matches f (SocketV6 a p fl' sc')"
  by (rule ip_and_port) simp_all

end

locale address_test = filter_socket matches for matches :: "'f \<Rightarrow> socket_addr \<Rightarrow> bool" +
  assumes ip_only: "ip_of a = ip_of b \<Longrightarrow> matches f a = matches f b"
begin

lemma any_port: "matches f (SocketV4 a p) = matches f (SocketV4 a q)"
  by (rule ip_only) simp

end

lemma address_matches_ip: "ip_of a = ip_of b \<Longrightarrow> address_matches f a = address_matches f b"
  by (cases f) simp_all

interpretation address_rule: address_test address_matches
  by unfold_locales (rule address_matches_ip, assumption)+

interpretation port_rule: filter_socket port_matches
  by unfold_locales (simp add: port_matches_def split: port_filter_type.split)

lemma rule_applies_ip_port:
  "ip_of a = ip_of b \<Longrightarrow> port_of a = port_of b \<Longrightarrow> rule_applies a t r = rule_applies b t r"
  using address_rule.ip_and_port port_rule.ip_and_port by (metis rule_applies_def)

lemma allowed_ip_ip_port:
  assumes "ip_of a = ip_of b" "port_of a = port_of b"
  shows "allowed_ip a \<lparr>filters = rules\<rparr> t = allowed_ip b \<lparr>filters = rules\<rparr> t"
  by (induction rules rule: rev_induct)
    (simp_all add: allowed_ip_snoc rule_applies_ip_port [OF assms])

section \<open>The test of the source\<close>

text \<open>The unit test of \<open>src/filter.rs\<close>: a rule for TCP does not let UDP through.\<close>

definition port_type_is_enforced :: bool where
  "port_type_is_enforced \<longleftrightarrow>
     (let localhost = ipv4 127 0 0 1;
          config = \<lparr>filters =
            [\<lparr>address_filter = Address (V4 localhost),
              port_filter = \<lparr>pf_port = Single 25565, pf_type = Tcp\<rparr>, filter_result = Include\<rparr>]\<rparr>;
          addr = SocketV4 localhost 25565
      in allowed_ip addr config Tcp \<and> \<not> allowed_ip addr config Udp)"

lemma filter_test_passes: "port_type_is_enforced"
  by (simp add: port_type_is_enforced_def allowed_ip_def type_matches_def port_matches_def)

end
