(* ===== verification/Relay.thy ===== *)
theory Relay
  imports Mux Socket_Filter "HOL-Library.Sublist"
begin

text \<open>
  \<open>src/relay.rs\<close>: the five relays between a local socket and a session. Every relay
  spawns a task that reads the socket and sends DATA frames, and a task that receives the
  frames of the session and writes the socket; it waits in \<open>select!\<close> for the first to end,
  sends CLOSE and drops the session. The two TCP relays abort the other task when one ends,
  which stops it where it next has to wait; the three UDP relays do not. The tasks are given
  as functions, one per relay, from what they read to what they do; the skeleton around them,
  which the source repeats in each relay, is one step relation over them. A task runs on until
  it is stopped, after its relay too. Between two steps of a relay the other tasks may
  do anything to the multiplexer (\<open>with_others\<close>). The codec of SOCKS5 datagrams
  (\<open>new_udp_header\<close>, \<open>parse_udp_request\<close> of the crate \<open>fast_socks5\<close>) and the
  resolver are parameters.
\<close>

section \<open>What the tasks do with one input\<close>

text \<open>Result of \<open>read\<close> on a stream, with the bytes read, and of \<open>recv_from\<close> with the peer.\<close>

datatype read_result = ReadOk bytes | ReadErr

datatype recv_from_result = DatagramOk bytes socket_addr | DatagramErr

datatype up_action = UpSend frame | UpSkip | UpBreak

datatype 'o down_action = Write 'o | Skip | Break

text \<open>The size of the read buffers.\<close>

definition BUF_SIZE :: nat where
  "BUF_SIZE = 4096"

text \<open>
  A \<open>read\<close> gives at most as many bytes as the buffer has room for. What is left is for the
  next read: of a TCP stream its next bytes, of a \<open>UdpStream\<close> the rest of the datagram. What
  is left of a datagram after \<open>recv_from\<close> is gone.
\<close>

definition fits :: "read_result \<Rightarrow> bool" where
  "fits r = (case r of ReadOk buf \<Rightarrow> length buf \<le> BUF_SIZE | ReadErr \<Rightarrow> True)"

subsection \<open>\<open>relay_bidirectional_tcp\<close> and \<open>relay_forwarded_tcp\<close>\<close>

definition tcp_to_rns :: "u32 \<Rightarrow> read_result \<Rightarrow> up_action" where
  "tcp_to_rns sid r =
     (case r of
        ReadOk buf \<Rightarrow> if buf = [] then UpBreak else UpSend (frame_new Data sid buf)
      | ReadErr \<Rightarrow> UpBreak)"

definition rns_to_tcp :: "frame \<Rightarrow> bytes down_action" where
  "rns_to_tcp f =
     (case frame_type f of
        Data \<Rightarrow> Write (payload f)
      | Close \<Rightarrow> Break
      | ConnectErr \<Rightarrow> Break
      | _ \<Rightarrow> Skip)"

subsection \<open>\<open>relay_bidirectional_udp_client_side\<close>\<close>

text \<open>The shared cell is the port of the local client, known once it has sent a datagram.\<close>

definition client_udp_to_rns ::
  "u32 \<Rightarrow> recv_from_result \<Rightarrow> u16 option \<Rightarrow> up_action \<times> u16 option" where
  "client_udp_to_rns sid r cell =
     (case r of
        DatagramOk buf addr \<Rightarrow>
          if buf = [] then (UpBreak, cell)
          else (UpSend (frame_new Data sid (take BUF_SIZE buf)), Some (port_of addr))
      | DatagramErr \<Rightarrow> (UpBreak, cell))"

definition client_rns_to_udp :: "frame \<Rightarrow> u16 option \<Rightarrow> (bytes \<times> u16) down_action" where
  "client_rns_to_udp f cell =
     (case frame_type f of
        Data \<Rightarrow> (case cell of Some port \<Rightarrow> Write (payload f, port) | None \<Rightarrow> Skip)
      | Close \<Rightarrow> Break
      | _ \<Rightarrow> Skip)"

text \<open>The task that watches the TCP connection of the association; \<open>True\<close> ends it.\<close>

definition tcp_check :: "read_result \<Rightarrow> bool" where
  "tcp_check r = (case r of ReadOk buf \<Rightarrow> buf = [] | ReadErr \<Rightarrow> True)"

subsection \<open>\<open>relay_bidirectional_udp_server_side\<close>\<close>

text \<open>\<open>new_udp_header(\<dots>).expect(\<dots>)\<close> panics on \<open>None\<close>, which ends the task.\<close>

definition server_udp_to_rns ::
  "(target_addr \<Rightarrow> bytes option) \<Rightarrow> filter_config \<Rightarrow> u32 \<Rightarrow> recv_from_result \<Rightarrow> up_action" where
  "server_udp_to_rns new_udp_header cfg sid r =
     (case r of
        DatagramOk buf addr \<Rightarrow>
          if buf = [] then UpBreak
          else if allowed_ip addr cfg Udp
          then (case new_udp_header (Ip addr) of
                  Some hdr \<Rightarrow> UpSend (frame_new Data sid (hdr @ take BUF_SIZE buf))
                | None \<Rightarrow> UpBreak)
          else UpSkip
      | DatagramErr \<Rightarrow> UpBreak)"

definition server_rns_to_udp ::
  "(bytes \<Rightarrow> (u8 \<times> target_addr \<times> bytes) option) \<Rightarrow> (target_addr \<Rightarrow> target_addr option)
     \<Rightarrow> filter_config \<Rightarrow> frame \<Rightarrow> (bytes \<times> socket_addr) down_action" where
  "server_rns_to_udp parse_udp_request resolve_dns cfg f =
     (case frame_type f of
        Data \<Rightarrow>
          (case parse_udp_request (payload f) of
             Some (frag, addr, data) \<Rightarrow>
               (case filter_and_convert resolve_dns addr (Some cfg) Udp of
                  Some sock \<Rightarrow> Write (data, sock)
                | None \<Rightarrow> Skip)
           | None \<Rightarrow> Break)
      | Close \<Rightarrow> Break
      | _ \<Rightarrow> Skip)"

subsection \<open>\<open>relay_forwarded_udp\<close>\<close>

definition localhost_target :: "u16 \<Rightarrow> target_addr" where
  "localhost_target p = Ip (SocketV4 (ipv4 127 0 0 1) p)"

definition forwarded_udp_to_rns ::
  "(target_addr \<Rightarrow> bytes option) \<Rightarrow> u16 \<Rightarrow> u32 \<Rightarrow> read_result \<Rightarrow> up_action" where
  "forwarded_udp_to_rns new_udp_header server_port sid r =
     (case r of
        ReadOk buf \<Rightarrow>
          if buf = [] then UpBreak
          else (case new_udp_header (localhost_target server_port) of
                  Some hdr \<Rightarrow> UpSend (frame_new Data sid (hdr @ buf))
                | None \<Rightarrow> UpBreak)
      | ReadErr \<Rightarrow> UpBreak)"

text \<open>\<open>write_all\<close> of nothing sends nothing.\<close>

definition forwarded_rns_to_udp ::
  "(bytes \<Rightarrow> (u8 \<times> target_addr \<times> bytes) option) \<Rightarrow> frame \<Rightarrow> bytes down_action" where
  "forwarded_rns_to_udp parse_udp_request f =
     (case frame_type f of
        Data \<Rightarrow>
          (case parse_udp_request (payload f) of
             Some (frag, addr, data) \<Rightarrow> if data = [] then Skip else Write data
           | None \<Rightarrow> Break)
      | Close \<Rightarrow> Break
      | _ \<Rightarrow> Skip)"

section \<open>The skeleton\<close>

datatype up_state = Reading | Sending frame | UpDone

datatype stage = Relaying | Closing | Dropping | Ended

text \<open>
  \<open>cell\<close> is the state the two tasks share (the client port; nothing elsewhere). \<open>written\<close>
  is what the local socket was given. \<open>reads\<close>, \<open>sent\<close>, \<open>handled\<close> and \<open>failed\<close> are history:
  the reads that became a frame, the frames the multiplexer accepted, the frames of the session
  that were dealt with, and the frame whose write failed or was broken off, if there is one.
\<close>

record ('i, 'o, 'x) relay =
  up :: up_state
  down :: bool
  stage :: stage
  cell :: 'x
  written :: "'o list"
  reads :: "'i list"
  sent :: "frame list"
  handled :: "frame list"
  failed :: "frame list"

definition relay_start :: "'x \<Rightarrow> ('i, 'o, 'x) relay" where
  "relay_start x =
     \<lparr>up = Reading, down = True, stage = Relaying, cell = x, written = [], reads = [],
      sent = [], handled = [], failed = []\<rparr>"

text \<open>\<open>select!\<close> is left when the first task ends.\<close>

definition leave_select :: "('i, 'o, 'x) relay \<Rightarrow> ('i, 'o, 'x) relay" where
  "leave_select r = (if stage r = Relaying then r\<lparr>stage := Closing\<rparr> else r)"

definition end_up :: "'l mux \<times> ('i, 'o, 'x) relay \<Rightarrow> 'l mux \<times> ('i, 'o, 'x) relay" where
  "end_up = (\<lambda>(m, r). (m, leave_select (r\<lparr>up := UpDone\<rparr>)))"

definition end_down ::
  "nat \<Rightarrow> 'l mux \<times> ('i, 'o, 'x) relay \<Rightarrow> 'l mux \<times> ('i, 'o, 'x) relay" where
  "end_down c = (\<lambda>(m, r). (drop_receiver c m, leave_select (r\<lparr>down := False\<rparr>)))"

text \<open>The lock of the cell is taken for a DATA frame; a sending upward task may hold it.\<close>

definition lock_free :: "bool \<Rightarrow> frame \<Rightarrow> ('i, 'o, 'x) relay \<Rightarrow> bool" where
  "lock_free locks f r \<longleftrightarrow>
     \<not> (locks \<and> frame_type f = Data \<and> (case up r of Sending g \<Rightarrow> True | _ \<Rightarrow> False))"

text \<open>
  The parameters: whether \<open>select!\<close> aborts, whether a third task watches a connection,
  whether the upward task holds the lock of the cell while it sends, what a read can give, what
  the socket has been given of an output when its write fails or is broken off after so many
  bytes, the session id, its channel, and the two tasks. A task that is aborted runs on until it
  comes to an await point that is not ready: \<open>aborted_up\<close> and \<open>aborted_down\<close> may come at any time
  after \<open>select!\<close>, and a write that is broken off is \<open>down_write_error\<close>.
\<close>

inductive relay_step ::
  "bool \<Rightarrow> bool \<Rightarrow> bool \<Rightarrow> ('i \<Rightarrow> bool) \<Rightarrow> ('o \<Rightarrow> nat \<Rightarrow> 'o list) \<Rightarrow> u32 \<Rightarrow> nat
     \<Rightarrow> ('i \<Rightarrow> 'x \<Rightarrow> up_action \<times> 'x) \<Rightarrow> (frame \<Rightarrow> 'x \<Rightarrow> 'o down_action)
     \<Rightarrow> 'l mux \<times> ('i, 'o, 'x) relay \<Rightarrow> 'l mux \<times> ('i, 'o, 'x) relay \<Rightarrow> bool"
  for abort watched locks :: bool and ok :: "'i \<Rightarrow> bool" and torn :: "'o \<Rightarrow> nat \<Rightarrow> 'o list"
    and sid :: u32 and c :: nat
    and upf :: "'i \<Rightarrow> 'x \<Rightarrow> up_action \<times> 'x" and downf :: "frame \<Rightarrow> 'x \<Rightarrow> 'o down_action" where
  read_frame: "up r = Reading \<Longrightarrow> ok i \<Longrightarrow> upf i (cell r) = (UpSend f, x) \<Longrightarrow>
     relay_step abort watched locks ok torn sid c upf downf (m, r)
       (m, r\<lparr>up := Sending f, cell := x, reads := reads r @ [i]\<rparr>)"
| read_skip: "up r = Reading \<Longrightarrow> ok i \<Longrightarrow> upf i (cell r) = (UpSkip, x) \<Longrightarrow>
     relay_step abort watched locks ok torn sid c upf downf (m, r) (m, r\<lparr>cell := x\<rparr>)"
| read_end: "up r = Reading \<Longrightarrow> ok i \<Longrightarrow> upf i (cell r) = (UpBreak, x) \<Longrightarrow>
     relay_step abort watched locks ok torn sid c upf downf (m, r) (end_up (m, r\<lparr>cell := x\<rparr>))"
| send_done: "up r = Sending f \<Longrightarrow> send_frame f m = Some m' \<Longrightarrow>
     relay_step abort watched locks ok torn sid c upf downf (m, r)
       (m', r\<lparr>up := Reading, sent := sent r @ [f]\<rparr>)"
| down_skip: "down r \<Longrightarrow> lock_free locks f r \<Longrightarrow> recv c m = (Got f, m') \<Longrightarrow> downf f (cell r) = Skip \<Longrightarrow>
     relay_step abort watched locks ok torn sid c upf downf (m, r) (m', r\<lparr>handled := handled r @ [f]\<rparr>)"
| down_write: "down r \<Longrightarrow> lock_free locks f r \<Longrightarrow> recv c m = (Got f, m') \<Longrightarrow>
     downf f (cell r) = Write out \<Longrightarrow>
     relay_step abort watched locks ok torn sid c upf downf (m, r)
       (m', r\<lparr>written := written r @ [out], handled := handled r @ [f]\<rparr>)"
| down_write_error: "down r \<Longrightarrow> lock_free locks f r \<Longrightarrow> recv c m = (Got f, m') \<Longrightarrow>
     downf f (cell r) = Write out \<Longrightarrow>
     relay_step abort watched locks ok torn sid c upf downf (m, r)
       (end_down c (m', r\<lparr>written := written r @ torn out n, failed := failed r @ [f]\<rparr>))"
| down_break: "down r \<Longrightarrow> recv c m = (Got f, m') \<Longrightarrow> downf f (cell r) = Break \<Longrightarrow>
     relay_step abort watched locks ok torn sid c upf downf (m, r)
       (end_down c (m', r\<lparr>handled := handled r @ [f]\<rparr>))"
| down_closed: "down r \<Longrightarrow> recv c m = (Closed, m') \<Longrightarrow>
     relay_step abort watched locks ok torn sid c upf downf (m, r) (end_down c (m', r))"
| watch_end: "watched \<Longrightarrow> tcp_check i \<Longrightarrow> stage r = Relaying \<Longrightarrow>
     relay_step abort watched locks ok torn sid c upf downf (m, r) (m, leave_select r)"
| aborted_up: "abort \<Longrightarrow> stage r \<noteq> Relaying \<Longrightarrow>
     relay_step abort watched locks ok torn sid c upf downf (m, r) (m, r\<lparr>up := UpDone\<rparr>)"
| aborted_down: "abort \<Longrightarrow> stage r \<noteq> Relaying \<Longrightarrow> down r \<Longrightarrow>
     relay_step abort watched locks ok torn sid c upf downf (m, r) (drop_receiver c m, r\<lparr>down := False\<rparr>)"
| close_sent: "stage r = Closing \<Longrightarrow> send Close sid [] m = Some m' \<Longrightarrow>
     relay_step abort watched locks ok torn sid c upf downf (m, r)
       (m', r\<lparr>stage := Dropping, sent := sent r @ [frame_new Close sid []]\<rparr>)"
| session_dropped: "stage r = Dropping \<Longrightarrow>
     relay_step abort watched locks ok torn sid c upf downf (m, r)
       (drop_session sid m, r\<lparr>stage := Ended\<rparr>)"

text \<open>A relay among the other tasks, which may do anything to the multiplexer in between.\<close>

inductive with_others ::
  "('l mux \<times> 'r \<Rightarrow> 'l mux \<times> 'r \<Rightarrow> bool) \<Rightarrow> 'l mux \<times> 'r \<Rightarrow> 'l mux \<times> 'r \<Rightarrow> bool"
  for step :: "'l mux \<times> 'r \<Rightarrow> 'l mux \<times> 'r \<Rightarrow> bool" where
  own: "step s s' \<Longrightarrow> with_others step s s'"
| others: "mux_inv m' \<Longrightarrow> with_others step (m, r) (m', r)"

inductive_cases with_othersE: "with_others step (m, r) (m', r')"

lemma run_with_others: "step\<^sup>*\<^sup>* s s' \<Longrightarrow> (with_others step)\<^sup>*\<^sup>* s s'"
  by (induction rule: rtranclp_induct) (auto intro: with_others.own rtranclp.rtrancl_into_rtrancl)

section \<open>The relays\<close>

definition relay_bidirectional_tcp ::
  "u32 \<Rightarrow> nat \<Rightarrow> 'l mux \<times> (read_result, bytes, unit) relay
     \<Rightarrow> 'l mux \<times> (read_result, bytes, unit) relay \<Rightarrow> bool" where
  "relay_bidirectional_tcp sid c =
     relay_step True False False fits (\<lambda>out n. [take n out]) sid c (\<lambda>i x. (tcp_to_rns sid i, x)) (\<lambda>f x. rns_to_tcp f)"

text \<open>\<open>relay_forwarded_tcp\<close> repeats \<open>relay_bidirectional_tcp\<close> line by line.\<close>

definition relay_forwarded_tcp ::
  "u32 \<Rightarrow> nat \<Rightarrow> 'l mux \<times> (read_result, bytes, unit) relay
     \<Rightarrow> 'l mux \<times> (read_result, bytes, unit) relay \<Rightarrow> bool" where
  "relay_forwarded_tcp sid c =
     relay_step True False False fits (\<lambda>out n. [take n out]) sid c (\<lambda>i x. (tcp_to_rns sid i, x)) (\<lambda>f x. rns_to_tcp f)"

definition relay_bidirectional_udp_client_side ::
  "u32 \<Rightarrow> nat \<Rightarrow> 'l mux \<times> (recv_from_result, bytes \<times> u16, u16 option) relay
     \<Rightarrow> 'l mux \<times> (recv_from_result, bytes \<times> u16, u16 option) relay \<Rightarrow> bool" where
  "relay_bidirectional_udp_client_side sid c =
     relay_step False True True (\<lambda>i. True) (\<lambda>out n. []) sid c (client_udp_to_rns sid) client_rns_to_udp"

definition relay_bidirectional_udp_server_side ::
  "(target_addr \<Rightarrow> bytes option) \<Rightarrow> (bytes \<Rightarrow> (u8 \<times> target_addr \<times> bytes) option)
     \<Rightarrow> (target_addr \<Rightarrow> target_addr option) \<Rightarrow> filter_config \<Rightarrow> u32 \<Rightarrow> nat
     \<Rightarrow> 'l mux \<times> (recv_from_result, bytes \<times> socket_addr, unit) relay
     \<Rightarrow> 'l mux \<times> (recv_from_result, bytes \<times> socket_addr, unit) relay \<Rightarrow> bool" where
  "relay_bidirectional_udp_server_side new_udp_header parse_udp_request resolve_dns cfg sid c =
     relay_step False False False (\<lambda>i. True) (\<lambda>out n. []) sid c
       (\<lambda>i x. (server_udp_to_rns new_udp_header cfg sid i, x))
       (\<lambda>f x. server_rns_to_udp parse_udp_request resolve_dns cfg f)"

definition relay_forwarded_udp ::
  "(target_addr \<Rightarrow> bytes option) \<Rightarrow> (bytes \<Rightarrow> (u8 \<times> target_addr \<times> bytes) option) \<Rightarrow> u16
     \<Rightarrow> u32 \<Rightarrow> nat \<Rightarrow> 'l mux \<times> (read_result, bytes, unit) relay
     \<Rightarrow> 'l mux \<times> (read_result, bytes, unit) relay \<Rightarrow> bool" where
  "relay_forwarded_udp new_udp_header parse_udp_request server_port sid c =
     relay_step False False False fits (\<lambda>out n. []) sid c
       (\<lambda>i x. (forwarded_udp_to_rns new_udp_header server_port sid i, x))
       (\<lambda>f x. forwarded_rns_to_udp parse_udp_request f)"

section \<open>Invariants of the skeleton\<close>

definition is_close :: "frame \<Rightarrow> bool" where
  "is_close f \<longleftrightarrow> frame_type f = Close"

definition is_data :: "frame \<Rightarrow> bool" where
  "is_data f \<longleftrightarrow> frame_type f = Data"

text \<open>An upward task that makes DATA frames of its own session only.\<close>

definition own_data :: "u32 \<Rightarrow> ('i \<Rightarrow> 'x \<Rightarrow> up_action \<times> 'x) \<Rightarrow> bool" where
  "own_data sid upf \<longleftrightarrow>
     (\<forall>i x f y. upf i x = (UpSend f, y) \<longrightarrow> session_id f = sid \<and> is_data f)"

definition closed_once :: "('i, 'o, 'x) relay \<Rightarrow> bool" where
  "closed_once r \<longleftrightarrow>
     length (filter is_close (sent r)) = (if stage r = Dropping \<or> stage r = Ended then 1 else 0)"

definition own_frames :: "u32 \<Rightarrow> ('i, 'o, 'x) relay \<Rightarrow> bool" where
  "own_frames sid r \<longleftrightarrow>
     (\<forall>f\<in>set (sent r). session_id f = sid \<and> (is_data f \<or> f = frame_new Close sid [])) \<and>
     (\<forall>f. up r = Sending f \<longrightarrow> session_id f = sid \<and> is_data f) \<and> closed_once r"

lemma is_data_not_close [simp]: "is_data f \<Longrightarrow> \<not> is_close f"
  by (simp add: is_data_def is_close_def)

lemma is_close_new [simp]: "is_close (frame_new Close sid p)" "\<not> is_data (frame_new Close sid p)"
  by (simp_all add: is_close_def is_data_def)

lemma leave_select_simps [simp]:
  "sent (leave_select r) = sent r" "reads (leave_select r) = reads r"
  "written (leave_select r) = written r" "handled (leave_select r) = handled r"
  "failed (leave_select r) = failed r" "cell (leave_select r) = cell r"
  "up (leave_select r) = up r" "down (leave_select r) = down r"
  by (simp_all add: leave_select_def)

lemma leave_select_stage:
  "stage (leave_select r) = (if stage r = Relaying then Closing else stage r)"
  by (simp add: leave_select_def)

lemmas end_task_simps = end_up_def end_down_def leave_select_stage

lemma own_frames_start: "own_frames sid (relay_start x)"
  by (simp add: own_frames_def relay_start_def closed_once_def)

lemma own_frames_step:
  assumes "relay_step abort watched locks ok torn sid c upf downf (m, r) (m', r')"
    and "own_data sid upf" "own_frames sid r"
  shows "own_frames sid r'"
  using assms
  by cases
    (auto simp: own_frames_def own_data_def closed_once_def end_task_simps split: if_splits)

text \<open>\<open>select!\<close> is left when the downward task ends.\<close>

lemma relaying_step:
  assumes "relay_step abort watched locks ok torn sid c upf downf (m, r) (m', r')" "stage r = Relaying \<longrightarrow> down r"
  shows "stage r' = Relaying \<longrightarrow> down r'"
  using assms by cases (auto simp: end_task_simps split: if_splits)

text \<open>An upward task that has ended hands over nothing more; the only frame left is the CLOSE.\<close>

lemma silent_step:
  assumes "relay_step abort watched locks ok torn sid c upf downf (m, r) (m', r')" "up r = UpDone"
  shows "up r' = UpDone \<and>
    (if stage r = Closing then stage r' = Closing \<and> sent r' = sent r \<or>
       stage r' = Dropping \<and> sent r' = sent r @ [frame_new Close sid []]
     else sent r' = sent r \<and> (stage r = Dropping \<or> stage r = Ended \<longrightarrow> stage r' = Dropping \<or> stage r' = Ended))"
  using assms by cases (auto simp: end_task_simps)

lemma mux_inv_step:
  assumes "relay_step abort watched locks ok torn sid c upf downf (m, r) (m', r')" "mux_inv m"
  shows "mux_inv m'"
  using assms
proof cases
qed (auto simp: end_task_simps mux_inv_send_frame mux_inv_send intro!: mux_inv_drop_session
    mux_inv_drop_receiver dest: mux_inv_recv [of m c] split: if_splits)

section \<open>The contract of a relay\<close>

text \<open>
  What the rest of the program relies on, whichever relay runs a session: it keeps the
  session table well formed, sends only DATA frames of its own session id and one CLOSE of
  it. The relays that abort add that they can stop their tasks, whatever these wait for.
\<close>

locale relay_contract =
  fixes sid :: u32
    and step :: "'l mux \<times> ('i, 'o, 'x) relay \<Rightarrow> 'l mux \<times> ('i, 'o, 'x) relay \<Rightarrow> bool"
  assumes step_inv: "step (m, r) (m', r') \<Longrightarrow> mux_inv m \<Longrightarrow> mux_inv m'"
    and step_own: "step (m, r) (m', r') \<Longrightarrow> own_frames sid r \<Longrightarrow> own_frames sid r'"
    and step_silent: "step (m, r) (m', r') \<Longrightarrow> up r = UpDone \<Longrightarrow> stage r = Dropping \<or> stage r = Ended \<Longrightarrow>
      up r' = UpDone \<and> (stage r' = Dropping \<or> stage r' = Ended) \<and> sent r' = sent r"
begin

lemma run_silent:
  assumes "(with_others step)\<^sup>*\<^sup>* (m, r) (m', r')" "up r = UpDone" "stage r = Dropping \<or> stage r = Ended"
  shows "sent r' = sent r"
proof -
  from assms(1) have "up r' = UpDone \<and> (stage r' = Dropping \<or> stage r' = Ended) \<and> sent r' = sent r"
  proof (induction rule: rtranclp_induct2)
    case (step m1 r1 m2 r2)
    from step.hyps(2) step.IH show ?case by (elim with_othersE) (use step_silent in fastforce)+
  qed (use assms(2,3) in simp)
  then show ?thesis by simp
qed

lemma run_inv: "(with_others step)\<^sup>*\<^sup>* (m, r) (m', r') \<Longrightarrow> mux_inv m \<Longrightarrow> mux_inv m'"
  by (induction rule: rtranclp_induct2) (auto elim!: with_othersE dest: step_inv)

lemma run_own: "(with_others step)\<^sup>*\<^sup>* (m, relay_start x) (m', r) \<Longrightarrow> own_frames sid r"
  by (induction rule: rtranclp_induct2)
    (auto intro: own_frames_start elim!: with_othersE dest: step_own)

lemma run_sent:
  assumes "(with_others step)\<^sup>*\<^sup>* (m, relay_start x) (m', r)"
  shows "f \<in> set (sent r) \<Longrightarrow> session_id f = sid \<and> (is_data f \<or> f = frame_new Close sid [])"
    and "length (filter is_close (sent r)) \<le> 1"
    and "stage r = Ended \<Longrightarrow> frame_new Close sid [] \<in> set (sent r)"
proof -
  note own = run_own [OF assms]
  show "f \<in> set (sent r) \<Longrightarrow> session_id f = sid \<and> (is_data f \<or> f = frame_new Close sid [])"
    and "length (filter is_close (sent r)) \<le> 1"
    using own by (auto simp: own_frames_def closed_once_def)
  assume "stage r = Ended"
  with own have "filter is_close (sent r) \<noteq> []" by (auto simp: own_frames_def closed_once_def)
  then obtain f where "f \<in> set (sent r)" "is_close f" by (auto simp: filter_empty_conv)
  with own show "frame_new Close sid [] \<in> set (sent r)" by (auto simp: own_frames_def)
qed

end

text \<open>
  What a relay can do by itself: a send goes out when the channel of the link sender has room,
  and so does CLOSE once \<open>select!\<close> is left, behind which the session is dropped.
\<close>

locale closing_relay = relay_contract sid step
  for sid :: u32 and step :: "'l mux \<times> ('i, 'o, 'x) relay \<Rightarrow> 'l mux \<times> ('i, 'o, 'x) relay \<Rightarrow> bool" +
  assumes step_sends: "up r = Sending f \<Longrightarrow> send_frame f m = Some m' \<Longrightarrow>
      step (m, r) (m', r\<lparr>up := Reading, sent := sent r @ [f]\<rparr>)"
    and step_closes: "stage r = Closing \<Longrightarrow> send Close sid [] m = Some m' \<Longrightarrow>
      step (m, r) (m', r\<lparr>stage := Dropping, sent := sent r @ [frame_new Close sid []]\<rparr>)"
    and step_drops: "stage r = Dropping \<Longrightarrow> step (m, r) (drop_session sid m, r\<lparr>stage := Ended\<rparr>)"
begin

lemma closes_with_room:
  assumes "stage r = Closing" "length (data_q m) < SENDER_CAPACITY"
  shows "\<exists>m'. step (m, r) (m', r\<lparr>stage := Dropping, sent := sent r @ [frame_new Close sid []]\<rparr>) \<and>
    chans m' = chans m \<and> sessions m' = sessions m"
  using step_closes [OF assms(1), of m] assms(2)
  by (intro exI [of _ "m\<lparr>data_q := data_q m @ [encode (frame_new Close sid [])]\<rparr>"])
    (simp add: send_def send_frame_def)

lemma sends_with_room:
  assumes "up r = Sending f" "length (data_q m) < SENDER_CAPACITY"
  shows "\<exists>m'. step (m, r) (m', r\<lparr>up := Reading, sent := sent r @ [f]\<rparr>) \<and>
    chans m' = chans m \<and> sessions m' = sessions m"
  using step_sends [OF assms(1), of m] assms(2)
  by (intro exI [of _ "m\<lparr>data_q := data_q m @ [encode f]\<rparr>"]) (simp add: send_frame_def)

lemma drops_run:
  assumes "stage r = Dropping"
  shows "step\<^sup>*\<^sup>* (m, r) (drop_session sid m, r\<lparr>stage := Ended\<rparr>)"
  using step_drops [OF assms] by (rule r_into_rtranclp)

end

locale aborting_relay = closing_relay sid step
  for sid :: u32 and step :: "'l mux \<times> ('i, 'o, 'x) relay \<Rightarrow> 'l mux \<times> ('i, 'o, 'x) relay \<Rightarrow> bool" +
  fixes c :: nat
  assumes step_stops_up: "stage r \<noteq> Relaying \<Longrightarrow> step (m, r) (m, r\<lparr>up := UpDone\<rparr>)"
    and step_stops_down: "stage r \<noteq> Relaying \<Longrightarrow> down r \<Longrightarrow>
      step (m, r) (drop_receiver c m, r\<lparr>down := False\<rparr>)"
begin

text \<open>Both tasks are stopped, whatever they wait for.\<close>

lemma stops:
  assumes "stage r \<noteq> Relaying"
  obtains m' where "step\<^sup>*\<^sup>* (m, r) (m', r\<lparr>up := UpDone, down := False\<rparr>)" "data_q m' = data_q m"
proof (cases "down r")
  case True
  have 1: "step (m, r) (m, r\<lparr>up := UpDone\<rparr>)" by (rule step_stops_up [OF assms])
  have 2: "step (m, r\<lparr>up := UpDone\<rparr>) (drop_receiver c m, r\<lparr>up := UpDone, down := False\<rparr>)"
    using step_stops_down [of "r\<lparr>up := UpDone\<rparr>" m] assms True by simp
  from 1 2 have "step\<^sup>*\<^sup>* (m, r) (drop_receiver c m, r\<lparr>up := UpDone, down := False\<rparr>)"
    by (meson converse_rtranclp_into_rtranclp r_into_rtranclp)
  then show thesis by (rule that) (simp add: drop_receiver_def)
next
  case False
  then have "r\<lparr>up := UpDone, down := False\<rparr> = r\<lparr>up := UpDone\<rparr>" by simp
  with step_stops_up [OF assms, of m] show thesis by (intro that [of m]) (simp_all add: r_into_rtranclp)
qed

text \<open>From there a relay ends with its CLOSE and nothing else, when there is room for that.\<close>

lemma stops_and_ends:
  assumes "stage r \<noteq> Relaying" "length (data_q m) < SENDER_CAPACITY"
  obtains m' r' where "step\<^sup>*\<^sup>* (m, r) (m', r')" "stage r' = Ended" "up r' = UpDone" "\<not> down r'"
    "sent r' = sent r @ (if stage r = Closing then [frame_new Close sid []] else [])" "written r' = written r"
proof -
  let ?q = "r\<lparr>up := UpDone, down := False\<rparr>"
  from stops [OF assms(1)] obtain m1 where m1: "step\<^sup>*\<^sup>* (m, r) (m1, ?q)" "data_q m1 = data_q m" .
  consider "stage r = Closing" | "stage r = Dropping" | "stage r = Ended" using assms(1) stage.exhaust by blast
  then show thesis
  proof cases
    case 1
    with closes_with_room [of ?q m1] m1(2) assms(2) obtain m2 q where
      m2: "step (m1, ?q) (m2, q)" "q = ?q\<lparr>stage := Dropping, sent := sent r @ [frame_new Close sid []]\<rparr>" by auto
    from drops_run [of q m2] m2(2) have "step\<^sup>*\<^sup>* (m2, q) (drop_session sid m2, q\<lparr>stage := Ended\<rparr>)" by simp
    with m1(1) m2(1) have "step\<^sup>*\<^sup>* (m, r) (drop_session sid m2, q\<lparr>stage := Ended\<rparr>)"
      by (meson rtranclp.rtrancl_into_rtrancl rtranclp_trans)
    with 1 m2(2) show thesis by (intro that) (assumption | simp)+
  next
    case 2
    with m1(1) drops_run [of ?q m1] have "step\<^sup>*\<^sup>* (m, r) (drop_session sid m1, ?q\<lparr>stage := Ended\<rparr>)"
      by (intro rtranclp_trans [OF m1(1)]) simp
    with 2 show thesis by (intro that) (assumption | simp)+
  next
    case 3
    with m1(1) show thesis by (intro that) (assumption | simp)+
  qed
qed

end

lemma own_data_tcp: "own_data sid (\<lambda>i x. (tcp_to_rns sid i, x))"
  by (auto simp: own_data_def tcp_to_rns_def is_data_def split: read_result.splits if_splits)

lemma own_data_client_udp: "own_data sid (client_udp_to_rns sid)"
  by (auto simp: own_data_def client_udp_to_rns_def is_data_def
      split: recv_from_result.splits if_splits)

lemma own_data_server_udp: "own_data sid (\<lambda>i x. (server_udp_to_rns hdr cfg sid i, x))"
  by (auto simp: own_data_def server_udp_to_rns_def is_data_def
      split: recv_from_result.splits if_splits option.splits)

lemma own_data_forwarded_udp: "own_data sid (\<lambda>i x. (forwarded_udp_to_rns hdr p sid i, x))"
  by (auto simp: own_data_def forwarded_udp_to_rns_def is_data_def
      split: read_result.splits if_splits option.splits)

lemmas own_data_tasks =
  own_data_tcp own_data_client_udp own_data_server_udp own_data_forwarded_udp

lemmas relay_step_defs =
  relay_bidirectional_tcp_def relay_forwarded_tcp_def
  relay_bidirectional_udp_client_side_def relay_bidirectional_udp_server_side_def
  relay_forwarded_udp_def

lemma relay_step_contract: "own_data sid upf \<Longrightarrow> relay_contract sid (relay_step abort watched locks ok torn sid c upf downf)"
proof unfold_locales
  fix m r m' r'
  assume step: "relay_step abort watched locks ok torn sid c upf downf (m, r) (m', r')"
  show "mux_inv m \<Longrightarrow> mux_inv m'" by (rule mux_inv_step [OF step])
  show "own_data sid upf \<Longrightarrow> own_frames sid r \<Longrightarrow> own_frames sid r'" by (rule own_frames_step [OF step])
  show "up r = UpDone \<Longrightarrow> stage r = Dropping \<or> stage r = Ended \<Longrightarrow>
      up r' = UpDone \<and> (stage r' = Dropping \<or> stage r' = Ended) \<and> sent r' = sent r"
    using silent_step [OF step] by (auto split: if_splits)
qed

lemma relay_step_closing:
  assumes "own_data sid upf"
  shows "closing_relay sid (relay_step abort watched locks ok torn sid c upf downf)"
  by (intro closing_relay.intro relay_step_contract assms closing_relay_axioms.intro)
    (auto intro: send_done close_sent session_dropped)

lemma relay_step_aborting:
  assumes "own_data sid upf"
  shows "aborting_relay sid (relay_step True watched locks ok torn sid c upf downf) c"
  by (intro aborting_relay.intro relay_step_closing assms aborting_relay_axioms.intro)
    (auto intro: aborted_up aborted_down)

text \<open>Every one of the five closes, and the two for TCP abort.\<close>

interpretation tcp_relay: aborting_relay sid "relay_bidirectional_tcp sid c" c for sid c
  unfolding relay_step_defs by (intro relay_step_aborting own_data_tasks)

interpretation forwarded_tcp_relay: aborting_relay sid "relay_forwarded_tcp sid c" c for sid c
  unfolding relay_step_defs by (intro relay_step_aborting own_data_tasks)

interpretation client_udp_relay:
  closing_relay sid "relay_bidirectional_udp_client_side sid c" for sid c
  unfolding relay_step_defs by (intro relay_step_closing own_data_tasks)

interpretation server_udp_relay:
  closing_relay sid "relay_bidirectional_udp_server_side hdr parse resolve cfg sid c"
  for hdr parse resolve cfg sid c
  unfolding relay_step_defs by (intro relay_step_closing own_data_tasks)

interpretation forwarded_udp_relay:
  closing_relay sid "relay_forwarded_udp hdr parse p sid c" for hdr parse p sid c
  unfolding relay_step_defs by (intro relay_step_closing own_data_tasks)

section \<open>What the relays carry\<close>

text \<open>
  Facts about everything a run sent, wrote and read: a property of each output of the tasks
  holds of all of them.
\<close>

lemma run_all:
  assumes run: "(with_others (relay_step abort watched locks ok torn sid c upf downf))\<^sup>*\<^sup>* (m, relay_start x) (m', r)"
    and up: "\<And>i x f y. ok i \<Longrightarrow> upf i x = (UpSend f, y) \<Longrightarrow> P f \<and> R i"
    and close: "P (frame_new Close sid [])"
    and down: "\<And>f x out. downf f x = Write out \<Longrightarrow> Q out \<and> (\<forall>n. \<forall>part\<in>set (torn out n). Q part)"
  shows "(\<forall>f\<in>set (sent r). P f) \<and> (\<forall>out\<in>set (written r). Q out) \<and> (\<forall>i\<in>set (reads r). R i)"
proof -
  from run have "(\<forall>f\<in>set (sent r). P f) \<and> (\<forall>out\<in>set (written r). Q out) \<and>
      (\<forall>i\<in>set (reads r). R i) \<and> (\<forall>f. up r = Sending f \<longrightarrow> P f)"
  proof (induction rule: rtranclp_induct2)
    case refl
    show ?case by (simp add: relay_start_def)
  next
    case (step m1 r1 m2 r2)
    from step.hyps(2) consider "relay_step abort watched locks ok torn sid c upf downf (m1, r1) (m2, r2)" | "r2 = r1"
      by (rule with_othersE)
    then show ?case
    proof cases
      case 1
      from this step.IH up down close show ?thesis
        by cases (auto simp: end_task_simps split: if_splits)
    next
      case 2
      from step.IH show ?thesis unfolding 2 .
    qed
  qed
  then show ?thesis by blast
qed

subsection \<open>TCP: the byte stream in both directions\<close>

definition read_bytes :: "read_result \<Rightarrow> bytes" where
  "read_bytes r = (case r of ReadOk buf \<Rightarrow> buf | ReadErr \<Rightarrow> [])"

text \<open>
  What the local socket delivered is what was sent, up to the one read that may be waiting
  in a send (or was aborted there); what the socket was given is what the session brought,
  and a front part of the frame whose write failed or was broken off.
\<close>

definition tcp_written :: "(read_result, bytes, unit) relay \<Rightarrow> bool" where
  "tcp_written r \<longleftrightarrow>
     (\<exists>part. written r = map payload (filter is_data (handled r)) @ part \<and>
        prefix (concat part) (concat (map payload (failed r))) \<and> (failed r = [] \<longrightarrow> part = []) \<and>
        (\<forall>f\<in>set (failed r). is_data f) \<and> (down r \<longrightarrow> failed r = []))"

definition tcp_transparent :: "(read_result, bytes, unit) relay \<Rightarrow> bool" where
  "tcp_transparent r \<longleftrightarrow>
     (\<exists>lost. map payload (filter is_data (sent r)) @ lost = map read_bytes (reads r) \<and>
        (case up r of Sending f \<Rightarrow> lost = [payload f] | Reading \<Rightarrow> lost = []
         | UpDone \<Rightarrow> length lost \<le> 1)) \<and>
     tcp_written r"

lemma tcp_to_rns_send:
  "tcp_to_rns sid i = UpSend f \<Longrightarrow> f = frame_new Data sid (read_bytes i) \<and> is_data f"
  by (auto simp: tcp_to_rns_def read_bytes_def is_data_def split: read_result.splits if_splits)

lemma rns_to_tcp_cases:
  "rns_to_tcp f = Write out \<Longrightarrow> is_data f \<and> out = payload f"
  "rns_to_tcp f = Skip \<Longrightarrow> \<not> is_data f"
  "rns_to_tcp f = Break \<Longrightarrow> \<not> is_data f"
  by (auto simp: rns_to_tcp_def is_data_def split: frame_type.splits)

lemma tcp_written_down: "tcp_written r \<Longrightarrow> down r \<Longrightarrow> written r = map payload (filter is_data (handled r))"
  by (auto simp: tcp_written_def)

lemma tcp_written_prefix:
  "tcp_written r \<Longrightarrow> prefix (concat (written r)) (concat (map payload (filter is_data (handled r @ failed r))))"
  by (auto simp: tcp_written_def)

lemma tcp_written_same:
  "tcp_written r \<Longrightarrow> written r' = written r \<Longrightarrow> handled r' = handled r \<Longrightarrow> failed r' = failed r \<Longrightarrow>
     down r' \<longrightarrow> down r \<Longrightarrow> tcp_written r'"
  by (auto simp: tcp_written_def)

lemma tcp_written_step:
  assumes "relay_bidirectional_tcp sid c (m, r) (m', r')" "tcp_written r"
  shows "tcp_written r'"
  using assms(1) unfolding relay_bidirectional_tcp_def
proof cases
  case (down_skip f)
  with assms(2) rns_to_tcp_cases(2) [of f] show ?thesis by (auto simp: tcp_written_def)
next
  case (down_write f out)
  with assms(2) rns_to_tcp_cases(1) [of f out] show ?thesis by (auto simp: tcp_written_def)
next
  case (down_write_error f m1 out n)
  from rns_to_tcp_cases(1) [OF down_write_error(5)] tcp_written_down [OF assms(2) down_write_error(2)] assms(2) down_write_error(2)
  have "tcp_written (r\<lparr>written := written r @ [take n out], failed := failed r @ [f], down := False\<rparr>)"
    by (auto simp: tcp_written_def take_is_prefix)
  then show ?thesis using down_write_error(1) by (auto simp: end_down_def intro: tcp_written_same)
next
  case (down_break f m1)
  with assms(2) rns_to_tcp_cases(3) [of f]
  have "tcp_written (r\<lparr>handled := handled r @ [f], down := False\<rparr>)" by (auto simp: tcp_written_def)
  with down_break show ?thesis by (auto simp: end_down_def intro: tcp_written_same)
qed (use assms(2) in \<open>auto simp: end_task_simps intro: tcp_written_same\<close>)

lemma tcp_transparent_step:
  assumes "relay_bidirectional_tcp sid c (m, r) (m', r')" "own_frames sid r" "tcp_transparent r"
  shows "tcp_transparent r'"
proof -
  have sent: "\<exists>lost. map payload (filter is_data (sent r')) @ lost = map read_bytes (reads r') \<and>
      (case up r' of Sending f \<Rightarrow> lost = [payload f] | Reading \<Rightarrow> lost = [] | UpDone \<Rightarrow> length lost \<le> 1)"
    using assms(1) unfolding relay_bidirectional_tcp_def
  proof cases
    case (read_frame i f x)
    with assms(3) tcp_to_rns_send [of sid i f] show ?thesis by (auto simp: tcp_transparent_def)
  next
    case (send_done f)
    with assms(2,3) show ?thesis by (auto simp: tcp_transparent_def own_frames_def)
  next
    case aborted_up
    with assms(3) show ?thesis by (cases "up r") (auto simp: tcp_transparent_def)
  qed (use assms(3) in \<open>auto simp: tcp_transparent_def end_task_simps\<close>)
  from assms(3) have "tcp_written r" by (simp add: tcp_transparent_def)
  from sent tcp_written_step [OF assms(1) this] show ?thesis by (simp add: tcp_transparent_def)
qed

lemma run_tcp_transparent:
  assumes "(with_others (relay_bidirectional_tcp sid c))\<^sup>*\<^sup>* (m, relay_start ()) (m', r)"
  shows "tcp_transparent r"
proof -
  from assms have "own_frames sid r \<and> tcp_transparent r"
  proof (induction rule: rtranclp_induct2)
    case refl
    show ?case by (simp add: own_frames_start) (simp add: tcp_transparent_def tcp_written_def relay_start_def)
  next
    case (step m1 r1 m2 r2)
    then show ?case using tcp_relay.step_own tcp_transparent_step by (blast elim: with_othersE)
  qed
  then show ?thesis ..
qed

section \<open>The tasks that outlive their relay\<close>

text \<open>
  The end of a relay whose session is closed from the other side: CLOSE is received and
  answered, the session is dropped. The upward task is still there, not aborted or not stopped
  yet.
\<close>

lemma relay_closes:
  assumes ch: "recv c m = (Got f, m1)" and brk: "downf f (cell r) = Break"
    and st: "down r" "stage r = Relaying"
    and room: "send Close sid [] (drop_receiver c m1) = Some m2"
  shows "\<exists>r'. (relay_step abort watched locks ok torn sid c upf downf)\<^sup>*\<^sup>* (m, r) (drop_session sid m2, r') \<and>
    stage r' = Ended \<and> up r' = up r \<and> cell r' = cell r \<and> sent r' = sent r @ [frame_new Close sid []]"
proof -
  let ?S = "relay_step abort watched locks ok torn sid c upf downf"
  let ?r1 = "(r\<lparr>handled := handled r @ [f], down := False, stage := Closing\<rparr>)"
  let ?r2 = "?r1\<lparr>stage := Dropping, sent := sent ?r1 @ [frame_new Close sid []]\<rparr>"
  have 1: "?S (m, r) (drop_receiver c m1, ?r1)"
    using down_break [where r = r and downf = downf, OF st(1) ch brk, of abort watched locks ok torn sid upf] st(2)
    by (simp add: end_down_def leave_select_def)
  have 2: "?S (drop_receiver c m1, ?r1) (m2, ?r2)"
    by (rule close_sent [OF _ room]) simp
  have 3: "?S (m2, ?r2) (drop_session sid m2, ?r2\<lparr>stage := Ended\<rparr>)"
    by (rule session_dropped) simp
  have "?S\<^sup>*\<^sup>* (m, r) (drop_session sid m2, ?r2\<lparr>stage := Ended\<rparr>)"
    using 1 2 3 by (meson converse_rtranclp_into_rtranclp r_into_rtranclp)
  moreover have "stage (?r2\<lparr>stage := Ended\<rparr>) = Ended \<and> up (?r2\<lparr>stage := Ended\<rparr>) = up r \<and>
      cell (?r2\<lparr>stage := Ended\<rparr>) = cell r \<and>
      sent (?r2\<lparr>stage := Ended\<rparr>) = sent r @ [frame_new Close sid []]"
    by simp
  ultimately show ?thesis by blast
qed

lemma relay_sends:
  assumes "upf i (cell r) = (UpSend f, x)" "ok i" "up r = Reading" "send_frame f m = Some m'"
  shows "\<exists>r'. (relay_step abort watched locks ok torn sid c upf downf)\<^sup>*\<^sup>* (m, r) (m', r') \<and>
    stage r' = stage r \<and> sent r' = sent r @ [f]"
proof -
  let ?S = "relay_step abort watched locks ok torn sid c upf downf"
  let ?r1 = "r\<lparr>up := Sending f, cell := x, reads := reads r @ [i]\<rparr>"
  have 1: "?S (m, r) (m, ?r1)" by (rule read_frame [where upf = upf and ok = ok and i = i and r = r, OF assms(3,2,1)])
  have 2: "?S (m, ?r1) (m', ?r1\<lparr>up := Reading, sent := sent ?r1 @ [f]\<rparr>)"
    by (rule send_done [OF _ assms(4)]) simp
  from 1 2 have "?S\<^sup>*\<^sup>* (m, r) (m', ?r1\<lparr>up := Reading, sent := sent ?r1 @ [f]\<rparr>)"
    by (meson converse_rtranclp_into_rtranclp r_into_rtranclp)
  moreover have "stage (?r1\<lparr>up := Reading, sent := sent ?r1 @ [f]\<rparr>) = stage r \<and>
      sent (?r1\<lparr>up := Reading, sent := sent ?r1 @ [f]\<rparr>) = sent r @ [f]" by simp
  ultimately show ?thesis by blast
qed

text \<open>A relay whose upward task breaks at once, before anything was sent.\<close>

lemma relay_up_breaks:
  assumes "upf i (cell r) = (UpBreak, x)" "ok i" "up r = Reading" "stage r = Relaying"
    and "send Close sid [] m = Some m'"
  shows "\<exists>r'. (relay_step abort watched locks ok torn sid c upf downf)\<^sup>*\<^sup>* (m, r) (drop_session sid m', r') \<and>
    stage r' = Ended \<and> sent r' = sent r @ [frame_new Close sid []] \<and> reads r' = reads r"
proof -
  let ?S = "relay_step abort watched locks ok torn sid c upf downf"
  let ?r1 = "leave_select (r\<lparr>cell := x, up := UpDone\<rparr>)"
  let ?r2 = "?r1\<lparr>stage := Dropping, sent := sent ?r1 @ [frame_new Close sid []]\<rparr>"
  have 1: "?S (m, r) (m, ?r1)"
    using read_end [where upf = upf and ok = ok and i = i and r = r, OF assms(3,2,1), of abort watched locks torn sid c downf m] by (simp add: end_up_def)
  have 2: "?S (m, ?r1) (m', ?r2)"
    by (rule close_sent [OF _ assms(5)]) (simp add: leave_select_stage assms(4))
  have 3: "?S (m', ?r2) (drop_session sid m', ?r2\<lparr>stage := Ended\<rparr>)"
    by (rule session_dropped) simp
  have "?S\<^sup>*\<^sup>* (m, r) (drop_session sid m', ?r2\<lparr>stage := Ended\<rparr>)"
    using 1 2 3 by (meson converse_rtranclp_into_rtranclp r_into_rtranclp)
  moreover have "stage (?r2\<lparr>stage := Ended\<rparr>) = Ended \<and>
      sent (?r2\<lparr>stage := Ended\<rparr>) = sent r @ [frame_new Close sid []] \<and>
      reads (?r2\<lparr>stage := Ended\<rparr>) = reads r" by simp
  ultimately show ?thesis by blast
qed

end
