(* ===== verification/Session.thy ===== *)
theory Session
  imports Mux_Spec Relay "HOL-Library.Sublist"
begin

text \<open>
  A session from end to end, in one direction, whatever its two relays are: the relay at the
  near end, which reads its socket and sends, the tunnel, and the relay at the far end, which
  receives and writes its socket. Every other task of both ends is there too. At the near end
  it may send frames of other sessions and do anything to the session table and the channels
  (the other direction of the tunnel arrives there); at the far end it may run every operation
  of the multiplexer that does not concern this session.
\<close>

section \<open>The system\<close>

record ('l, 'i, 'o, 'x, 'j, 'p, 'y) session_system =
  tun :: "'l tunnel"
  near_relay :: "('i, 'o, 'x) relay"
  far_relay :: "('j, 'p, 'y) relay"

text \<open>
  What an event loop does with the frames of one arrival: every frame of the session is
  dispatched; a frame of another session is dispatched too (the client, and DATA at the exit
  node) or leads to any operation that does not concern the session (a CONNECT that registers,
  a frame that is ignored).
\<close>

inductive handles :: "nat \<Rightarrow> u32 \<Rightarrow> nat \<Rightarrow> frame list \<Rightarrow> 'l mux \<Rightarrow> 'l mux \<Rightarrow> bool"
  for mdu :: nat and sid :: u32 and c :: nat where
  no_frame: "handles mdu sid c [] m m"
| dispatched: "handles mdu sid c fs (dispatch f m) m' \<Longrightarrow> handles mdu sid c (f # fs) m m'"
| other_frame: "session_id f \<noteq> sid \<Longrightarrow> \<not> concerns sid c x \<Longrightarrow> (\<forall>d. x \<noteq> OpReceive d) \<Longrightarrow>
     handles mdu sid c fs (snd (mux_step mdu x m)) m' \<Longrightarrow> handles mdu sid c (f # fs) m m'"

lemma handles_dispatch_all: "handles mdu sid c fs m (fold dispatch fs m)"
  by (induction fs arbitrary: m) (auto intro: handles.intros)

text \<open>What the near relay handed to the multiplexer in a step joins the accepted frames.\<close>

inductive session_step ::
  "nat \<Rightarrow> u32 \<Rightarrow> nat
     \<Rightarrow> ('l mux \<times> ('i, 'o, 'x) relay \<Rightarrow> 'l mux \<times> ('i, 'o, 'x) relay \<Rightarrow> bool)
     \<Rightarrow> ('l mux \<times> ('j, 'p, 'y) relay \<Rightarrow> 'l mux \<times> ('j, 'p, 'y) relay \<Rightarrow> bool)
     \<Rightarrow> ('l, 'i, 'o, 'x, 'j, 'p, 'y) session_system \<Rightarrow> ('l, 'i, 'o, 'x, 'j, 'p, 'y) session_system \<Rightarrow> bool"
  for mdu :: nat and sid :: u32 and far_rx :: nat
    and near_step :: "'l mux \<times> ('i, 'o, 'x) relay \<Rightarrow> 'l mux \<times> ('i, 'o, 'x) relay \<Rightarrow> bool"
    and far_step :: "'l mux \<times> ('j, 'p, 'y) relay \<Rightarrow> 'l mux \<times> ('j, 'p, 'y) relay \<Rightarrow> bool" where
  near: "near_step (near (tun s), near_relay s) (m, r) \<Longrightarrow>
     session_step mdu sid far_rx near_step far_step s
       (s\<lparr>tun := (tun s)\<lparr>near := m,
                         accepted := accepted (tun s) @ drop (length (sent (near_relay s))) (sent r)\<rparr>,
          near_relay := r\<rparr>)"
| far: "far_step (far (tun s), far_relay s) (m, r) \<Longrightarrow>
     session_step mdu sid far_rx near_step far_step s (s\<lparr>tun := (tun s)\<lparr>far := m\<rparr>, far_relay := r\<rparr>)"
| link: "sender (near (tun s)) = None \<Longrightarrow> data_q (near (tun s)) \<noteq> [] \<Longrightarrow> is_connected (near (tun s)) \<Longrightarrow>
     session_step mdu sid far_rx near_step far_step s
       (s\<lparr>tun := (tun s)\<lparr>near := sender_recv mdu (near (tun s))\<rparr>\<rparr>)"
| transmit: "sender (near (tun s)) \<noteq> None \<Longrightarrow>
     sender_chunk wire_send (wire (tun s), near (tun s)) = (w, m) \<Longrightarrow>
     session_step mdu sid far_rx near_step far_step s (s\<lparr>tun := (tun s)\<lparr>near := m, wire := w\<rparr>\<rparr>)"
| arrive: "wire (tun s) = d # w \<Longrightarrow> receive_data d (far (tun s)) = (fs, m) \<Longrightarrow>
     handles mdu sid far_rx fs m m' \<Longrightarrow>
     session_step mdu sid far_rx near_step far_step s
       (s\<lparr>tun := (tun s)\<lparr>wire := w, far := m', delivered := delivered (tun s) @ fs\<rparr>\<rparr>)"
| near_sends: "send_frame f (near (tun s)) = Some m \<Longrightarrow> frame_wf f \<Longrightarrow> session_id f \<noteq> sid \<Longrightarrow>
     session_step mdu sid far_rx near_step far_step s
       (s\<lparr>tun := (tun s)\<lparr>near := m, accepted := accepted (tun s) @ [f]\<rparr>\<rparr>)"
| near_sessions: "data_q m = data_q (near (tun s)) \<Longrightarrow> sender m = sender (near (tun s)) \<Longrightarrow>
     link_id m = link_id (near (tun s)) \<Longrightarrow>
     session_step mdu sid far_rx near_step far_step s (s\<lparr>tun := (tun s)\<lparr>near := m\<rparr>\<rparr>)"
| far_others: "\<not> concerns sid far_rx x \<Longrightarrow> (\<forall>d. x \<noteq> OpReceive d) \<Longrightarrow>
     session_step mdu sid far_rx near_step far_step s
       (s\<lparr>tun := (tun s)\<lparr>far := snd (mux_step mdu x (far (tun s)))\<rparr>\<rparr>)"

text \<open>
  Where a session is looked at from: the far relay begins, its session registered, on a link
  that may be in use; the near relay may have been running, and what it has sent of the
  session is on its way or waits for the far relay. The histories start with the near relay.
\<close>

definition queue_ok :: "('l, 'i, 'o, 'x, 'j, 'p, 'y) session_system \<Rightarrow> bool" where
  "queue_ok s \<longleftrightarrow>
     (\<exists>gone q. accepted (tun s) = gone @ q \<and> data_q (near (tun s)) = map encode q \<and>
        length q \<le> SENDER_CAPACITY)"

abbreviation of_session :: "u32 \<Rightarrow> frame list \<Rightarrow> frame list" where
  "of_session sid fs \<equiv> filter (\<lambda>f. session_id f = sid) fs"

definition session_begin ::
  "('l mux \<times> ('i, 'o, 'x) relay \<Rightarrow> 'l mux \<times> ('i, 'o, 'x) relay \<Rightarrow> bool) \<Rightarrow> u32 \<Rightarrow> nat \<Rightarrow> 'x \<Rightarrow> 'y
     \<Rightarrow> ('l, 'i, 'o, 'x, 'j, 'p, 'y) session_system \<Rightarrow> bool" where
  "session_begin near_step sid far_rx x y s \<longleftrightarrow>
     (\<exists>m. (with_others near_step)\<^sup>*\<^sup>* (m, relay_start x) (near (tun s), near_relay s)) \<and>
     of_session sid (accepted (tun s)) = sent (near_relay s) \<and> tunnel_inv (tun s) \<and> queue_ok s \<and>
     far_relay s = relay_start y \<and> mux_inv (far (tun s)) \<and> sessions (far (tun s)) sid = Some far_rx \<and>
     mailbox (far (tun s)) sid = Some (of_session sid (delivered (tun s)))"

text \<open>The plainest such state: fresh ends on an established link, the session just opened at both.\<close>

definition session_init :: "'l \<Rightarrow> u32 \<Rightarrow> 'x \<Rightarrow> 'y \<Rightarrow> ('l, 'i, 'o, 'x, 'j, 'p, 'y) session_system" where
  "session_init l sid x y =
     \<lparr>tun = tunnel_init l sid, near_relay = relay_start x, far_relay = relay_start y\<rparr>"

section \<open>The near relay\<close>

text \<open>
  Every read that became a frame was sent as that frame, in the order of the reads, but for
  the last one, which may be waiting in a send or was stopped there.
\<close>

definition near_ok :: "u32 \<Rightarrow> ('i \<Rightarrow> frame option) \<Rightarrow> ('i, 'o, 'x) relay \<Rightarrow> bool" where
  "near_ok sid frm r \<longleftrightarrow>
     (\<exists>lost. map Some (filter is_data (sent r)) @ lost = map frm (reads r) \<and>
        (case up r of Sending f \<Rightarrow> lost = [Some f] | Reading \<Rightarrow> lost = [] | UpDone \<Rightarrow> length lost \<le> 1)) \<and>
     (\<forall>f\<in>set (sent r). session_id f = sid \<and> frame_wf f) \<and>
     (\<forall>f. up r = Sending f \<longrightarrow> session_id f = sid \<and> frame_wf f \<and> is_data f)"

definition makes_frames ::
  "u32 \<Rightarrow> ('i \<Rightarrow> bool) \<Rightarrow> ('i \<Rightarrow> frame option) \<Rightarrow> ('i \<Rightarrow> 'x \<Rightarrow> up_action \<times> 'x) \<Rightarrow> bool" where
  "makes_frames sid ok frm upf \<longleftrightarrow>
     (\<forall>i x f y. ok i \<longrightarrow> upf i x = (UpSend f, y) \<longrightarrow> frm i = Some f \<and> session_id f = sid \<and> is_data f \<and> frame_wf f)"

lemma near_ok_start: "near_ok sid frm (relay_start x)"
  by (simp add: near_ok_def relay_start_def)

lemma near_ok_prefix: "near_ok sid frm r \<Longrightarrow> prefix (map Some (filter is_data (sent r))) (map frm (reads r))"
  unfolding near_ok_def by (metis prefixI)

lemma near_ok_leave: "near_ok sid frm r \<Longrightarrow> near_ok sid frm (leave_select r)"
  by (simp add: near_ok_def)

lemma near_ok_step:
  assumes "relay_step abort watched locks ok torn sid c upf downf (m, r) (m', r')"
    and "makes_frames sid ok frm upf" "near_ok sid frm r"
  shows "near_ok sid frm r'"
  using assms(1)
proof cases
  case (read_frame i f x)
  with assms(2,3) show ?thesis by (auto simp: near_ok_def makes_frames_def)
next
  case (read_end i x)
  with assms(3) have "near_ok sid frm (r\<lparr>cell := x, up := UpDone\<rparr>)" by (auto simp: near_ok_def)
  with read_end show ?thesis by (simp add: end_up_def near_ok_leave)
next
  case (send_done f)
  with assms(3) show ?thesis by (auto simp: near_ok_def)
next
  case (down_write_error f m1 out n)
  from assms(3) have "near_ok sid frm (r\<lparr>written := written r @ torn out n, failed := failed r @ [f], down := False\<rparr>)"
    by (simp add: near_ok_def)
  with down_write_error show ?thesis by (simp add: end_down_def near_ok_leave)
next
  case (down_break f m1)
  from assms(3) have "near_ok sid frm (r\<lparr>handled := handled r @ [f], down := False\<rparr>)"
    by (simp add: near_ok_def)
  with down_break show ?thesis by (simp add: end_down_def near_ok_leave)
next
  case (down_closed m1)
  from assms(3) have "near_ok sid frm (r\<lparr>down := False\<rparr>)" by (simp add: near_ok_def)
  with down_closed show ?thesis by (simp add: end_down_def near_ok_leave)
next
  case (watch_end i)
  with assms(3) show ?thesis by (simp add: near_ok_leave)
next
  case aborted_up
  with assms(3) show ?thesis by (cases "up r") (auto simp: near_ok_def)
qed (use assms(3) in \<open>auto simp: near_ok_def frame_wf_def\<close>)

text \<open>What a step of a relay does to the fields the tunnel looks at.\<close>

lemma relay_step_mux:
  assumes "relay_step abort watched locks ok torn sid c upf downf (m, r) (m', r')"
  shows "\<exists>new. sent r' = sent r @ new \<and> data_q m' = data_q m @ map encode new \<and>
    sender m' = sender m \<and> link_id m' = link_id m \<and> recv_buf m' = recv_buf m \<and>
    (length (data_q m) \<le> SENDER_CAPACITY \<longrightarrow> length (data_q m') \<le> SENDER_CAPACITY)"
  using assms
proof cases
  case (close_sent)
  then show ?thesis by (intro exI [of _ "[frame_new Close sid []]"])
      (auto simp: send_def send_frame_def split: if_splits)
next
  case (send_done f)
  then show ?thesis by (intro exI [of _ "[f]"]) (auto simp: send_frame_def split: if_splits)
qed (auto simp: end_up_def end_down_def drop_receiver_def drop_session_def recv_def Let_def
    split: list.splits if_splits)

section \<open>The far relay\<close>

text \<open>
  \<open>d\<close> is what arrived for the session. What the relay dealt with is a front part of it; while
  it receives, the channel is its own and what is queued comes next; while the session is
  registered, that is all that arrived.
\<close>

definition far_ok :: "u32 \<Rightarrow> nat \<Rightarrow> frame list \<Rightarrow> 'l mux \<Rightarrow> ('j, 'p, 'y) relay \<Rightarrow> bool" where
  "far_ok sid c d m r \<longleftrightarrow>
     mux_inv m \<and> prefix (handled r @ failed r) d \<and>
     (down r \<longrightarrow>
        failed r = [] \<and> feeds m sid c \<and> rx_alive (chans m ! c) \<and>
        prefix (handled r @ cq (chans m ! c)) d \<and>
        (tx_alive (chans m ! c) \<longrightarrow> handled r @ cq (chans m ! c) = d) \<and>
        (stage r \<noteq> Ended \<longrightarrow> tx_alive (chans m ! c)))"

lemma far_okD:
  assumes "far_ok sid c d m r"
  shows "mux_inv m" "prefix (handled r @ failed r) d"
    and "down r \<Longrightarrow> feeds m sid c" "down r \<Longrightarrow> rx_alive (chans m ! c)"
    and "down r \<Longrightarrow> prefix (handled r @ cq (chans m ! c)) d"
    and "down r \<Longrightarrow> tx_alive (chans m ! c) \<Longrightarrow> handled r @ cq (chans m ! c) = d"
    and "down r \<Longrightarrow> stage r \<noteq> Ended \<Longrightarrow> tx_alive (chans m ! c)"
    and "down r \<Longrightarrow> failed r = []"
  using assms by (simp_all add: far_ok_def)

lemma far_ok_handled: "far_ok sid c d m r \<Longrightarrow> prefix (handled r) d"
  by (auto simp: far_ok_def dest: append_prefixD)

lemma far_ok_begin:
  assumes "mux_inv m" "sessions m sid = Some c" "mailbox m sid = Some d"
  shows "far_ok sid c d m (relay_start y)"
proof -
  from assms(2,3) have "rx_alive (chans m ! c)" "cq (chans m ! c) = d"
    by (auto simp: mailbox_def split: if_splits)
  with assms(1,2) mux_invD(1,2) [OF assms(1,2)] show ?thesis
    by (simp add: far_ok_def relay_start_def feeds_def)
qed

lemma far_ok_ended:
  "mux_inv m \<Longrightarrow> prefix (handled r @ failed r) d \<Longrightarrow> \<not> down r \<Longrightarrow> far_ok sid c d m r"
  by (auto simp: far_ok_def)

text \<open>A change that leaves the session and its channel alone.\<close>

lemma far_ok_keep:
  assumes "far_ok sid c d m r" "mux_inv m'" "feeds m sid c \<Longrightarrow> feeds m' sid c"
    and "feeds m sid c \<Longrightarrow> chans m' ! c = chans m ! c"
    and "handled r' = handled r" "failed r' = failed r" "down r' = down r" "stage r' = Ended \<longleftrightarrow> stage r = Ended"
  shows "far_ok sid c d m' r'"
  using assms by (simp add: far_ok_def)

lemma recv_Got:
  "recv c m = (Got f, m') \<longleftrightarrow>
     (\<exists>q. cq (chans m ! c) = f # q \<and> m' = m\<lparr>chans := (chans m)[c := (chans m ! c)\<lparr>cq := q\<rparr>]\<rparr>)"
  by (auto simp: recv_def Let_def split: list.split)

lemma far_ok_took:
  assumes "far_ok sid c d m r" "down r" "recv c m = (Got f, m')"
  shows "prefix (handled r @ [f]) d"
    and "handled r' = handled r @ [f] \<Longrightarrow> failed r' = failed r \<Longrightarrow> down r' = down r \<Longrightarrow> stage r' = stage r \<Longrightarrow>
      far_ok sid c d m' r'"
proof -
  from assms(3) obtain q where q: "cq (chans m ! c) = f # q"
    "m' = m\<lparr>chans := (chans m)[c := (chans m ! c)\<lparr>cq := q\<rparr>]\<rparr>" by (auto simp: recv_Got)
  note ok = far_okD [OF assms(1)]
  from ok(5) [OF assms(2)] q(1) show "prefix (handled r @ [f]) d" by (auto simp: prefix_def)
  moreover have "mux_inv m'" using mux_inv_recv [OF ok(1), of c] assms(3) by simp
  moreover have "c < length (chans m)" using ok(3) [OF assms(2)] by (simp add: feeds_def)
  ultimately show "handled r' = handled r @ [f] \<Longrightarrow> failed r' = failed r \<Longrightarrow> down r' = down r \<Longrightarrow> stage r' = stage r \<Longrightarrow>
      far_ok sid c d m' r'"
    using assms(1,2) q by (auto simp: far_ok_def feeds_def)
qed

lemma far_ok_relay_step:
  assumes "relay_step abort watched locks ok torn sid c upf downf (m, r) (m', r')" "far_ok sid c d m r"
  shows "far_ok sid c d m' r'"
proof -
  note okD = far_okD [OF assms(2)]
  from mux_inv_step [OF assms(1) okD(1)] have inv': "mux_inv m'" .
  from assms(1) show ?thesis
  proof cases
    case (send_done f)
    then have "sessions m' = sessions m" "chans m' = chans m"
      by (auto simp: send_frame_def split: if_splits)
    with send_done inv' show ?thesis by (intro far_ok_keep [OF assms(2)]) (auto simp: feeds_def)
  next
    case (down_skip f)
    from far_ok_took(2) [OF assms(2) down_skip(2,4), of r'] down_skip(1) show ?thesis by simp
  next
    case (down_write f out)
    from far_ok_took(2) [OF assms(2) down_write(2,4), of r'] down_write(1) show ?thesis by simp
  next
    case (down_write_error f m1 out n)
    then have "\<not> down r'" "handled r' = handled r" "failed r' = failed r @ [f]" by (simp_all add: end_down_def)
    with inv' far_ok_took(1) [OF assms(2) down_write_error(2,4)] okD(8) [OF down_write_error(2)]
    show ?thesis by (intro far_ok_ended) simp_all
  next
    case (down_break f m1)
    then have "\<not> down r'" "handled r' = handled r @ [f]" "failed r' = failed r" by (simp_all add: end_down_def)
    with inv' far_ok_took(1) [OF assms(2) down_break(2,3)] okD(8) [OF down_break(2)]
    show ?thesis by (intro far_ok_ended) simp_all
  next
    case (down_closed m1)
    with inv' okD(2) show ?thesis by (intro far_ok_ended) (simp_all add: end_down_def)
  next
    case aborted_down
    with inv' okD(2) show ?thesis by (intro far_ok_ended) simp_all
  next
    case close_sent
    then have "sessions m' = sessions m" "chans m' = chans m"
      by (auto simp: send_def send_frame_def split: if_splits)
    with close_sent inv' show ?thesis by (intro far_ok_keep [OF assms(2)]) (auto simp: feeds_def)
  next
    case session_dropped
    have "feeds m' sid c" "chans m' ! c = close_tx (chans m ! c)" if "down r"
      using feeds_step [OF okD(1) okD(3) [OF that], of 1 "OpDrop sid"]
        session_chan_step [OF okD(1) okD(3) [OF that], of 1 "OpDrop sid"] session_dropped(1)
      by (simp_all add: concerns_def chan_step_def)
    with session_dropped inv' okD show ?thesis by (simp add: far_ok_def)
  qed (use inv' in \<open>auto simp: end_task_simps intro!: far_ok_keep [OF assms(2)] split: if_splits\<close>)
qed

lemma far_ok_other:
  assumes "far_ok sid c d m r" "\<not> concerns sid c x"
  shows "far_ok sid c d (snd (mux_step mdu x m)) r"
proof -
  note ok = far_okD [OF assms(1)]
  have "feeds (snd (mux_step mdu x m)) sid c" "chans (snd (mux_step mdu x m)) ! c = chans m ! c"
    if "feeds m sid c"
    using feeds_step [OF ok(1) that] session_chan_step [OF ok(1) that] assms(2) by simp_all
  with ok mux_step_inv [OF ok(1)] show ?thesis
    by (intro far_ok_keep [OF assms(1)]) auto
qed

lemma far_ok_dispatch:
  assumes "far_ok sid c d m r"
  shows "far_ok sid c (d @ of_session sid [f]) (dispatch f m) r"
proof -
  note ok = far_okD [OF assms]
  have "mux_inv (dispatch f m)" by (rule mux_inv_dispatch [OF ok(1)])
  moreover have "feeds (dispatch f m) sid c" if "down r"
    using feeds_step [OF ok(1) ok(3) [OF that], of 1 "OpDispatch f"] by simp
  moreover have "prefix (handled r @ failed r) (d @ of_session sid [f])"
    using ok(2) by (rule prefix_order.trans) simp
  moreover have "rx_alive (chans (dispatch f m) ! c) \<and> (tx_alive (chans (dispatch f m) ! c) = tx_alive (chans m ! c)) \<and>
      (if tx_alive (chans m ! c) then handled r @ cq (chans (dispatch f m) ! c) = d @ of_session sid [f]
       else cq (chans (dispatch f m) ! c) = cq (chans m ! c))" if "down r"
    using ok(4,6) [OF that] by (auto simp: dispatch_chan [OF ok(1) ok(3) [OF that]])
  moreover have "prefix (handled r @ cq (chans m ! c)) (d @ of_session sid [f])" if "down r"
    using ok(5) [OF that] by (rule prefix_order.trans) simp
  ultimately show ?thesis using ok(7,8) by (auto simp: far_ok_def split: if_splits)
qed

lemma far_ok_receive_data:
  assumes "receive_data b m = (fs, m')" "far_ok sid c d m r"
  shows "far_ok sid c d m' r"
proof -
  from assms(1) have "chans m' = chans m" "sessions m' = sessions m"
    by (auto simp: receive_data_def split: prod.splits)
  with mux_inv_receive_data [OF assms(1)] far_okD [OF assms(2)] show ?thesis
    by (intro far_ok_keep [OF assms(2)]) (auto simp: feeds_def)
qed

lemma mux_step_recv_buf: "x \<noteq> OpReset \<Longrightarrow> \<forall>d. x \<noteq> OpReceive d \<Longrightarrow> recv_buf (snd (mux_step mdu x m)) = recv_buf m"
  by (cases x)
    (auto simp: set_link_id_def clear_link_id_def next_session_id_def register_session_def
      drop_session_def send_def send_frame_def dispatch_def recv_def Let_def
      drop_receiver_def sender_recv_def sender_chunk_def noting_link_def
      split: option.split list.split prod.split)

lemma concerns_recv_buf:
  "\<not> concerns sid c x \<Longrightarrow> \<forall>d. x \<noteq> OpReceive d \<Longrightarrow> recv_buf (snd (mux_step mdu x m)) = recv_buf m"
  by (rule mux_step_recv_buf) (auto simp: concerns_def)

lemma handles_recv_buf: "handles mdu sid c fs m m' \<Longrightarrow> recv_buf m' = recv_buf m"
  by (induction rule: handles.induct) (simp_all add: recv_buf_dispatch concerns_recv_buf)

lemma far_ok_handles:
  assumes "handles mdu sid c fs m m'" "far_ok sid c d m r"
  shows "far_ok sid c (d @ of_session sid fs) m' r"
  using assms
proof (induction arbitrary: d rule: handles.induct)
  case (dispatched fs f m m')
  from dispatched.IH [OF far_ok_dispatch [OF dispatched.prems, of f]] show ?case
    by (cases "session_id f = sid") simp_all
next
  case (other_frame f x fs m m')
  from other_frame.IH [OF far_ok_other [OF other_frame.prems other_frame.hyps(2)]] other_frame.hyps(1)
  show ?case by simp
qed simp

section \<open>The tunnel under the relays\<close>

lemma tunnel_inv_near:
  assumes "tunnel_inv t" "data_q m = data_q (near t) @ map encode new" "sender m = sender (near t)"
    and "link_id m = link_id (near t)" "frames_wf new"
  shows "tunnel_inv (t\<lparr>near := m, accepted := accepted t @ new\<rparr>)"
proof -
  from assms(1) obtain fs where fs: "frames_wf fs" "accepted t = delivered t @ fs"
    "in_flight t = frame_stream fs" by (auto simp: tunnel_inv_def)
  with assms(2-5) have "frames_wf (fs @ new)" "accepted t @ new = delivered t @ fs @ new"
    "in_flight (t\<lparr>near := m, accepted := accepted t @ new\<rparr>) = frame_stream (fs @ new)"
    by (auto simp: in_flight_def sending_def frame_stream_def)
  with assms(1,4) show ?thesis by (auto simp: tunnel_inv_def is_connected_def)
qed

lemma tunnel_inv_far: "tunnel_inv t \<Longrightarrow> recv_buf m = recv_buf (far t) \<Longrightarrow> tunnel_inv (t\<lparr>far := m\<rparr>)"
  by (auto simp: tunnel_inv_def in_flight_def)

section \<open>Two relays at the ends of a session\<close>

text \<open>
  Any two relays of the skeleton, the near one making of a read the frame \<open>frm\<close> names.
  The invariant: the link carries what was accepted, the near relay's frames are those of
  its reads, and the far relay deals with what arrived, in order.
\<close>

definition session_ok ::
  "u32 \<Rightarrow> ('i \<Rightarrow> frame option) \<Rightarrow> nat \<Rightarrow> ('l, 'i, 'o, 'x, 'j, 'p, 'y) session_system \<Rightarrow> bool" where
  "session_ok sid frm c s \<longleftrightarrow>
     tunnel_inv (tun s) \<and> of_session sid (accepted (tun s)) = sent (near_relay s) \<and>
     near_ok sid frm (near_relay s) \<and>
     far_ok sid c (of_session sid (delivered (tun s))) (far (tun s)) (far_relay s)"

locale session_ends =
  fixes sid :: u32 and far_rx :: nat and frm :: "'i \<Rightarrow> frame option"
    and near_step :: "'l mux \<times> ('i, 'o, 'x) relay \<Rightarrow> 'l mux \<times> ('i, 'o, 'x) relay \<Rightarrow> bool"
    and far_step :: "'l mux \<times> ('j, 'p, 'y) relay \<Rightarrow> 'l mux \<times> ('j, 'p, 'y) relay \<Rightarrow> bool"
  assumes near_relay_step: "near_step (m, r) (m', r') \<Longrightarrow>
      \<exists>new. sent r' = sent r @ new \<and> data_q m' = data_q m @ map encode new \<and>
        sender m' = sender m \<and> link_id m' = link_id m \<and>
        (length (data_q m) \<le> SENDER_CAPACITY \<longrightarrow> length (data_q m') \<le> SENDER_CAPACITY)"
    and near_frames: "near_step (m, r) (m', r') \<Longrightarrow> near_ok sid frm r \<Longrightarrow> near_ok sid frm r'"
    and far_relay_step: "far_step (m', q) (m'', q') \<Longrightarrow> far_ok sid far_rx d m' q \<Longrightarrow>
      far_ok sid far_rx d m'' q' \<and> recv_buf m'' = recv_buf m'"
begin

text \<open>The near relay before the far one begins.\<close>

lemma near_run:
  assumes "(with_others near_step)\<^sup>*\<^sup>* (m, relay_start x) (m', r)"
  shows "near_ok sid frm r"
  using assms
proof (induction rule: rtranclp_induct2)
  case refl
  show ?case by (rule near_ok_start)
next
  case (step m1 r1 m2 r2)
  then show ?case by (auto elim!: with_othersE dest: near_frames)
qed

lemma ok_begin:
  assumes "session_begin near_step sid far_rx x y s"
  shows "session_ok sid frm far_rx s"
  using assms near_run far_ok_begin unfolding session_begin_def session_ok_def by metis

lemma ok_step:
  assumes "session_step mdu sid far_rx near_step far_step s s'" "0 < mdu"
    and "session_ok sid frm far_rx s"
  shows "session_ok sid frm far_rx s'"
proof -
  from assms(3) have inv: "tunnel_inv (tun s)" "of_session sid (accepted (tun s)) = sent (near_relay s)"
    and near': "near_ok sid frm (near_relay s)"
    and far': "far_ok sid far_rx (of_session sid (delivered (tun s))) (far (tun s)) (far_relay s)"
    by (simp_all add: session_ok_def)
  from assms(1) show ?thesis
  proof cases
    case (near m r)
    from near_relay_step [OF near(2)] obtain new where new:
      "sent r = sent (near_relay s) @ new" "data_q m = data_q (near (tun s)) @ map encode new"
      "sender m = sender (near (tun s))" "link_id m = link_id (near (tun s))" by blast
    from near_frames [OF near(2) near'] have ok: "near_ok sid frm r" .
    with new(1) have "frames_wf new" "of_session sid new = new" by (auto simp: near_ok_def filter_id_conv)
    with tunnel_inv_near [OF inv(1) new(2-4)] new(1) near(1) inv(2) ok far' show ?thesis
      by (simp add: session_ok_def)
  next
    case (far m r)
    from far_relay_step [OF far(2) far'] tunnel_inv_far [OF inv(1), of m] far(1) inv near' show ?thesis
      by (simp add: session_ok_def)
  next
    case link
    from tunnel_inv_step [OF take_up [OF link(2-4), of mdu sid] inv(1) assms(2)] link(1) inv(2) near' far'
    show ?thesis by (simp add: session_ok_def)
  next
    case (transmit w m)
    from tunnel_inv_step [OF tunnel_step.transmit [OF transmit(2,3), of mdu sid] inv(1) assms(2)] transmit(1)
      inv(2) near' far'
    show ?thesis by (simp add: session_ok_def)
  next
    case (arrive d w fs m m')
    have "recv_buf m' = recv_buf (fold dispatch fs m)"
      using handles_recv_buf [OF arrive(4)] by (simp add: recv_buf_dispatch_all)
    with tunnel_inv_step [OF tunnel_step.arrive [OF arrive(2,3), of mdu sid] inv(1) assms(2)] have
      "tunnel_inv ((tun s)\<lparr>wire := w, far := m', delivered := delivered (tun s) @ fs\<rparr>)"
      by (simp add: tunnel_inv_def in_flight_def)
    with arrive(1) far_ok_handles [OF arrive(4) far_ok_receive_data [OF arrive(3) far']] inv(2) near'
    show ?thesis by (simp add: session_ok_def)
  next
    case (near_sends f m)
    from tunnel_inv_step [OF submit [OF near_sends(2,3), of mdu sid] inv(1) assms(2)] near_sends(1,4)
      inv(2) near' far'
    show ?thesis by (simp add: session_ok_def)
  next
    case (near_sessions m)
    with tunnel_inv_near [OF inv(1), of m "[]"] inv(2) near' far' show ?thesis
      by (simp add: session_ok_def)
  next
    case (far_others x)
    then have "recv_buf (snd (mux_step mdu x (far (tun s)))) = recv_buf (far (tun s))"
      by (simp add: concerns_recv_buf)
    from far_others(1) tunnel_inv_far [OF inv(1) this] far_ok_other [OF far' far_others(2), of mdu] inv(2) near'
    show ?thesis by (simp add: session_ok_def)
  qed
qed

text \<open>The channel of the link sender holds the last accepted frames, and few of them.\<close>

lemma queue_step:
  assumes "session_step mdu sid far_rx near_step far_step s s'" "queue_ok s"
  shows "queue_ok s'"
proof -
  from assms(2) obtain gone q where q: "accepted (tun s) = gone @ q" "data_q (near (tun s)) = map encode q"
    "length q \<le> SENDER_CAPACITY" by (auto simp: queue_ok_def)
  from assms(1) show ?thesis
  proof cases
    case (near m r)
    from near_relay_step [OF near(2)] obtain new where new:
      "sent r = sent (near_relay s) @ new" "data_q m = data_q (near (tun s)) @ map encode new"
      "length (data_q (near (tun s))) \<le> SENDER_CAPACITY \<longrightarrow> length (data_q m) \<le> SENDER_CAPACITY" by blast
    with q near(1) show ?thesis
      unfolding queue_ok_def by (intro exI [of _ gone] exI [of _ "q @ new"]) simp
  next
    case link
    then obtain d ds where d: "data_q (near (tun s)) = d # ds" by (cases "data_q (near (tun s))") auto
    with q(2) obtain f fs where f: "q = f # fs" "ds = map encode fs" by auto
    have "data_q (sender_recv mdu (near (tun s))) = ds"
      using link(2,4) d by (auto simp: sender_recv_def is_connected_def)
    with q f link(1) show ?thesis
      unfolding queue_ok_def by (intro exI [of _ "gone @ [f]"] exI [of _ fs]) simp
  next
    case (transmit w m)
    then have "data_q m = data_q (near (tun s))"
      by (auto simp: sender_chunk_def wire_send_def split: option.splits list.splits prod.splits)
    with assms(2) transmit(1) show ?thesis by (simp add: queue_ok_def)
  next
    case (near_sends f m)
    from near_sends(2) have "data_q m = data_q (near (tun s)) @ [encode f]" "length (data_q m) \<le> SENDER_CAPACITY"
      by (auto simp: send_frame_def split: if_splits)
    with q near_sends(1) show ?thesis
      unfolding queue_ok_def by (intro exI [of _ gone] exI [of _ "q @ [f]"]) simp
  next
    case (near_sessions m)
    with assms(2) show ?thesis by (simp add: queue_ok_def)
  qed (use assms(2) in \<open>simp_all add: queue_ok_def\<close>)
qed

lemma queue_run:
  assumes "(session_step mdu sid far_rx near_step far_step)\<^sup>*\<^sup>* s s'" "queue_ok s"
  shows "queue_ok s'"
  using assms(1) by (induction rule: rtranclp_induct) (auto intro: queue_step assms(2))

lemma ok_run:
  assumes "(session_step mdu sid far_rx near_step far_step)\<^sup>*\<^sup>* s s'" "0 < mdu"
    and "session_ok sid frm far_rx s"
  shows "session_ok sid frm far_rx s'"
  using assms(1) by (induction rule: rtranclp_induct) (auto intro: ok_step assms(2,3))

text \<open>Seen from the far relay, the rest of the system is other tasks.\<close>

lemma far_projects:
  assumes "session_step mdu sid far_rx near_step far_step s s'" "0 < mdu"
    and "session_ok sid frm far_rx s"
  shows "(with_others far_step)\<^sup>*\<^sup>* (far (tun s), far_relay s) (far (tun s'), far_relay s')"
proof -
  from ok_step [OF assms] have inv: "mux_inv (far (tun s'))"
    by (simp add: session_ok_def far_ok_def)
  from assms(1) have "far_relay s' = far_relay s \<or>
      far_step (far (tun s), far_relay s) (far (tun s'), far_relay s')"
    by cases auto
  with inv show ?thesis
    by (metis r_into_rtranclp with_others.others with_others.own)
qed

lemma far_runs:
  assumes "(session_step mdu sid far_rx near_step far_step)\<^sup>*\<^sup>* s s'" "0 < mdu"
    and "session_ok sid frm far_rx s"
  shows "(with_others far_step)\<^sup>*\<^sup>* (far (tun s), far_relay s) (far (tun s'), far_relay s')"
  using assms(1)
proof (induction rule: rtranclp_induct)
  case (step s1 s2)
  from far_projects [OF step.hyps(2) assms(2) ok_run [OF step.hyps(1) assms(2,3)]] step.IH
  show ?case by simp
qed simp

text \<open>The link brings over what was accepted, with the relays standing still.\<close>

lemma link_step_lift:
  assumes "tunnel_step mdu sid (tun s) t'" "tunnel_work mdu t' < tunnel_work mdu (tun s)"
    and "accepted t' = accepted (tun s)"
  shows "session_step mdu sid far_rx near_step far_step s (s\<lparr>tun := t'\<rparr>)"
  using assms
proof cases
  case take_up
  with session_step.link show ?thesis by metis
next
  case (transmit w m)
  with session_step.transmit show ?thesis by metis
next
  case (arrive d w fs m)
  with session_step.arrive [OF arrive(2,3) handles_dispatch_all] show ?thesis by metis
qed (auto simp: tunnel_work_def split: if_splits)

lemma link_drains:
  assumes "session_ok sid frm far_rx s" "0 < mdu"
  shows "\<exists>s'. (session_step mdu sid far_rx near_step far_step)\<^sup>*\<^sup>* s s' \<and>
    delivered (tun s') = accepted (tun s') \<and> near_relay s' = near_relay s \<and> far_relay s' = far_relay s \<and>
    data_q (near (tun s')) = []"
  using assms(1)
proof (induction "tunnel_work mdu (tun s)" arbitrary: s rule: less_induct)
  case less
  from less.prems have inv: "tunnel_inv (tun s)" by (simp add: session_ok_def)
  show ?case
  proof (cases "tunnel_work mdu (tun s) = 0")
    case True
    then have "data_q (near (tun s)) = []" by (auto simp: tunnel_work_def)
    with True tunnel_drained [OF inv] show ?thesis by (intro exI [of _ s]) simp
  next
    case False
    from tunnel_progress [OF inv this] obtain t' where t': "tunnel_step mdu sid (tun s) t'"
      "tunnel_work mdu t' < tunnel_work mdu (tun s)" "accepted t' = accepted (tun s)" by blast
    let ?s = "s\<lparr>tun := t'\<rparr>"
    from link_step_lift [OF t'] have step: "session_step mdu sid far_rx near_step far_step s ?s" .
    from less.hyps [of ?s] t'(2) ok_step [OF step assms(2) less.prems] obtain s' where
      "(session_step mdu sid far_rx near_step far_step)\<^sup>*\<^sup>* ?s s'"
      "delivered (tun s') = accepted (tun s')" "near_relay s' = near_relay s" "far_relay s' = far_relay s"
      "data_q (near (tun s')) = []" by auto
    with step show ?thesis by (meson converse_rtranclp_into_rtranclp)
  qed
qed

end

text \<open>
  The far end registers the session on a link in use: frames of other sessions may be queued,
  under way and half received.
\<close>

lemma session_begin_in_use:
  assumes "tunnel_inv t" "accepted t = delivered t @ fs" "in_flight t = frame_stream fs"
    and "of_session sid fs = []" "fs = gone @ q" "data_q (near t) = map encode q" "length q \<le> SENDER_CAPACITY"
    and "mux_inv (far t)"
  shows "session_begin near_step sid (length (chans (far t))) x y
    \<lparr>tun = t\<lparr>far := register sid (far t), accepted := fs, delivered := []\<rparr>,
     near_relay = relay_start x, far_relay = relay_start y\<rparr>"
    (is "session_begin _ _ _ _ _ ?s")
proof -
  from assms(2) have "frames_wf fs" if "frames_wf gs" "accepted t = delivered t @ gs" for gs using that by simp
  with assms(1,3) have "tunnel_inv (tun ?s)"
    by (auto simp: tunnel_inv_def in_flight_def recv_buf_register)
  moreover have "queue_ok ?s" using assms(5-7) by (auto simp: queue_ok_def)
  moreover have "\<exists>m. (with_others near_step)\<^sup>*\<^sup>* (m, relay_start x) (near (tun ?s), near_relay ?s)"
    by (intro exI [of _ "near t"]) simp
  moreover have "sessions (register sid (far t)) sid = Some (length (chans (far t)))"
    by (simp add: register_def register_session_def)
  ultimately show ?thesis
    unfolding session_begin_def using assms(4,8)
    by (simp add: table.inv_register table.mailbox_register relay_start_def)
qed

lemma session_begin_init: "session_begin near_step sid 0 x y (session_init l sid x y)"
proof -
  have "mux_inv (set_link_id l mux_new)" by (simp add: mux_inv_fields)
  moreover have "tunnel_inv (tunnel_init l sid\<lparr>far := set_link_id l mux_new\<rparr>)"
    using tunnel_inv_init [of l sid]
    by (simp add: tunnel_inv_def tunnel_init_def in_flight_def recv_buf_register)
  ultimately show ?thesis
    using session_begin_in_use [of "tunnel_init l sid\<lparr>far := set_link_id l mux_new\<rparr>" "[]" sid "[]" "[]" near_step x y]
    by (simp add: tunnel_inv_def tunnel_init_def session_init_def set_link_id_def mux_new_def)
qed

text \<open>
  How far a relay reads ahead of the link: all but a few of its reads have left the channel of
  the link sender, whatever the socket has to offer.
\<close>

lemma read_ahead:
  assumes "session_ok sid frm c s" "queue_ok s"
  shows "\<exists>gone q. accepted (tun s) = gone @ q \<and> data_q (near (tun s)) = map encode q \<and>
    length (reads (near_relay s)) \<le> length (filter is_data (of_session sid gone)) + SENDER_CAPACITY + 1"
proof -
  from assms(2) obtain gone q where q: "accepted (tun s) = gone @ q" "data_q (near (tun s)) = map encode q"
    "length q \<le> SENDER_CAPACITY" by (auto simp: queue_ok_def)
  from assms(1) obtain lost where "map Some (filter is_data (sent (near_relay s))) @ lost = map frm (reads (near_relay s))"
    "length lost \<le> 1"
    by (cases "up (near_relay s)") (auto simp: session_ok_def near_ok_def)
  from this(2) arg_cong [OF this(1), of length]
  have "length (reads (near_relay s)) \<le> length (filter is_data (sent (near_relay s))) + 1" by simp
  moreover have "sent (near_relay s) = of_session sid gone @ of_session sid q"
    using assms(1) q(1) by (metis filter_append session_ok_def)
  then have "length (filter is_data (sent (near_relay s))) =
      length (filter is_data (of_session sid gone)) + length (filter is_data (of_session sid q))" by simp
  moreover have "length (filter is_data (of_session sid q)) \<le> length q"
    using length_filter_le le_trans by metis
  ultimately have "length (reads (near_relay s)) \<le> length (filter is_data (of_session sid gone)) + SENDER_CAPACITY + 1"
    using q(3) by linarith
  with q(1,2) show ?thesis by blast
qed

lemma prefix_filter: "prefix xs ys \<Longrightarrow> prefix (filter P xs) (filter P ys)"
  by (auto simp: prefix_def)

lemma prefix_concat_map: "prefix xs ys \<Longrightarrow> prefix (concat (map f xs)) (concat (map f ys))"
  by (auto simp: prefix_def)

text \<open>From one socket to the other: what the far relay dealt with is what the near relay read.\<close>

lemma session_carries:
  assumes "session_ok sid frm c s"
  shows "prefix (handled (far_relay s) @ failed (far_relay s)) (sent (near_relay s))"
    and "prefix (map Some (filter is_data (handled (far_relay s)))) (map frm (reads (near_relay s)))"
proof -
  from assms have "prefix (handled (far_relay s) @ failed (far_relay s)) (of_session sid (delivered (tun s)))"
    by (simp add: session_ok_def far_ok_def)
  moreover from assms have "prefix (delivered (tun s)) (accepted (tun s))"
    by (auto simp: session_ok_def tunnel_inv_def)
  from prefix_filter [OF this, of "\<lambda>f. session_id f = sid"] assms
  have "prefix (of_session sid (delivered (tun s))) (sent (near_relay s))"
    unfolding session_ok_def by metis
  ultimately show sent: "prefix (handled (far_relay s) @ failed (far_relay s)) (sent (near_relay s))"
    by (rule prefix_order.trans)
  from assms have "near_ok sid frm (near_relay s)" by (simp add: session_ok_def)
  from prefix_order.trans [OF map_mono_prefix [OF prefix_filter [OF append_prefixD [OF sent]]] near_ok_prefix [OF this]]
  show "prefix (map Some (filter is_data (handled (far_relay s)))) (map frm (reads (near_relay s)))" .
qed

text \<open>A step of the skeleton as the locale wants it.\<close>

lemma skeleton_near:
  assumes "relay_step abort watched locks ok torn sid c upf downf (m, r) (m', r')"
  shows "\<exists>new. sent r' = sent r @ new \<and> data_q m' = data_q m @ map encode new \<and>
    sender m' = sender m \<and> link_id m' = link_id m \<and>
    (length (data_q m) \<le> SENDER_CAPACITY \<longrightarrow> length (data_q m') \<le> SENDER_CAPACITY)"
  using relay_step_mux [OF assms] by blast

lemma skeleton_far:
  assumes "relay_step abort watched locks ok torn sid c upf downf (m, r) (m', r')" "far_ok sid c d m r"
  shows "far_ok sid c d m' r' \<and> recv_buf m' = recv_buf m"
  using relay_step_mux [OF assms(1)] far_ok_relay_step [OF assms] by blast

text \<open>
  The outputs of the far relay: with a downward task that looks at the frame alone they are
  the image of the frames it dealt with.
\<close>

lemma relay_written:
  assumes "relay_step abort watched locks ok torn sid c upf downf (m, r) (m', r')"
    and "\<And>f x. g f = (case downf f x of Write out \<Rightarrow> Some out | _ \<Rightarrow> None)"
    and "\<And>out n. torn out n = []" and "written r = List.map_filter g (handled r)"
  shows "written r' = List.map_filter g (handled r')"
  using assms(1)
proof cases
  case (down_skip f)
  with assms(2) [of f "cell r"] assms(4) show ?thesis by (simp add: List.map_filter_def)
next
  case (down_write f out)
  with assms(2) [of f "cell r"] assms(4) show ?thesis by (simp add: List.map_filter_def)
next
  case (down_break f m1)
  with assms(2) [of f "cell r"] assms(4) show ?thesis by (simp add: List.map_filter_def end_down_def)
qed (use assms(3,4) in \<open>simp_all add: end_task_simps\<close>)

lemma run_written:
  assumes "(with_others (relay_step abort watched locks ok torn sid c upf downf))\<^sup>*\<^sup>* (m, relay_start x) (m', r)"
    and "\<And>f x. g f = (case downf f x of Write out \<Rightarrow> Some out | _ \<Rightarrow> None)" "\<And>out n. torn out n = []"
  shows "written r = List.map_filter g (handled r)"
  using assms(1)
proof (induction rule: rtranclp_induct2)
  case refl
  show ?case by (simp add: relay_start_def List.map_filter_def)
next
  case (step m1 r1 m2 r2)
  from step.hyps(2) consider "relay_step abort watched locks ok torn sid c upf downf (m1, r1) (m2, r2)" | "r2 = r1"
    by (rule with_othersE)
  then show ?case
  proof cases
    case 1
    from relay_written [OF 1, of g] assms(2,3) step.IH show ?thesis by blast
  next
    case 2
    with step.IH show ?thesis by simp
  qed
qed

section \<open>A run to point at\<close>

text \<open>The near relay reads from its socket and hands the read on; the far relay still waits.\<close>

lemma session_first_read:
  fixes upf :: "'i \<Rightarrow> 'x \<Rightarrow> up_action \<times> 'x" and downf :: "frame \<Rightarrow> 'x \<Rightarrow> 'o down_action" and l :: 'l
    and far_step :: "'l mux \<times> ('j, 'p, 'y) relay \<Rightarrow> 'l mux \<times> ('j, 'p, 'y) relay \<Rightarrow> bool"
  assumes "upf i x = (UpSend f, x')" "ok i"
  shows "\<exists>s. (session_step mdu sid 0 (relay_step abort watched locks ok torn sid c upf downf) far_step)\<^sup>*\<^sup>*
      (session_init l sid x y) s \<and>
    up (near_relay s) = Reading \<and> down (far_relay s) \<and> reads (near_relay s) = [i] \<and>
    sent (near_relay s) = [f] \<and> stage (near_relay s) = Relaying \<and> far_relay s = relay_start y"
proof -
  let ?near = "relay_step abort watched locks ok torn sid c upf downf"
  define s0 where "s0 = (session_init l sid x y :: ('l, 'i, 'o, 'x, 'j, 'p, 'y) session_system)"
  define r1 where "r1 = (near_relay s0)\<lparr>up := Sending f, cell := x', reads := [i]\<rparr>"
  have r0: "near_relay s0 = relay_start x" "far_relay s0 = relay_start y" "tun s0 = tunnel_init l sid"
    by (simp_all add: s0_def session_init_def)
  have "?near (near (tun s0), near_relay s0) (near (tun s0), r1)"
    using read_frame [where r = "near_relay s0" and upf = upf and ok = ok and i = i and f = f and x = x'
        and m = "near (tun s0)" and c = c and downf = downf] assms
    by (simp add: r0 r1_def) (simp add: relay_start_def)
  note 1 = session_step.near [where s = s0 and m = "near (tun s0)" and r = r1 and near_step = ?near, OF this]
  define s1 where "s1 = s0\<lparr>tun := (tun s0)\<lparr>near := near (tun s0),
      accepted := accepted (tun s0) @ drop (length (sent (near_relay s0))) (sent r1)\<rparr>, near_relay := r1\<rparr>"
  obtain m where m: "send_frame f (near (tun s1)) = Some m"
    by (simp add: send_frame_def s1_def r0 tunnel_init_def set_link_id_def mux_new_def SENDER_CAPACITY_def)
  define r2 where "r2 = r1\<lparr>up := Reading, sent := sent r1 @ [f]\<rparr>"
  have "?near (near (tun s1), near_relay s1) (m, r2)"
    using send_done [where r = r1 and f = f and m' = m and m = "near (tun s1)" and c = c
        and upf = upf and downf = downf] m
    by (simp add: s1_def r2_def) (simp add: r1_def)
  note 2 = session_step.near [where s = s1 and m = m and r = r2 and near_step = ?near, OF this]
  define s2 where "s2 = s1\<lparr>tun := (tun s1)\<lparr>near := m,
      accepted := accepted (tun s1) @ drop (length (sent (near_relay s1))) (sent r2)\<rparr>, near_relay := r2\<rparr>"
  from 1 2 have "(session_step mdu sid 0 ?near far_step)\<^sup>*\<^sup>* s0 s2"
    unfolding s1_def s2_def by (meson converse_rtranclp_into_rtranclp r_into_rtranclp)
  moreover have "up (near_relay s2) = Reading" "down (far_relay s2)" "reads (near_relay s2) = [i]"
    "sent (near_relay s2) = [f]" "stage (near_relay s2) = Relaying" "far_relay s2 = relay_start y"
    by (simp_all add: s2_def s1_def r2_def r1_def r0) (simp_all add: relay_start_def)
  ultimately show ?thesis unfolding s0_def by blast
qed

end
