(* ===== verification/Link_Sender.thy ===== *)
theory Link_Sender
  imports Tunnel
begin

text \<open>
  The task of the link sender on its own (\<open>run_link_sender\<close>, \<open>src/mux.rs\<close>): it takes up one
  frame after the other and hands its pieces to the link, whatever the link answers. It makes
  room in its channel with or without a link, so a send that waits for room does not wait for
  ever.
\<close>

inductive sender_task ::
  "('n \<Rightarrow> 'l \<Rightarrow> bytes \<Rightarrow> u8 \<Rightarrow> bool \<times> 'n) \<Rightarrow> nat \<Rightarrow> 'n \<times> 'l mux \<Rightarrow> 'n \<times> 'l mux \<Rightarrow> bool"
  for so :: "'n \<Rightarrow> 'l \<Rightarrow> bytes \<Rightarrow> u8 \<Rightarrow> bool \<times> 'n" and mdu :: nat where
  takes: "sender_task so mdu (n, m) (n, sender_recv mdu m)"
| chunk: "sender_chunk so (n, m) = (n', m') \<Longrightarrow> sender_task so mdu (n, m) (n', m')"

lemma sender_chunk_progress:
  assumes "sender_chunk so (n, m) = (n', m')" "sender m = Some (l, cs)"
  shows "data_q m' = data_q m \<and> chans m' = chans m \<and> sessions m' = sessions m \<and>
    (sender m' = None \<or> (\<exists>cs'. sender m' = Some (l, cs') \<and> length cs' < length cs))"
  using assms
  by (cases cs) (auto simp: sender_chunk_def Let_def split: prod.splits if_splits)

lemma sender_idles:
  "\<exists>n' m'. (sender_task so mdu)\<^sup>*\<^sup>* (n, m) (n', m') \<and> sender m' = None \<and>
     data_q m' = data_q m \<and> chans m' = chans m \<and> sessions m' = sessions m"
proof (induction "case sender m of None \<Rightarrow> 0 | Some (l, cs) \<Rightarrow> Suc (length cs)" arbitrary: n m rule: less_induct)
  case less
  show ?case
  proof (cases "sender m")
    case None
    then show ?thesis by blast
  next
    case (Some lc)
    obtain l cs where lc: "lc = (l, cs)" by fastforce
    obtain n1 m1 where s: "sender_chunk so (n, m) = (n1, m1)" by fastforce
    note p = sender_chunk_progress [OF s Some [unfolded lc]]
    then have "(case sender m1 of None \<Rightarrow> 0 | Some (l, cs) \<Rightarrow> Suc (length cs)) <
        (case sender m of None \<Rightarrow> 0 | Some (l, cs) \<Rightarrow> Suc (length cs))" using Some lc by auto
    from less.hyps [OF this] obtain n' m' where "(sender_task so mdu)\<^sup>*\<^sup>* (n1, m1) (n', m')"
      "sender m' = None" "data_q m' = data_q m1" "chans m' = chans m1" "sessions m' = sessions m1" by blast
    from converse_rtranclp_into_rtranclp [OF chunk [OF s] this(1)] this(2-) p show ?thesis
      by (intro exI [of _ n'] exI [of _ m']) simp
  qed
qed

lemma sender_makes_room:
  "\<exists>n' m'. (sender_task so mdu)\<^sup>*\<^sup>* (n, m) (n', m') \<and>
    length (data_q m') < SENDER_CAPACITY \<and> chans m' = chans m \<and> sessions m' = sessions m"
proof (induction "length (data_q m)" arbitrary: n m rule: less_induct)
  case less
  show ?case
  proof (cases "length (data_q m) < SENDER_CAPACITY")
    case True
    then show ?thesis by blast
  next
    case False
    from sender_idles [of so mdu n m] obtain n1 m1 where
      1: "(sender_task so mdu)\<^sup>*\<^sup>* (n, m) (n1, m1)" "sender m1 = None"
      "data_q m1 = data_q m" "chans m1 = chans m" "sessions m1 = sessions m" by blast
    have "data_q m \<noteq> []" using False by (auto simp: SENDER_CAPACITY_def)
    with 1(3) obtain d q where q: "data_q m1 = d # q" by (metis neq_Nil_conv)
    with 1(2) have 2: "data_q (sender_recv mdu m1) = q" "chans (sender_recv mdu m1) = chans m1"
        "sessions (sender_recv mdu m1) = sessions m1"
      by (simp_all add: sender_recv_def split: option.split)
    have "length (data_q (sender_recv mdu m1)) < length (data_q m)" using 1(3) 2(1) q by (metis length_Cons lessI)
    from less [OF this, of n1] obtain n' m' where 3: "(sender_task so mdu)\<^sup>*\<^sup>* (n1, sender_recv mdu m1) (n', m')"
      "length (data_q m') < SENDER_CAPACITY" "chans m' = chans m1" "sessions m' = sessions m1" using 2 by auto
    from rtranclp_trans [OF 1(1) converse_rtranclp_into_rtranclp [OF takes 3(1)]] 3(2-4) 1(4,5) show ?thesis
      by (intro exI [of _ n'] exI [of _ m']) simp
  qed
qed

end
