(* ===== verification/Session_Drain.thy ===== *)
theory Session_Drain
  imports Session Link_Sender
begin

text \<open>
  Progress of a session, whatever its two relays are: the locale \<open>session_ends\<close> of the theory
  Session with what a far relay can do by itself. While the far relay receives, all that the
  near one has sent can be brought over and dealt with; once the near relay has left its
  \<open>select!\<close>, its CLOSE comes through and both ends drop the session.
\<close>

section \<open>What does not move\<close>

text \<open>The near end, and what the link has carried.\<close>

definition near_still ::
  "('l, 'i, 'o, 'x, 'j, 'p, 'y) session_system \<Rightarrow> ('l, 'i, 'o, 'x, 'j, 'p, 'y) session_system \<Rightarrow> bool" where
  "near_still s s' \<longleftrightarrow>
     near_relay s' = near_relay s \<and> near (tun s') = near (tun s) \<and> accepted (tun s') = accepted (tun s) \<and>
     delivered (tun s') = delivered (tun s)"

lemma near_still_refl [simp]: "near_still s s"
  by (simp add: near_still_def)

lemma near_still_trans: "near_still s s' \<Longrightarrow> near_still s' s'' \<Longrightarrow> near_still s s''"
  by (simp add: near_still_def)

text \<open>The far relay but for its upward task.\<close>

definition far_waits :: "('j, 'p, 'y) relay \<Rightarrow> ('j, 'p, 'y) relay \<Rightarrow> bool" where
  "far_waits q q' \<longleftrightarrow>
     down q' = down q \<and> stage q' = stage q \<and> cell q' = cell q \<and> handled q' = handled q \<and> written q' = written q"

definition up_sending :: "('i, 'o, 'x) relay \<Rightarrow> bool" where
  "up_sending r \<longleftrightarrow> (\<exists>f. up r = Sending f)"

definition option_list :: "'a option \<Rightarrow> 'a list" where
  "option_list x = (case x of Some a \<Rightarrow> [a] | None \<Rightarrow> [])"

section \<open>Room at the far end\<close>

context session_ends
begin

lemma far_steps: "far_step (far (tun s), far_relay s) (m, r) \<Longrightarrow>
  session_step mdu sid far_rx near_step far_step s (s\<lparr>tun := (tun s)\<lparr>far := m\<rparr>, far_relay := r\<rparr>)"
  by (rule session_step.far)

lemma near_steps: "near_step (near (tun s), near_relay s) (m, r) \<Longrightarrow>
  session_step mdu sid far_rx near_step far_step s
    (s\<lparr>tun := (tun s)\<lparr>near := m, accepted := accepted (tun s) @ drop (length (sent (near_relay s))) (sent r)\<rparr>,
       near_relay := r\<rparr>)"
  by (rule session_step.near)

lemma far_sender_runs:
  assumes "(sender_task (\<lambda>n l ch ctx. (True, n)) mdu)\<^sup>*\<^sup>* (u :: unit, far (tun s)) (u', m)"
  shows "(session_step mdu sid far_rx near_step far_step)\<^sup>*\<^sup>* s (s\<lparr>tun := (tun s)\<lparr>far := m\<rparr>\<rparr>)"
  using assms
proof (induction rule: rtranclp_induct2)
  case (step u1 m1 u2 m2)
  let ?s = "s\<lparr>tun := (tun s)\<lparr>far := m1\<rparr>\<rparr>"
  have others: "session_step mdu sid far_rx near_step far_step ?s (s\<lparr>tun := (tun s)\<lparr>far := snd (mux_step mdu x m1)\<rparr>\<rparr>)"
    if "\<not> concerns sid far_rx x" "\<forall>d. x \<noteq> OpReceive d" for x
    using session_step.far_others [of sid far_rx x mdu near_step far_step ?s] that by simp
  from step.hyps(2) have "session_step mdu sid far_rx near_step far_step ?s (s\<lparr>tun := (tun s)\<lparr>far := m2\<rparr>\<rparr>)"
  proof cases
    case takes
    with others [of OpTakeUp] show ?thesis by (simp add: concerns_def)
  next
    case chunk
    then have "m2 = snd (mux_step mdu (OpChunk True) m1)"
      by (auto simp: sender_chunk_def noting_link_def split: option.splits list.splits prod.splits)
    with others [of "OpChunk True"] show ?thesis by (simp add: concerns_def)
  qed
  with step.IH show ?case by (rule rtranclp.rtrancl_into_rtrancl)
qed simp

lemma far_room:
  "\<exists>m. (session_step mdu sid far_rx near_step far_step)\<^sup>*\<^sup>* s (s\<lparr>tun := (tun s)\<lparr>far := m\<rparr>\<rparr>) \<and>
    length (data_q m) < SENDER_CAPACITY \<and> chans m = chans (far (tun s)) \<and> sessions m = sessions (far (tun s))"
  using sender_makes_room [of "\<lambda>n l ch ctx. (True, n)" mdu "()" "far (tun s)"] far_sender_runs by blast

text \<open>What is queued for a far relay that is still there is what it has yet to deal with.\<close>

lemma far_queue:
  assumes "session_ok sid frm far_rx s" "down (far_relay s)" "stage (far_relay s) \<noteq> Ended"
  shows "handled (far_relay s) @ cq (chans (far (tun s)) ! far_rx) = of_session sid (delivered (tun s))"
proof -
  from assms(1) have "far_ok sid far_rx (of_session sid (delivered (tun s))) (far (tun s)) (far_relay s)"
    by (simp add: session_ok_def)
  from far_okD(6,7) [OF this assms(2)] assms(3) show ?thesis by simp
qed

end

section \<open>A far relay that takes what is queued\<close>

text \<open>
  \<open>ready\<close> names the frames its downward task gets on with, given the shared cell, and \<open>out\<close>
  what it writes for one.
\<close>

locale draining_ends = session_ends sid far_rx frm near_step far_step + fr: closing_relay sid far_step
  for sid :: u32 and far_rx :: nat and frm :: "'i \<Rightarrow> frame option"
    and near_step :: "'l mux \<times> ('i, 'o, 'x) relay \<Rightarrow> 'l mux \<times> ('i, 'o, 'x) relay \<Rightarrow> bool"
    and far_step :: "'l mux \<times> ('j, 'p, 'y) relay \<Rightarrow> 'l mux \<times> ('j, 'p, 'y) relay \<Rightarrow> bool" +
  fixes ready :: "frame \<Rightarrow> 'y \<Rightarrow> bool" and out :: "frame \<Rightarrow> 'y \<Rightarrow> 'p option"
  assumes far_takes: "down q \<Longrightarrow> \<not> up_sending q \<Longrightarrow> recv far_rx m = (Got f, m') \<Longrightarrow> ready f (cell q) \<Longrightarrow>
      \<exists>q'. far_step (m, q) (m', q') \<and> handled q' = handled q @ [f] \<and> down q' \<and> up q' = up q \<and>
        stage q' = stage q \<and> cell q' = cell q \<and> written q' = written q @ option_list (out f (cell q))"
begin

lemma far_settles:
  assumes "session_ok sid frm far_rx s" "0 < mdu"
  shows "\<exists>s'. (session_step mdu sid far_rx near_step far_step)\<^sup>*\<^sup>* s s' \<and> session_ok sid frm far_rx s' \<and>
    near_still s s' \<and> far_waits (far_relay s) (far_relay s') \<and> \<not> up_sending (far_relay s')"
proof (cases "up_sending (far_relay s)")
  case False
  with assms(1) show ?thesis by (intro exI [of _ s]) (simp add: far_waits_def)
next
  case True
  then obtain f where f: "up (far_relay s) = Sending f" by (auto simp: up_sending_def)
  from far_room [of mdu s] obtain m where m: "(session_step mdu sid far_rx near_step far_step)\<^sup>*\<^sup>* s (s\<lparr>tun := (tun s)\<lparr>far := m\<rparr>\<rparr>)"
    "length (data_q m) < SENDER_CAPACITY" by blast
  let ?r = "(far_relay s)\<lparr>up := Reading, sent := sent (far_relay s) @ [f]\<rparr>"
  from fr.sends_with_room [OF f m(2)] obtain m' where m': "far_step (m, far_relay s) (m', ?r)" by blast
  let ?s = "s\<lparr>tun := (tun s)\<lparr>far := m'\<rparr>, far_relay := ?r\<rparr>"
  from far_steps [of "s\<lparr>tun := (tun s)\<lparr>far := m\<rparr>\<rparr>" m' ?r mdu] m' rtranclp.rtrancl_into_rtrancl [OF m(1)]
  have run: "(session_step mdu sid far_rx near_step far_step)\<^sup>*\<^sup>* s ?s" by simp
  from ok_run [OF run assms(2,1)] run show ?thesis
    by (intro exI [of _ ?s]) (simp add: near_still_def far_waits_def up_sending_def)
qed

lemma far_takes_step:
  assumes "session_ok sid frm far_rx s" "down (far_relay s)" "\<not> up_sending (far_relay s)" "0 < mdu"
    and "cq (chans (far (tun s)) ! far_rx) = f # q" "ready f (cell (far_relay s))"
  shows "\<exists>s'. session_step mdu sid far_rx near_step far_step s s' \<and> session_ok sid frm far_rx s' \<and>
    near_still s s' \<and> cq (chans (far (tun s')) ! far_rx) = q \<and> handled (far_relay s') = handled (far_relay s) @ [f] \<and>
    down (far_relay s') \<and> up (far_relay s') = up (far_relay s) \<and> stage (far_relay s') = stage (far_relay s) \<and>
    cell (far_relay s') = cell (far_relay s) \<and>
    written (far_relay s') = written (far_relay s) @ option_list (out f (cell (far_relay s)))"
proof -
  from assms(1,2) have len: "far_rx < length (chans (far (tun s)))"
    by (auto simp: session_ok_def far_ok_def feeds_def)
  obtain m where m: "recv far_rx (far (tun s)) = (Got f, m)" "cq (chans m ! far_rx) = q"
    using assms(5) len by (simp add: recv_def)
  from far_takes [OF assms(2,3) m(1) assms(6)] obtain r where r: "far_step (far (tun s), far_relay s) (m, r)"
    "handled r = handled (far_relay s) @ [f]" "down r" "up r = up (far_relay s)" "stage r = stage (far_relay s)"
    "cell r = cell (far_relay s)" "written r = written (far_relay s) @ option_list (out f (cell (far_relay s)))" by blast
  from far_steps [OF r(1)] have step: "session_step mdu sid far_rx near_step far_step s
      (s\<lparr>tun := (tun s)\<lparr>far := m\<rparr>, far_relay := r\<rparr>)" .
  from ok_step [OF step assms(4,1)] step m(2) r(2-) show ?thesis
    by (intro exI [of _ "s\<lparr>tun := (tun s)\<lparr>far := m\<rparr>, far_relay := r\<rparr>"]) (simp add: near_still_def)
qed

lemma far_takes_all:
  assumes "session_ok sid frm far_rx s" "down (far_relay s)" "\<not> up_sending (far_relay s)" "0 < mdu"
    and "cq (chans (far (tun s)) ! far_rx) = fs @ gs" "\<forall>f\<in>set fs. ready f (cell (far_relay s))"
  shows "\<exists>s'. (session_step mdu sid far_rx near_step far_step)\<^sup>*\<^sup>* s s' \<and> session_ok sid frm far_rx s' \<and>
    near_still s s' \<and> cq (chans (far (tun s')) ! far_rx) = gs \<and> handled (far_relay s') = handled (far_relay s) @ fs \<and>
    down (far_relay s') \<and> up (far_relay s') = up (far_relay s) \<and> stage (far_relay s') = stage (far_relay s) \<and>
    cell (far_relay s') = cell (far_relay s) \<and>
    written (far_relay s') = written (far_relay s) @ List.map_filter (\<lambda>f. out f (cell (far_relay s))) fs"
  using assms
proof (induction fs arbitrary: s)
  case Nil
  then show ?case by (intro exI [of _ s]) (simp add: List.map_filter_def)
next
  case (Cons f fs)
  from far_takes_step [OF Cons.prems(1-4), of f "fs @ gs"] Cons.prems(5,6) obtain s1 where
    s1: "session_step mdu sid far_rx near_step far_step s s1" "session_ok sid frm far_rx s1" "near_still s s1"
    "cq (chans (far (tun s1)) ! far_rx) = fs @ gs" "handled (far_relay s1) = handled (far_relay s) @ [f]"
    "down (far_relay s1)" "up (far_relay s1) = up (far_relay s)" "stage (far_relay s1) = stage (far_relay s)"
    "cell (far_relay s1) = cell (far_relay s)"
    "written (far_relay s1) = written (far_relay s) @ option_list (out f (cell (far_relay s)))" by auto
  from Cons.IH [OF s1(2,6) _ Cons.prems(4) s1(4)] Cons.prems(3,6) s1(7,9) obtain s' where
    s': "(session_step mdu sid far_rx near_step far_step)\<^sup>*\<^sup>* s1 s'" "session_ok sid frm far_rx s'"
    "near_still s1 s'" "cq (chans (far (tun s')) ! far_rx) = gs" "handled (far_relay s') = handled (far_relay s1) @ fs"
    "down (far_relay s')" "up (far_relay s') = up (far_relay s1)" "stage (far_relay s') = stage (far_relay s1)"
    "cell (far_relay s') = cell (far_relay s1)"
    "written (far_relay s') = written (far_relay s1) @ List.map_filter (\<lambda>f. out f (cell (far_relay s1))) fs"
    by (auto simp: up_sending_def)
  from converse_rtranclp_into_rtranclp [OF s1(1) s'(1)] near_still_trans [OF s1(3) s'(3)] s'(2,4-) s1(5,7-10)
  show ?case by (intro exI [of _ s']) (simp add: option_list_def split: option.split)
qed

text \<open>All that was sent and that the far relay gets on with is dealt with.\<close>

lemma drains:
  assumes "session_ok sid frm far_rx s" "0 < mdu" "down (far_relay s)" "stage (far_relay s) \<noteq> Ended"
    and "sent (near_relay s) = handled (far_relay s) @ fs @ gs" "\<forall>f\<in>set fs. ready f (cell (far_relay s))"
  shows "\<exists>s'. (session_step mdu sid far_rx near_step far_step)\<^sup>*\<^sup>* s s' \<and> session_ok sid frm far_rx s' \<and>
    near_relay s' = near_relay s \<and> cq (chans (far (tun s')) ! far_rx) = gs \<and>
    handled (far_relay s') = handled (far_relay s) @ fs \<and> down (far_relay s') \<and> \<not> up_sending (far_relay s') \<and>
    stage (far_relay s') = stage (far_relay s) \<and> cell (far_relay s') = cell (far_relay s) \<and>
    written (far_relay s') = written (far_relay s) @ List.map_filter (\<lambda>f. out f (cell (far_relay s))) fs"
proof -
  from link_drains [OF assms(1,2)] obtain s1 where s1: "(session_step mdu sid far_rx near_step far_step)\<^sup>*\<^sup>* s s1"
    "delivered (tun s1) = accepted (tun s1)" "near_relay s1 = near_relay s" "far_relay s1 = far_relay s" by blast
  from far_settles [OF ok_run [OF s1(1) assms(2,1)] assms(2)] obtain s2 where
    s2: "(session_step mdu sid far_rx near_step far_step)\<^sup>*\<^sup>* s1 s2" "session_ok sid frm far_rx s2"
    "near_still s1 s2" "far_waits (far_relay s1) (far_relay s2)" "\<not> up_sending (far_relay s2)" by blast
  note far2 = s2(4) [unfolded far_waits_def s1(4)]
  from far2 assms(3,4) have "down (far_relay s2)" "stage (far_relay s2) \<noteq> Ended" by simp_all
  from far_queue [OF s2(2) this] have "handled (far_relay s2) @ cq (chans (far (tun s2)) ! far_rx) = sent (near_relay s2)"
    using s2(2,3) s1(2) by (simp add: near_still_def session_ok_def)
  with s2(3) s1(3) far2 assms(5) have cq: "cq (chans (far (tun s2)) ! far_rx) = fs @ gs" by (simp add: near_still_def)
  from far_takes_all [OF s2(2) \<open>down (far_relay s2)\<close> s2(5) assms(2) cq] far2 assms(6) obtain s' where
    s': "(session_step mdu sid far_rx near_step far_step)\<^sup>*\<^sup>* s2 s'" "session_ok sid frm far_rx s'"
    "near_still s2 s'" "cq (chans (far (tun s')) ! far_rx) = gs" "handled (far_relay s') = handled (far_relay s2) @ fs"
    "down (far_relay s')" "up (far_relay s') = up (far_relay s2)" "stage (far_relay s') = stage (far_relay s2)"
    "cell (far_relay s') = cell (far_relay s2)"
    "written (far_relay s') = written (far_relay s2) @ List.map_filter (\<lambda>f. out f (cell (far_relay s2))) fs" by auto
  from rtranclp_trans [OF s1(1) rtranclp_trans [OF s2(1) s'(1)]] s'(2-) s2(3,5) far2 s1(3) show ?thesis
    by (intro exI [of _ s']) (simp add: near_still_def up_sending_def)
qed

end

section \<open>The end of a session\<close>

text \<open>
  What is sent before the CLOSE. A relay whose tasks are not aborted may send DATA behind it,
  which the other end does not deal with any more.
\<close>

definition before_close :: "frame list \<Rightarrow> frame list" where
  "before_close fs = takeWhile is_data fs"

lemma filter_before_close [simp]: "filter is_data (before_close fs) = before_close fs"
  unfolding before_close_def by (rule filter_True) (meson set_takeWhileD)

lemma own_frames_data:
  assumes "own_frames sid r" "f \<in> set (sent r)"
  shows "is_data f \<longleftrightarrow> \<not> is_close f"
proof -
  from assms have "is_data f \<or> f = frame_new Close sid []" by (simp add: own_frames_def)
  then show ?thesis by auto
qed

lemma before_close_split:
  assumes "own_frames sid r" "stage r = Dropping \<or> stage r = Ended"
  shows "\<exists>rest. sent r = before_close (sent r) @ frame_new Close sid [] # rest"
proof -
  from assms have "filter is_close (sent r) \<noteq> []" by (auto simp: own_frames_def closed_once_def)
  with own_frames_data [OF assms(1)] have "\<not> (\<forall>f\<in>set (sent r). is_data f)" by (auto simp: filter_empty_conv)
  then have "dropWhile is_data (sent r) \<noteq> []" by simp
  then obtain f rest where f: "dropWhile is_data (sent r) = f # rest" by (meson neq_Nil_conv)
  with hd_dropWhile [of is_data "sent r"] have "\<not> is_data f" by simp
  moreover from f have "f \<in> set (sent r)" by (metis list.set_intros(1) set_dropWhileD)
  ultimately have "f = frame_new Close sid []" using assms(1) by (auto simp: own_frames_def)
  with f takeWhile_dropWhile_id [of is_data "sent r"] show ?thesis by (metis before_close_def)
qed

lemma before_close_all:
  assumes "own_frames sid r" "stage r = Relaying \<or> stage r = Closing"
  shows "before_close (sent r) = sent r"
proof -
  from assms have "filter is_close (sent r) = []" by (auto simp: own_frames_def closed_once_def)
  with own_frames_data [OF assms(1)] have "\<forall>f\<in>set (sent r). is_data f" by (auto simp: filter_empty_conv)
  then show ?thesis by (simp add: before_close_def takeWhile_eq_all_conv)
qed

text \<open>While a relay receives, no CLOSE has come.\<close>

lemma receiving_no_close:
  assumes "(with_others (relay_step abort watched locks ok torn sid c upf downf))\<^sup>*\<^sup>* (m, relay_start x) (m', r)"
    and "\<And>f x. is_close f \<Longrightarrow> downf f x = Break" "down r"
  shows "\<forall>f\<in>set (handled r). \<not> is_close f"
proof -
  from assms(1) have "down r \<longrightarrow> (\<forall>f\<in>set (handled r). \<not> is_close f)"
  proof (induction rule: rtranclp_induct2)
    case refl
    show ?case by (simp add: relay_start_def)
  next
    case (step m1 r1 m2 r2)
    from step.hyps(2) consider "relay_step abort watched locks ok torn sid c upf downf (m1, r1) (m2, r2)" | "r2 = r1"
      by (rule with_othersE)
    then show ?case
    proof cases
      case 1
      then show ?thesis
      proof cases
        case (down_skip f)
        with assms(2) [of f "cell r1"] step.IH show ?thesis by auto
      next
        case (down_write f out)
        with assms(2) [of f "cell r1"] step.IH show ?thesis by auto
      qed (use step.IH in \<open>auto simp: end_task_simps leave_select_def split: if_splits\<close>)
    next
      case 2
      with step.IH show ?thesis by simp
    qed
  qed
  with assms(3) show ?thesis by blast
qed

text \<open>Then all it dealt with is a front part of what was sent before the CLOSE.\<close>

lemma handled_before_close:
  assumes "prefix (handled q @ failed q) (sent r)" "own_frames sid r" "\<forall>f\<in>set (handled q). \<not> is_close f"
  shows "\<exists>fs. before_close (sent r) = handled q @ fs"
proof -
  from append_prefixD [OF assms(1)] obtain rest where rest: "sent r = handled q @ rest" by (auto simp: prefix_def)
  with own_frames_data [OF assms(2)] assms(3) have "\<forall>f\<in>set (handled q). is_data f" by auto
  with rest show ?thesis by (simp add: before_close_def)
qed

text \<open>As long as \<open>select!\<close> waits, a relay receives.\<close>

lemma relaying_receives:
  assumes "(with_others (relay_step abort watched locks ok torn sid c upf downf))\<^sup>*\<^sup>* (m, relay_start x) (m', r)"
  shows "stage r = Relaying \<longrightarrow> down r"
  using assms
proof (induction rule: rtranclp_induct2)
  case refl
  show ?case by (simp add: relay_start_def)
next
  case (step m1 r1 m2 r2)
  then show ?case by (auto elim!: with_othersE dest: relaying_step)
qed

text \<open>
  A far relay that leaves its \<open>select!\<close> on a frame it does not get on with, as on a CLOSE, and a
  near relay that can send one.
\<close>

locale ending_ends = draining_ends sid far_rx frm near_step far_step ready out + nr: closing_relay sid near_step
  for sid :: u32 and far_rx :: nat and frm :: "'i \<Rightarrow> frame option"
    and near_step :: "'l mux \<times> ('i, 'o, 'x) relay \<Rightarrow> 'l mux \<times> ('i, 'o, 'x) relay \<Rightarrow> bool"
    and far_step :: "'l mux \<times> ('j, 'p, 'y) relay \<Rightarrow> 'l mux \<times> ('j, 'p, 'y) relay \<Rightarrow> bool"
    and ready :: "frame \<Rightarrow> 'y \<Rightarrow> bool" and out :: "frame \<Rightarrow> 'y \<Rightarrow> 'p option" +
  assumes far_breaks: "down q \<Longrightarrow> stage q = Relaying \<Longrightarrow> recv far_rx m = (Got f, m') \<Longrightarrow> \<not> ready f (cell q) \<Longrightarrow>
      \<exists>m'' q'. far_step (m, q) (m'', q') \<and> stage q' = Closing \<and> handled q' = handled q @ [f] \<and>
        written q' = written q"
    and close_breaks: "is_close f \<Longrightarrow> \<not> ready f y"
begin

lemma near_says_close:
  assumes "session_ok sid frm far_rx s" "0 < mdu" "own_frames sid (near_relay s)"
    and "stage (near_relay s) \<noteq> Relaying"
  shows "\<exists>s'. (session_step mdu sid far_rx near_step far_step)\<^sup>*\<^sup>* s s' \<and> session_ok sid frm far_rx s' \<and>
    far_relay s' = far_relay s \<and> own_frames sid (near_relay s') \<and>
    before_close (sent (near_relay s')) = before_close (sent (near_relay s)) \<and>
    (stage (near_relay s') = Dropping \<or> stage (near_relay s') = Ended \<and> stage (near_relay s) = Ended)"
proof (cases "stage (near_relay s) = Closing")
  case False
  with assms(4) have "stage (near_relay s) = Dropping \<or> stage (near_relay s) = Ended" using stage.exhaust by blast
  with assms(1,3) show ?thesis by (intro exI [of _ s]) auto
next
  case True
  from link_drains [OF assms(1,2)] obtain s1 where s1: "(session_step mdu sid far_rx near_step far_step)\<^sup>*\<^sup>* s s1"
    "near_relay s1 = near_relay s" "far_relay s1 = far_relay s" "data_q (near (tun s1)) = []" by blast
  let ?r = "(near_relay s1)\<lparr>stage := Dropping, sent := sent (near_relay s1) @ [frame_new Close sid []]\<rparr>"
  from nr.closes_with_room [of "near_relay s1" "near (tun s1)"] True s1(2,4) obtain m where
    m: "near_step (near (tun s1), near_relay s1) (m, ?r)" by (auto simp: SENDER_CAPACITY_def)
  from near_steps [OF m, of mdu] rtranclp.rtrancl_into_rtrancl [OF s1(1)]
  have run: "(session_step mdu sid far_rx near_step far_step)\<^sup>*\<^sup>* s (s1\<lparr>tun := (tun s1)\<lparr>near := m,
      accepted := accepted (tun s1) @ drop (length (sent (near_relay s1))) (sent ?r)\<rparr>, near_relay := ?r\<rparr>)" by blast
  have "before_close (sent (near_relay s) @ [frame_new Close sid []]) = before_close (sent (near_relay s))"
  proof -
    have all: "before_close (sent (near_relay s)) = sent (near_relay s)"
      using before_close_all [OF assms(3)] True by blast
    then have "\<forall>f\<in>set (sent (near_relay s)). is_data f" by (simp add: before_close_def takeWhile_eq_all_conv)
    then show ?thesis unfolding all by (simp add: before_close_def)
  qed
  with ok_run [OF run assms(2,1)] run nr.step_own [OF m] assms(3) s1(2,3) show ?thesis
    by (intro exI [of _ "s1\<lparr>tun := (tun s1)\<lparr>near := m,
      accepted := accepted (tun s1) @ drop (length (sent (near_relay s1))) (sent ?r)\<rparr>, near_relay := ?r\<rparr>"]) simp
qed

lemma near_drops:
  assumes "stage (near_relay s) = Dropping"
  shows "\<exists>s'. session_step mdu sid far_rx near_step far_step s s' \<and> stage (near_relay s') = Ended \<and>
    sessions (near (tun s')) sid = None \<and> far_relay s' = far_relay s \<and> far (tun s') = far (tun s)"
proof -
  let ?r = "(near_relay s)\<lparr>stage := Ended\<rparr>"
  from near_steps [OF nr.step_drops [OF assms], of mdu] show ?thesis
    by (intro exI [of _ "s\<lparr>tun := (tun s)\<lparr>near := drop_session sid (near (tun s)),
      accepted := accepted (tun s) @ drop (length (sent (near_relay s))) (sent ?r)\<rparr>, near_relay := ?r\<rparr>"])
      (simp add: drop_session_def)
qed

text \<open>A far relay that has left its \<open>select!\<close> sends its CLOSE, unless it has, and drops the session.\<close>

lemma far_finishes:
  assumes "stage (far_relay s) \<noteq> Relaying"
  shows "\<exists>s'. (session_step mdu sid far_rx near_step far_step)\<^sup>*\<^sup>* s s' \<and> near_relay s' = near_relay s \<and>
    handled (far_relay s') = handled (far_relay s) \<and> stage (far_relay s') = Ended \<and>
    written (far_relay s') = written (far_relay s) \<and>
    (stage (far_relay s) \<noteq> Ended \<longrightarrow> sessions (far (tun s')) sid = None)"
proof -
  let ?R = "session_step mdu sid far_rx near_step far_step"
  have drops: "?R\<^sup>*\<^sup>* u (u\<lparr>tun := (tun u)\<lparr>far := drop_session sid (far (tun u))\<rparr>, far_relay := (far_relay u)\<lparr>stage := Ended\<rparr>\<rparr>)"
    if "stage (far_relay u) = Dropping" for u
    using far_steps [OF fr.step_drops [OF that], of mdu] by blast
  consider "stage (far_relay s) = Closing" | "stage (far_relay s) = Dropping" | "stage (far_relay s) = Ended"
    using assms stage.exhaust by blast
  then show ?thesis
  proof cases
    case 1
    from far_room [of mdu s] obtain m where m: "?R\<^sup>*\<^sup>* s (s\<lparr>tun := (tun s)\<lparr>far := m\<rparr>\<rparr>)" "length (data_q m) < SENDER_CAPACITY" by blast
    let ?q = "(far_relay s)\<lparr>stage := Dropping, sent := sent (far_relay s) @ [frame_new Close sid []]\<rparr>"
    from fr.closes_with_room [OF 1 m(2)] obtain m1 where m1: "far_step (m, far_relay s) (m1, ?q)" by blast
    let ?s1 = "s\<lparr>tun := (tun s)\<lparr>far := m1\<rparr>, far_relay := ?q\<rparr>"
    from far_steps [of "s\<lparr>tun := (tun s)\<lparr>far := m\<rparr>\<rparr>" m1 ?q mdu] m1 rtranclp.rtrancl_into_rtrancl [OF m(1)]
    have "?R\<^sup>*\<^sup>* s ?s1" by simp
    from rtranclp_trans [OF this drops [of ?s1]] 1 show ?thesis
      by (intro exI conjI) (assumption | simp add: drop_session_def)+
  next
    case 2
    from drops [OF 2] 2 show ?thesis by (intro exI conjI) (assumption | simp add: drop_session_def)+
  qed auto
qed

text \<open>A frame at the front of the queue that it does not get on with, and what follows it.\<close>

lemma far_ends:
  assumes "session_ok sid frm far_rx s" "down (far_relay s)" "stage (far_relay s) = Relaying"
    and "cq (chans (far (tun s)) ! far_rx) = f # q" "\<not> ready f (cell (far_relay s))"
  shows "\<exists>s'. (session_step mdu sid far_rx near_step far_step)\<^sup>*\<^sup>* s s' \<and> near_relay s' = near_relay s \<and>
    handled (far_relay s') = handled (far_relay s) @ [f] \<and> stage (far_relay s') = Ended \<and>
    written (far_relay s') = written (far_relay s) \<and> sessions (far (tun s')) sid = None"
proof -
  from assms(1,2) have len: "far_rx < length (chans (far (tun s)))"
    by (auto simp: session_ok_def far_ok_def feeds_def)
  obtain m where m: "recv far_rx (far (tun s)) = (Got f, m)" using assms(4) len by (simp add: recv_def)
  from far_breaks [OF assms(2,3) m assms(5)] obtain m1 q1 where 1: "far_step (far (tun s), far_relay s) (m1, q1)"
    "stage q1 = Closing" "handled q1 = handled (far_relay s) @ [f]" "written q1 = written (far_relay s)" by blast
  let ?s1 = "s\<lparr>tun := (tun s)\<lparr>far := m1\<rparr>, far_relay := q1\<rparr>"
  from far_finishes [of ?s1 mdu] 1(2-4) obtain s' where s': "(session_step mdu sid far_rx near_step far_step)\<^sup>*\<^sup>* ?s1 s'"
    "near_relay s' = near_relay s" "handled (far_relay s') = handled (far_relay s) @ [f]" "stage (far_relay s') = Ended"
    "written (far_relay s') = written (far_relay s)" "sessions (far (tun s')) sid = None" by auto
  from converse_rtranclp_into_rtranclp [OF far_steps [OF 1(1)] s'(1)] s'(2-) show ?thesis by blast
qed

text \<open>
  When the near relay has left its \<open>select!\<close> and the far one still relays, there is a run in
  which the far one deals with all that was sent before the CLOSE, and both end.
\<close>

lemma ending_frames_end:
  assumes ok: "session_ok sid frm far_rx s" and mdu: "0 < mdu" and own: "own_frames sid (near_relay s)"
    and near: "stage (near_relay s) \<noteq> Relaying" and far: "down (far_relay s)" "stage (far_relay s) = Relaying"
    and open_far: "\<forall>f\<in>set (handled (far_relay s)). \<not> is_close f"
    and ready: "\<forall>f\<in>set (before_close (sent (near_relay s))). ready f (cell (far_relay s))"
  shows "\<exists>s'. (session_step mdu sid far_rx near_step far_step)\<^sup>*\<^sup>* s s' \<and> stage (near_relay s') = Ended \<and>
    stage (far_relay s') = Ended \<and> sessions (far (tun s')) sid = None \<and>
    (stage (near_relay s) \<noteq> Ended \<longrightarrow> sessions (near (tun s')) sid = None) \<and>
    handled (far_relay s') = before_close (sent (near_relay s)) @ [frame_new Close sid []] \<and>
    written (far_relay s') = written (far_relay s) @ List.map_filter (\<lambda>f. out f (cell (far_relay s)))
      (drop (length (handled (far_relay s))) (before_close (sent (near_relay s))))"
proof -
  from near_says_close [OF ok mdu own near] obtain s1 where s1: "(session_step mdu sid far_rx near_step far_step)\<^sup>*\<^sup>* s s1"
    "session_ok sid frm far_rx s1" "far_relay s1 = far_relay s" "own_frames sid (near_relay s1)"
    "before_close (sent (near_relay s1)) = before_close (sent (near_relay s))"
    "stage (near_relay s1) = Dropping \<or> stage (near_relay s1) = Ended \<and> stage (near_relay s) = Ended" by blast
  from s1(6) have "stage (near_relay s1) = Dropping \<or> stage (near_relay s1) = Ended" by blast
  from before_close_split [OF s1(4) this] obtain rest where
    rest: "sent (near_relay s1) = before_close (sent (near_relay s)) @ frame_new Close sid [] # rest"
    unfolding s1(5) by blast
  from handled_before_close [OF session_carries(1) [OF s1(2)] s1(4)] open_far s1(3,5) obtain fs where
    fs: "before_close (sent (near_relay s)) = handled (far_relay s) @ fs" by auto
  with drains [OF s1(2) mdu, of fs "frame_new Close sid [] # rest"] rest s1(3) far ready obtain s2 where
    s2: "(session_step mdu sid far_rx near_step far_step)\<^sup>*\<^sup>* s1 s2" "session_ok sid frm far_rx s2"
    "near_relay s2 = near_relay s1" "cq (chans (far (tun s2)) ! far_rx) = frame_new Close sid [] # rest"
    "handled (far_relay s2) = handled (far_relay s) @ fs" "down (far_relay s2)" "stage (far_relay s2) = Relaying"
    "written (far_relay s2) = written (far_relay s) @ List.map_filter (\<lambda>f. out f (cell (far_relay s))) fs" by auto
  from far_ends [OF s2(2,6,7,4) close_breaks] obtain s3 where
    s3: "(session_step mdu sid far_rx near_step far_step)\<^sup>*\<^sup>* s2 s3" "near_relay s3 = near_relay s2"
    "handled (far_relay s3) = handled (far_relay s2) @ [frame_new Close sid []]" "stage (far_relay s3) = Ended"
    "written (far_relay s3) = written (far_relay s2)" "sessions (far (tun s3)) sid = None" by auto
  note run = rtranclp_trans [OF s1(1) rtranclp_trans [OF s2(1) s3(1)]]
  from s1(6) show ?thesis
  proof
    assume "stage (near_relay s1) = Dropping"
    with s2(3) s3(2) near_drops [of s3 mdu] obtain s4 where s4: "session_step mdu sid far_rx near_step far_step s3 s4"
      "stage (near_relay s4) = Ended" "sessions (near (tun s4)) sid = None" "far_relay s4 = far_relay s3"
      "far (tun s4) = far (tun s3)" by auto
    from rtranclp.rtrancl_into_rtrancl [OF run s4(1)] s4(2-) s3(3-6) s2(5,8) fs show ?thesis
      by (intro exI [of _ s4]) simp
  next
    assume "stage (near_relay s1) = Ended \<and> stage (near_relay s) = Ended"
    with run s2(3,5,8) s3(2-6) fs show ?thesis by (intro exI [of _ s3]) simp
  qed
qed

text \<open>
  They end in any case, whatever the far relay has still to deal with and whether it has left
  its \<open>select!\<close> itself: on a frame it does not get on with, and at the CLOSE at the latest.
\<close>

lemma ends_anyway:
  assumes ok: "session_ok sid frm far_rx s" and mdu: "0 < mdu" and own: "own_frames sid (near_relay s)"
    and near: "stage (near_relay s) \<noteq> Relaying" and far: "stage (far_relay s) = Relaying \<longrightarrow> down (far_relay s)"
    and open_far: "down (far_relay s) \<longrightarrow> (\<forall>f\<in>set (handled (far_relay s)). \<not> is_close f)"
  shows "\<exists>s'. (session_step mdu sid far_rx near_step far_step)\<^sup>*\<^sup>* s s' \<and> stage (near_relay s') = Ended \<and>
    stage (far_relay s') = Ended \<and> (stage (far_relay s) \<noteq> Ended \<longrightarrow> sessions (far (tun s')) sid = None) \<and>
    (stage (near_relay s) \<noteq> Ended \<longrightarrow> sessions (near (tun s')) sid = None)"
proof -
  let ?R = "session_step mdu sid far_rx near_step far_step"
  from near_says_close [OF ok mdu own near] obtain s1 where s1: "?R\<^sup>*\<^sup>* s s1"
    "session_ok sid frm far_rx s1" "far_relay s1 = far_relay s" "own_frames sid (near_relay s1)"
    "before_close (sent (near_relay s1)) = before_close (sent (near_relay s))"
    "stage (near_relay s1) = Dropping \<or> stage (near_relay s1) = Ended \<and> stage (near_relay s) = Ended" by blast
  have "\<exists>s2. ?R\<^sup>*\<^sup>* s1 s2 \<and> near_relay s2 = near_relay s1 \<and> stage (far_relay s2) = Ended \<and>
      (stage (far_relay s) \<noteq> Ended \<longrightarrow> sessions (far (tun s2)) sid = None)"
  proof (cases "stage (far_relay s) = Relaying")
    case False
    with far_finishes [of s1 mdu] s1(3) show ?thesis by auto
  next
    case True
    with far have down: "down (far_relay s)" by simp
    from s1(6) have "stage (near_relay s1) = Dropping \<or> stage (near_relay s1) = Ended" by blast
    from before_close_split [OF s1(4) this] obtain rest where
      "sent (near_relay s1) = before_close (sent (near_relay s)) @ frame_new Close sid [] # rest" unfolding s1(5) by blast
    moreover from handled_before_close [OF session_carries(1) [OF s1(2)] s1(4)] open_far down s1(3,5) obtain fs where
      "before_close (sent (near_relay s)) = handled (far_relay s) @ fs" by auto
    ultimately have sent: "sent (near_relay s1) = handled (far_relay s) @ fs @ frame_new Close sid [] # rest" by simp
    let ?P = "\<lambda>f. ready f (cell (far_relay s))" and ?q = "fs @ frame_new Close sid [] # rest"
    have "dropWhile ?P ?q \<noteq> []" using close_breaks by auto
    then obtain g gs where g: "dropWhile ?P ?q = g # gs" by (meson neq_Nil_conv)
    with hd_dropWhile [of ?P ?q] have "\<not> ?P g" by simp
    from sent g takeWhile_dropWhile_id [of ?P ?q] have
      split: "sent (near_relay s1) = handled (far_relay s1) @ takeWhile ?P ?q @ g # gs" unfolding s1(3) by metis
    have ready: "\<forall>f\<in>set (takeWhile ?P ?q). ready f (cell (far_relay s1))" unfolding s1(3) by (meson set_takeWhileD)
    from drains [OF s1(2) mdu _ _ split ready] down True s1(3) obtain s2 where
      s2: "?R\<^sup>*\<^sup>* s1 s2" "session_ok sid frm far_rx s2" "near_relay s2 = near_relay s1"
      "cq (chans (far (tun s2)) ! far_rx) = g # gs" "down (far_relay s2)" "stage (far_relay s2) = Relaying"
      "cell (far_relay s2) = cell (far_relay s)" by auto
    with far_ends [OF s2(2,5,6,4)] \<open>\<not> ?P g\<close> obtain s3 where "?R\<^sup>*\<^sup>* s2 s3" "near_relay s3 = near_relay s2"
      "stage (far_relay s3) = Ended" "sessions (far (tun s3)) sid = None" by auto
    with rtranclp_trans [OF s2(1)] s2(3) show ?thesis by (intro exI [of _ s3]) simp
  qed
  then obtain s2 where s2: "?R\<^sup>*\<^sup>* s1 s2" "near_relay s2 = near_relay s1" "stage (far_relay s2) = Ended"
    "stage (far_relay s) \<noteq> Ended \<longrightarrow> sessions (far (tun s2)) sid = None" by blast
  note run = rtranclp_trans [OF s1(1) s2(1)]
  from s1(6) show ?thesis
  proof
    assume "stage (near_relay s1) = Dropping"
    with s2(2) near_drops [of s2 mdu] obtain s4 where s4: "?R s2 s4" "stage (near_relay s4) = Ended"
      "sessions (near (tun s4)) sid = None" "far_relay s4 = far_relay s2" "far (tun s4) = far (tun s2)" by auto
    from rtranclp.rtrancl_into_rtrancl [OF run s4(1)] s4(2-) s2(3,4) show ?thesis by (intro exI [of _ s4]) simp
  next
    assume "stage (near_relay s1) = Ended \<and> stage (near_relay s) = Ended"
    with run s2(2-4) show ?thesis by (intro exI [of _ s2]) simp
  qed
qed

end

text \<open>From the start of a session: what the two laws above need holds in every reachable state.\<close>

context ending_ends
begin

lemma own_step:
  assumes "session_step mdu sid far_rx near_step far_step s s'" "own_frames sid (near_relay s)"
  shows "own_frames sid (near_relay s')"
  using assms by cases (auto dest: nr.step_own)

lemma own_run:
  assumes "session_begin near_step sid far_rx x y s0" "(session_step mdu sid far_rx near_step far_step)\<^sup>*\<^sup>* s0 s"
  shows "own_frames sid (near_relay s)"
  using assms(2)
proof (induction rule: rtranclp_induct)
  case base
  from assms(1) show ?case by (auto simp: session_begin_def dest: nr.run_own)
next
  case (step s1 s2)
  then show ?case by (auto intro: own_step)
qed

lemma ok_reached:
  assumes "session_begin near_step sid far_rx x y s0" "(session_step mdu sid far_rx near_step far_step)\<^sup>*\<^sup>* s0 s" "0 < mdu"
  shows "session_ok sid frm far_rx s"
    and "(with_others far_step)\<^sup>*\<^sup>* (far (tun s0), relay_start y) (far (tun s), far_relay s)"
proof -
  note ok = ok_begin [OF assms(1)]
  from ok_run [OF assms(2,3) ok] show "session_ok sid frm far_rx s" .
  from far_runs [OF assms(2,3) ok] assms(1)
  show "(with_others far_step)\<^sup>*\<^sup>* (far (tun s0), relay_start y) (far (tun s), far_relay s)"
    by (simp add: session_begin_def)
qed

lemma delivers:
  assumes ok: "session_ok sid frm far_rx s" and mdu: "0 < mdu" and own: "own_frames sid (near_relay s)"
    and far: "down (far_relay s)" "stage (far_relay s) \<noteq> Ended"
    and open_far: "\<forall>f\<in>set (handled (far_relay s)). \<not> is_close f"
    and ready: "\<forall>f\<in>set (before_close (sent (near_relay s))). ready f (cell (far_relay s))"
  shows "\<exists>s'. (session_step mdu sid far_rx near_step far_step)\<^sup>*\<^sup>* s s' \<and> near_relay s' = near_relay s \<and>
    handled (far_relay s') = before_close (sent (near_relay s)) \<and>
    written (far_relay s') = written (far_relay s) @ List.map_filter (\<lambda>f. out f (cell (far_relay s)))
      (drop (length (handled (far_relay s))) (before_close (sent (near_relay s))))"
proof -
  from handled_before_close [OF session_carries(1) [OF ok] own open_far] obtain fs where
    fs: "before_close (sent (near_relay s)) = handled (far_relay s) @ fs" by blast
  obtain gs where "sent (near_relay s) = handled (far_relay s) @ fs @ gs"
    using fs takeWhile_dropWhile_id [of is_data "sent (near_relay s)"] unfolding before_close_def by (metis append_assoc)
  from drains [OF ok mdu far this] fs ready obtain s' where
    "(session_step mdu sid far_rx near_step far_step)\<^sup>*\<^sup>* s s'" "near_relay s' = near_relay s"
    "handled (far_relay s') = handled (far_relay s) @ fs"
    "written (far_relay s') = written (far_relay s) @ List.map_filter (\<lambda>f. out f (cell (far_relay s))) fs" by auto
  with fs show ?thesis by (intro exI [of _ s']) simp
qed

lemma delivers_reached:
  assumes "session_begin near_step sid far_rx x y s0" "(session_step mdu sid far_rx near_step far_step)\<^sup>*\<^sup>* s0 s" "0 < mdu"
    and "down (far_relay s)" "stage (far_relay s) \<noteq> Ended" "\<forall>f\<in>set (handled (far_relay s)). \<not> is_close f"
    and "\<forall>f\<in>set (before_close (sent (near_relay s))). ready f (cell (far_relay s))"
  shows "\<exists>s'. (session_step mdu sid far_rx near_step far_step)\<^sup>*\<^sup>* s s' \<and> near_relay s' = near_relay s \<and>
    (with_others far_step)\<^sup>*\<^sup>* (far (tun s0), relay_start y) (far (tun s'), far_relay s') \<and>
    handled (far_relay s') = before_close (sent (near_relay s)) \<and>
    written (far_relay s') = written (far_relay s) @ List.map_filter (\<lambda>f. out f (cell (far_relay s)))
      (drop (length (handled (far_relay s))) (before_close (sent (near_relay s))))"
  using delivers [OF ok_reached(1) [OF assms(1-3)] assms(3) own_run [OF assms(1,2)] assms(4-7)]
    ok_reached(2) [OF assms(1) rtranclp_trans [OF assms(2)] assms(3)] by blast

lemma ends_reached:
  assumes "session_begin near_step sid far_rx x y s0" "(session_step mdu sid far_rx near_step far_step)\<^sup>*\<^sup>* s0 s" "0 < mdu"
    and "stage (near_relay s) \<noteq> Relaying" "down (far_relay s)" "stage (far_relay s) = Relaying"
    and "\<forall>f\<in>set (handled (far_relay s)). \<not> is_close f"
    and "\<forall>f\<in>set (before_close (sent (near_relay s))). ready f (cell (far_relay s))"
  shows "\<exists>s'. (session_step mdu sid far_rx near_step far_step)\<^sup>*\<^sup>* s s' \<and> stage (near_relay s') = Ended \<and>
    stage (far_relay s') = Ended \<and> sessions (far (tun s')) sid = None \<and>
    (stage (near_relay s) \<noteq> Ended \<longrightarrow> sessions (near (tun s')) sid = None) \<and>
    (with_others far_step)\<^sup>*\<^sup>* (far (tun s0), relay_start y) (far (tun s'), far_relay s') \<and>
    handled (far_relay s') = before_close (sent (near_relay s)) @ [frame_new Close sid []] \<and>
    written (far_relay s') = written (far_relay s) @ List.map_filter (\<lambda>f. out f (cell (far_relay s)))
      (drop (length (handled (far_relay s))) (before_close (sent (near_relay s))))"
  using ending_frames_end [OF ok_reached(1) [OF assms(1-3)] assms(3) own_run [OF assms(1,2)] assms(4-8)]
    ok_reached(2) [OF assms(1) rtranclp_trans [OF assms(2)] assms(3)] by blast

lemma anyway_reached:
  assumes "session_begin near_step sid far_rx x y s0" "(session_step mdu sid far_rx near_step far_step)\<^sup>*\<^sup>* s0 s" "0 < mdu"
    and "stage (near_relay s) \<noteq> Relaying" "stage (far_relay s) = Relaying \<longrightarrow> down (far_relay s)"
    and "down (far_relay s) \<longrightarrow> (\<forall>f\<in>set (handled (far_relay s)). \<not> is_close f)"
  shows "\<exists>s'. (session_step mdu sid far_rx near_step far_step)\<^sup>*\<^sup>* s s' \<and> stage (near_relay s') = Ended \<and>
    stage (far_relay s') = Ended \<and> (stage (far_relay s) \<noteq> Ended \<longrightarrow> sessions (far (tun s')) sid = None) \<and>
    (stage (near_relay s) \<noteq> Ended \<longrightarrow> sessions (near (tun s')) sid = None)"
  by (rule ends_anyway [OF ok_reached(1) [OF assms(1-3)] assms(3) own_run [OF assms(1,2)] assms(4-6)])

end

section \<open>Any two relays of the skeleton\<close>

text \<open>What a downward task writes for a frame.\<close>

definition written_for :: "(frame \<Rightarrow> 'x \<Rightarrow> 'o down_action) \<Rightarrow> frame \<Rightarrow> 'x \<Rightarrow> 'o option" where
  "written_for downf f x = (case downf f x of Write out \<Rightarrow> Some out | _ \<Rightarrow> None)"

lemma skeleton_takes:
  assumes "down q" "\<not> up_sending q" "recv c m = (Got f, m')" "downf f (cell q) \<noteq> Break"
  shows "\<exists>q'. relay_step abort watched locks ok torn sid c upf downf (m, q) (m', q') \<and> handled q' = handled q @ [f] \<and>
    down q' \<and> up q' = up q \<and> stage q' = stage q \<and> cell q' = cell q \<and>
    written q' = written q @ option_list (written_for downf f (cell q))"
proof -
  from assms(2) have free: "lock_free locks f q" by (auto simp: up_sending_def lock_free_def split: up_state.split)
  from assms(4) consider out where "downf f (cell q) = Write out" | "downf f (cell q) = Skip"
    by (cases "downf f (cell q)") auto
  then show ?thesis
  proof cases
    case 1
    from relay_step.down_write [where downf = downf, OF assms(1) free assms(3) 1] assms(1) 1 show ?thesis
      by (intro exI [of _ "q\<lparr>written := written q @ [out], handled := handled q @ [f]\<rparr>"]) (simp add: written_for_def option_list_def)
  next
    case 2
    from relay_step.down_skip [where downf = downf, OF assms(1) free assms(3) 2] assms(1) 2 show ?thesis
      by (intro exI [of _ "q\<lparr>handled := handled q @ [f]\<rparr>"]) (simp add: written_for_def option_list_def)
  qed
qed

lemma skeleton_breaks:
  assumes "down q" "stage q = Relaying" "recv c m = (Got f, m')" "downf f (cell q) = Break"
  shows "\<exists>m'' q'. relay_step abort watched locks ok torn sid c upf downf (m, q) (m'', q') \<and> stage q' = Closing \<and>
    handled q' = handled q @ [f] \<and> written q' = written q"
  using relay_step.down_break [where downf = downf, OF assms(1,3,4)] assms(2)
  by (intro exI [of _ "fst (end_down c (m', q\<lparr>handled := handled q @ [f]\<rparr>))"]
      exI [of _ "snd (end_down c (m', q\<lparr>handled := handled q @ [f]\<rparr>))"])
    (simp add: end_down_def leave_select_stage)

lemma skeleton_ends:
  assumes "makes_frames sid ok frm upf" "own_data sid upf" "own_data sid upf'" "\<And>f x. is_close f \<Longrightarrow> downf' f x = Break"
  shows "ending_ends sid far_rx frm (relay_step abort watched locks ok torn sid near_rx upf downf)
    (relay_step abort' watched' locks' ok' torn' sid far_rx upf' downf') (\<lambda>f x. downf' f x \<noteq> Break)
    (written_for downf')"
proof (intro ending_ends.intro draining_ends.intro session_ends.intro draining_ends_axioms.intro ending_ends_axioms.intro
    relay_step_closing assms(2,3))
  show "\<exists>m'' q'. relay_step abort' watched' locks' ok' torn' sid far_rx upf' downf' (m, q) (m'', q') \<and> stage q' = Closing \<and>
      handled q' = handled q @ [f] \<and> written q' = written q"
    if "down q" "stage q = Relaying" "recv far_rx m = (Got f, m')" "\<not> downf' f (cell q) \<noteq> Break" for q m f m'
    using that by (intro skeleton_breaks) simp_all
  show "\<not> downf' f y \<noteq> Break" if "is_close f" for f y using assms(4) [OF that] by simp
qed (blast intro: skeleton_near near_ok_step [OF _ assms(1)] skeleton_takes dest: skeleton_near skeleton_far)+

end
