(* ===== verification/End_To_End.thy ===== *)
theory End_To_End
  imports Session_Drain
begin

text \<open>
  A TCP session from end to end, in one direction: the session of the theory Session with a
  TCP relay at each end. \<open>relay_forwarded_tcp\<close> repeats \<open>relay_bidirectional_tcp\<close>, so the
  four pairings (proxy or forwarding client at one end, exit node at the other, either way
  round) are this one.
\<close>

type_synonym 'l system =
  "('l, read_result, bytes, unit, read_result, bytes, unit) session_system"

definition system_step :: "nat \<Rightarrow> u32 \<Rightarrow> nat \<Rightarrow> nat \<Rightarrow> 'l system \<Rightarrow> 'l system \<Rightarrow> bool" where
  "system_step mdu sid near_rx far_rx =
     session_step mdu sid far_rx (relay_bidirectional_tcp sid near_rx) (relay_bidirectional_tcp sid far_rx)"

definition system_begin :: "u32 \<Rightarrow> nat \<Rightarrow> nat \<Rightarrow> 'l system \<Rightarrow> bool" where
  "system_begin sid near_rx far_rx = session_begin (relay_bidirectional_tcp sid near_rx) sid far_rx () ()"

definition system_init :: "'l \<Rightarrow> u32 \<Rightarrow> 'l system" where
  "system_init l sid = session_init l sid () ()"

lemma relay_forwarded_tcp_eq: "relay_forwarded_tcp = relay_bidirectional_tcp"
  unfolding relay_forwarded_tcp_def relay_bidirectional_tcp_def ..

section \<open>The invariants\<close>

definition tcp_frame :: "u32 \<Rightarrow> read_result \<Rightarrow> frame option" where
  "tcp_frame sid i = Some (frame_new Data sid (read_bytes i))"

lemma tcp_makes_frames: "makes_frames sid fits (tcp_frame sid) (\<lambda>i x. (tcp_to_rns sid i, x))"
  by (auto simp: makes_frames_def tcp_frame_def tcp_to_rns_def read_bytes_def is_data_def frame_wf_def
      fits_def BUF_SIZE_def split: read_result.splits if_splits)

interpretation tcp_ends:
  ending_ends sid far_rx "tcp_frame sid" "relay_bidirectional_tcp sid near_rx"
    "relay_bidirectional_tcp sid far_rx" "\<lambda>f x. rns_to_tcp f \<noteq> Break"
    "written_for (\<lambda>f x. rns_to_tcp f)" for sid far_rx near_rx
  unfolding relay_bidirectional_tcp_def
  by (intro skeleton_ends tcp_makes_frames own_data_tasks) (simp add: is_close_def rns_to_tcp_def)

text \<open>
  A TCP relay between its steps: as long as \<open>select!\<close> waits the downward task is there, and as
  long as that one is there it has not seen a CLOSE.
\<close>

definition tcp_inv :: "u32 \<Rightarrow> (read_result, bytes, unit) relay \<Rightarrow> bool" where
  "tcp_inv sid r \<longleftrightarrow>
     own_frames sid r \<and> tcp_transparent r \<and> (stage r = Relaying \<longrightarrow> down r) \<and>
     (down r \<longrightarrow> (\<forall>f\<in>set (handled r). \<not> is_close f))"

lemma tcp_invD:
  assumes "tcp_inv sid r"
  shows "own_frames sid r" "tcp_transparent r" "tcp_written r" "stage r = Relaying \<Longrightarrow> down r"
    and "down r \<Longrightarrow> \<forall>f\<in>set (handled r). \<not> is_close f"
    and "down r \<Longrightarrow> written r = map payload (filter is_data (handled r))"
  using assms by (auto simp: tcp_inv_def tcp_transparent_def tcp_written_down)

lemma tcp_inv_start: "tcp_inv sid (relay_start ())"
  by (simp add: tcp_inv_def own_frames_start) (simp add: tcp_transparent_def tcp_written_def relay_start_def)

lemma listening_step:
  assumes "relay_bidirectional_tcp sid c (m, r) (m', r')" "down r \<longrightarrow> (\<forall>f\<in>set (handled r). \<not> is_close f)"
  shows "down r' \<longrightarrow> (\<forall>f\<in>set (handled r'). \<not> is_close f)"
  using assms(1) unfolding relay_bidirectional_tcp_def
  by cases (use assms(2) in \<open>auto simp: end_task_simps rns_to_tcp_def is_close_def
      split: if_splits frame_type.splits\<close>)

lemma tcp_inv_step:
  assumes "relay_bidirectional_tcp sid c (m, r) (m', r')" "tcp_inv sid r"
  shows "tcp_inv sid r'"
  using assms(2) tcp_relay.step_own [OF assms(1)] tcp_transparent_step [OF assms(1)]
    relaying_step [OF assms(1) [unfolded relay_bidirectional_tcp_def]] listening_step [OF assms(1)]
  by (simp add: tcp_inv_def)

lemma run_tcp_inv:
  assumes "(with_others (relay_bidirectional_tcp sid c))\<^sup>*\<^sup>* (m, relay_start ()) (m', r)"
  shows "tcp_inv sid r"
  using assms by (induction rule: rtranclp_induct2) (auto intro: tcp_inv_start tcp_inv_step elim: with_othersE)

definition relays_inv :: "u32 \<Rightarrow> 'l system \<Rightarrow> bool" where
  "relays_inv sid s \<longleftrightarrow> tcp_inv sid (near_relay s) \<and> tcp_inv sid (far_relay s)"

definition system_inv :: "u32 \<Rightarrow> nat \<Rightarrow> 'l system \<Rightarrow> bool" where
  "system_inv sid c s \<longleftrightarrow> session_ok sid (tcp_frame sid) c s \<and> relays_inv sid s"

lemma system_begin_init: "system_begin sid near_rx 0 (system_init l sid)"
  unfolding system_begin_def system_init_def by (rule session_begin_init)

lemma system_inv_begin:
  assumes "system_begin sid near_rx far_rx s"
  shows "system_inv sid far_rx s"
proof -
  note b = assms [unfolded system_begin_def]
  then obtain m where near: "(with_others (relay_bidirectional_tcp sid near_rx))\<^sup>*\<^sup>* (m, relay_start ()) (near (tun s), near_relay s)"
    and far: "far_relay s = relay_start ()" by (auto simp: session_begin_def)
  from run_tcp_inv [OF near] far have "relays_inv sid s" by (simp add: relays_inv_def tcp_inv_start)
  with tcp_ends.ok_begin [OF b] show ?thesis by (simp add: system_inv_def)
qed

lemma system_relays_step:
  assumes "system_step mdu sid near_rx far_rx s s'" "relays_inv sid s"
  shows "relays_inv sid s'"
  using assms(1) unfolding system_step_def
proof cases
  case (near m r)
  with assms(2) tcp_inv_step [OF near(2)] show ?thesis by (simp add: relays_inv_def)
next
  case (far m r)
  with assms(2) tcp_inv_step [OF far(2)] show ?thesis by (simp add: relays_inv_def)
qed (use assms(2) in \<open>simp_all add: relays_inv_def\<close>)

lemma system_inv_step:
  assumes "system_step mdu sid near_rx far_rx s s'" "0 < mdu" "system_inv sid far_rx s"
  shows "system_inv sid far_rx s'"
  using system_relays_step [OF assms(1)] tcp_ends.ok_step [OF assms(1) [unfolded system_step_def] assms(2)]
    assms(3) by (simp add: system_inv_def)

lemma system_run_inv:
  assumes "(system_step mdu sid near_rx far_rx)\<^sup>*\<^sup>* s s'" "0 < mdu" "system_inv sid far_rx s"
  shows "system_inv sid far_rx s'"
  using assms(1) by (induction rule: rtranclp_induct) (auto intro: system_inv_step assms(2,3))

lemma system_inv_run:
  assumes "system_begin sid near_rx far_rx s0" "(system_step mdu sid near_rx far_rx)\<^sup>*\<^sup>* s0 s" "0 < mdu"
  shows "system_inv sid far_rx s"
  by (rule system_run_inv [OF assms(2,3) system_inv_begin [OF assms(1)]])

lemma system_queue_run:
  assumes "system_begin sid near_rx far_rx s0" "(system_step mdu sid near_rx far_rx)\<^sup>*\<^sup>* s0 s"
  shows "queue_ok s"
  using tcp_ends.queue_run [OF assms(2) [unfolded system_step_def]] assms(1)
  by (simp add: system_begin_def session_begin_def)

section \<open>The stream\<close>

text \<open>A write that failed half-way included.\<close>

lemma written_carried:
  assumes "prefix (handled q @ failed q) fs" "tcp_written q"
  shows "prefix (concat (written q)) (concat (map payload (filter is_data fs)))"
  using tcp_written_prefix [OF assms(2)] prefix_concat_map [OF prefix_filter [OF assms(1)], of payload is_data]
  by (rule prefix_order.trans)

text \<open>From the invariants to the bytes: what was written is a front part of what was read.\<close>

lemma system_stream:
  assumes "system_inv sid c s"
  shows "prefix (concat (written (far_relay s))) (concat (map payload (filter is_data (sent (near_relay s)))))"
    and "prefix (concat (map payload (filter is_data (sent (near_relay s)))))
      (concat (map read_bytes (reads (near_relay s))))"
proof -
  from assms have "prefix (handled (far_relay s) @ failed (far_relay s)) (sent (near_relay s))"
    by (auto simp: system_inv_def intro: session_carries)
  moreover from assms have "tcp_written (far_relay s)" by (auto simp: system_inv_def relays_inv_def dest: tcp_invD)
  ultimately show "prefix (concat (written (far_relay s)))
      (concat (map payload (filter is_data (sent (near_relay s)))))"
    by (rule written_carried)
  from assms have "prefix (map Some (filter is_data (sent (near_relay s)))) (map (tcp_frame sid) (reads (near_relay s)))"
    by (auto simp: system_inv_def session_ok_def intro: near_ok_prefix)
  from prefix_concat_map [OF this, of "\<lambda>f. payload (the f)"] show "prefix (concat (map payload (filter is_data (sent (near_relay s)))))
      (concat (map read_bytes (reads (near_relay s))))"
    by (simp add: comp_def tcp_frame_def)
qed

section \<open>Everything sent can be written\<close>

lemma system_link_drains:
  assumes "system_inv sid far_rx s" "0 < mdu"
  shows "\<exists>s'. (system_step mdu sid near_rx far_rx)\<^sup>*\<^sup>* s s' \<and> system_inv sid far_rx s' \<and>
    delivered (tun s') = accepted (tun s') \<and> near_relay s' = near_relay s \<and> far_relay s' = far_relay s \<and>
    data_q (near (tun s')) = []"
proof -
  from assms(1) have "session_ok sid (tcp_frame sid) far_rx s" by (simp add: system_inv_def)
  from tcp_ends.link_drains [OF this assms(2), of near_rx] system_run_inv [OF _ assms(2,1)]
  show ?thesis unfolding system_step_def by blast
qed

text \<open>The far relay is still there: what is queued for it is what it has yet to deal with.\<close>

lemma system_far_queue:
  assumes "system_inv sid c s" "stage (far_relay s) = Relaying"
  shows "handled (far_relay s) @ cq (chans (far (tun s)) ! c) = of_session sid (delivered (tun s))"
  using assms by (auto simp: system_inv_def relays_inv_def intro!: tcp_ends.far_queue dest: tcp_invD)

lemma before_close_kinds: "\<forall>f\<in>set (before_close fs). rns_to_tcp f \<noteq> Break"
  unfolding before_close_def by (meson rns_to_tcp_cases(3) set_takeWhileD)

text \<open>All that was sent before the CLOSE.\<close>

lemma system_delivers:
  assumes "system_inv sid far_rx s" "stage (far_relay s) = Relaying" "0 < mdu"
  shows "\<exists>s'. (system_step mdu sid near_rx far_rx)\<^sup>*\<^sup>* s s' \<and> near_relay s' = near_relay s \<and>
    written (far_relay s') = map payload (before_close (sent (near_relay s)))"
proof -
  have ok: "session_ok sid (tcp_frame sid) far_rx s" and near: "own_frames sid (near_relay s)"
    and far: "tcp_inv sid (far_relay s)"
    using assms(1) by (auto simp: system_inv_def relays_inv_def dest: tcp_invD)
  note down = tcp_invD(4) [OF far assms(2)]
  from tcp_ends.delivers [OF ok assms(3) near down _ tcp_invD(5) [OF far down] before_close_kinds, of near_rx] assms(2)
  obtain s' where s': "(system_step mdu sid near_rx far_rx)\<^sup>*\<^sup>* s s'" "near_relay s' = near_relay s"
    "handled (far_relay s') = before_close (sent (near_relay s))"
    "written (far_relay s') = written (far_relay s) @ List.map_filter (\<lambda>f. written_for (\<lambda>f x. rns_to_tcp f) f (cell (far_relay s)))
       (drop (length (handled (far_relay s))) (before_close (sent (near_relay s))))"
    unfolding system_step_def by auto
  from handled_before_close [OF session_carries(1) [OF ok] near tcp_invD(5) [OF far down]] obtain fs where
    fs: "before_close (sent (near_relay s)) = handled (far_relay s) @ fs" by blast
  have data: "\<forall>f\<in>set (handled (far_relay s) @ fs). is_data f"
    unfolding fs [symmetric] before_close_def by (meson set_takeWhileD)
  then have "List.map_filter (\<lambda>f. written_for (\<lambda>f x. rns_to_tcp f) f (cell (far_relay s))) fs = map payload fs"
    by (induction fs) (auto simp: List.map_filter_def written_for_def rns_to_tcp_def is_data_def)
  with s'(4) tcp_invD(6) [OF far down] fs data have "written (far_relay s') = map payload (before_close (sent (near_relay s)))"
    by (simp add: filter_id_conv)
  with s'(1,2) show ?thesis by blast
qed

section \<open>Nothing holds the far end back\<close>

text \<open>One more read is handed on and brought over while the far relay does nothing.\<close>

lemma near_relay_reads:
  assumes "up (near_relay s) = Reading" "data_q (near (tun s)) = []" "buf \<noteq> []" "length buf \<le> BUF_SIZE"
  shows "\<exists>s'. (system_step mdu sid near_rx far_rx)\<^sup>*\<^sup>* s s' \<and> far_relay s' = far_relay s \<and>
    up (near_relay s') = Reading \<and> sent (near_relay s') = sent (near_relay s) @ [frame_new Data sid buf]"
proof -
  let ?near = "relay_bidirectional_tcp sid near_rx" and ?f = "frame_new Data sid buf"
  let ?r1 = "(near_relay s)\<lparr>up := Sending ?f, cell := (), reads := reads (near_relay s) @ [ReadOk buf]\<rparr>"
  let ?r2 = "?r1\<lparr>up := Reading, sent := sent ?r1 @ [?f]\<rparr>"
  let ?s1 = "s\<lparr>tun := (tun s)\<lparr>near := near (tun s), accepted := accepted (tun s) @ drop (length (sent (near_relay s))) (sent ?r1)\<rparr>,
    near_relay := ?r1\<rparr>"
  have "?near (near (tun s), near_relay s) (near (tun s), ?r1)"
    unfolding relay_bidirectional_tcp_def using assms(1,3,4) by (intro read_frame) (simp_all add: tcp_to_rns_def fits_def)
  note 1 = session_step.near [where near_step = ?near, OF this]
  obtain m where m: "send_frame ?f (near (tun ?s1)) = Some m" using assms(2) by (simp add: send_frame_def SENDER_CAPACITY_def)
  have "?near (near (tun ?s1), near_relay ?s1) (m, ?r2)"
    unfolding relay_bidirectional_tcp_def using send_done [of ?r1 ?f "near (tun ?s1)" m] m by simp
  note 2 = session_step.near [where near_step = ?near, OF this]
  from 1 2 show ?thesis unfolding system_step_def
    by (intro exI conjI) (rule rtranclp.rtrancl_into_rtrancl [OF r_into_rtranclp], assumption, assumption, simp_all)
qed

lemma far_queue_grows:
  assumes "system_inv sid far_rx s0" "up (near_relay s0) = Reading" "stage (far_relay s0) = Relaying" "0 < mdu" "buf \<noteq> []" "length buf \<le> BUF_SIZE"
  shows "\<exists>s. (system_step mdu sid near_rx far_rx)\<^sup>*\<^sup>* s0 s \<and> system_inv sid far_rx s \<and> far_relay s = far_relay s0 \<and>
    up (near_relay s) = Reading \<and> data_q (near (tun s)) = [] \<and>
    sent (near_relay s) = sent (near_relay s0) @ replicate n (frame_new Data sid buf) \<and>
    handled (far_relay s) @ cq (chans (far (tun s)) ! far_rx) = sent (near_relay s)"
proof (induction n)
  case 0
  from system_link_drains [OF assms(1,4), of near_rx] obtain s where s: "(system_step mdu sid near_rx far_rx)\<^sup>*\<^sup>* s0 s"
    "system_inv sid far_rx s" "delivered (tun s) = accepted (tun s)" "near_relay s = near_relay s0" "far_relay s = far_relay s0"
    "data_q (near (tun s)) = []" by blast
  from s(2) have "of_session sid (accepted (tun s)) = sent (near_relay s)" by (simp add: system_inv_def session_ok_def)
  with system_far_queue [OF s(2)] s assms(2,3) show ?case by (intro exI [of _ s]) simp
next
  case (Suc n)
  then obtain s where s: "(system_step mdu sid near_rx far_rx)\<^sup>*\<^sup>* s0 s" "system_inv sid far_rx s" "far_relay s = far_relay s0"
    "up (near_relay s) = Reading" "data_q (near (tun s)) = []"
    "sent (near_relay s) = sent (near_relay s0) @ replicate n (frame_new Data sid buf)" by blast
  from near_relay_reads [OF s(4,5) assms(5,6), of mdu sid near_rx far_rx] obtain s1 where
    s1: "(system_step mdu sid near_rx far_rx)\<^sup>*\<^sup>* s s1" "far_relay s1 = far_relay s0" "up (near_relay s1) = Reading"
    "sent (near_relay s1) = sent (near_relay s) @ [frame_new Data sid buf]" using s(3) by auto
  from system_link_drains [OF system_run_inv [OF s1(1) assms(4) s(2)] assms(4), of near_rx] obtain s2 where
    s2: "(system_step mdu sid near_rx far_rx)\<^sup>*\<^sup>* s1 s2" "system_inv sid far_rx s2" "delivered (tun s2) = accepted (tun s2)"
    "near_relay s2 = near_relay s1" "far_relay s2 = far_relay s1" "data_q (near (tun s2)) = []" by blast
  from s2(2) have "of_session sid (accepted (tun s2)) = sent (near_relay s2)" by (simp add: system_inv_def session_ok_def)
  with system_far_queue [OF s2(2)] s1 s2 s(6) assms(3) rtranclp_trans [OF s(1) rtranclp_trans [OF s1(1) s2(1)]]
  show ?case by (intro exI [of _ s2]) (simp add: replicate_append_same [symmetric])
qed

section \<open>A run to point at\<close>

text \<open>The near relay reads from its socket and hands the read on; the far relay still waits.\<close>

lemma first_read:
  assumes "buf \<noteq> []" "length buf \<le> BUF_SIZE"
  shows "\<exists>s. (system_step mdu sid near_rx 0)\<^sup>*\<^sup>* (system_init l sid) s \<and>
    up (near_relay s) = Reading \<and> down (far_relay s) \<and> reads (near_relay s) = [ReadOk buf] \<and>
    sent (near_relay s) = [frame_new Data sid buf] \<and> stage (near_relay s) = Relaying \<and> far_relay s = relay_start ()"
  unfolding system_step_def system_init_def relay_bidirectional_tcp_def
  by (rule session_first_read) (use assms in \<open>simp_all add: tcp_to_rns_def fits_def\<close>)

end
