(* ===== verification/Udp_Session.thy ===== *)
theory Udp_Session
  imports Session_Drain
begin

text \<open>
  UDP sessions from end to end: the session of the theory Session with the UDP relays at its
  ends. A SOCKS5 association has \<open>relay_bidirectional_udp_client_side\<close> at the proxy client
  and \<open>relay_bidirectional_udp_server_side\<close> at the exit node; a forwarded UDP port has
  \<open>relay_forwarded_udp\<close> in place of the former. Each is looked at in both directions.
  Datagrams of at most 4096 bytes arrive whole, in order and unchanged, and of longer ones
  \<open>recv_from\<close> keeps that much; what the exit node sends out is what its filter lets through.
\<close>

section \<open>What a read becomes\<close>

text \<open>The payload a relay makes of a datagram, if it makes a frame of it.\<close>

definition client_datagram :: "recv_from_result \<Rightarrow> bytes option" where
  "client_datagram i =
     (case i of DatagramOk buf addr \<Rightarrow> if buf = [] then None else Some (take BUF_SIZE buf)
      | DatagramErr \<Rightarrow> None)"

definition exit_reply :: "(target_addr \<Rightarrow> bytes option) \<Rightarrow> filter_config \<Rightarrow> recv_from_result \<Rightarrow> bytes option" where
  "exit_reply new_udp_header cfg i =
     (case i of
        DatagramOk buf addr \<Rightarrow>
          if buf \<noteq> [] \<and> allowed_ip addr cfg Udp
          then map_option (\<lambda>hdr. hdr @ take BUF_SIZE buf) (new_udp_header (Ip addr)) else None
      | DatagramErr \<Rightarrow> None)"

definition forwarded_datagram :: "(target_addr \<Rightarrow> bytes option) \<Rightarrow> u16 \<Rightarrow> read_result \<Rightarrow> bytes option" where
  "forwarded_datagram new_udp_header port i =
     (case i of
        ReadOk buf \<Rightarrow>
          if buf = [] then None
          else map_option (\<lambda>hdr. hdr @ buf) (new_udp_header (localhost_target port))
      | ReadErr \<Rightarrow> None)"

text \<open>What the exit node sends for a payload, and what the forwarding client does.\<close>

definition exit_datagram ::
  "(bytes \<Rightarrow> (u8 \<times> target_addr \<times> bytes) option) \<Rightarrow> (target_addr \<Rightarrow> target_addr option)
     \<Rightarrow> filter_config \<Rightarrow> bytes \<Rightarrow> (bytes \<times> socket_addr) option" where
  "exit_datagram parse_udp_request resolve_dns cfg d =
     (case parse_udp_request d of
        Some (frag, addr, data) \<Rightarrow>
          map_option (\<lambda>sock. (data, sock)) (filter_and_convert resolve_dns addr (Some cfg) Udp)
      | None \<Rightarrow> None)"

definition service_datagram :: "(bytes \<Rightarrow> (u8 \<times> target_addr \<times> bytes) option) \<Rightarrow> bytes \<Rightarrow> bytes option" where
  "service_datagram parse_udp_request d =
     (case parse_udp_request d of
        Some (frag, addr, data) \<Rightarrow> if data = [] then None else Some data
      | None \<Rightarrow> None)"

text \<open>A header of the codec has at most 262 bytes: three, the address type, a name of at most
  255 bytes behind its length, and the port.\<close>

definition short_headers :: "(target_addr \<Rightarrow> bytes option) \<Rightarrow> bool" where
  "short_headers new_udp_header \<longleftrightarrow> (\<forall>a h. new_udp_header a = Some h \<longrightarrow> length h \<le> 262)"

abbreviation data_frame :: "u32 \<Rightarrow> ('i \<Rightarrow> bytes option) \<Rightarrow> 'i \<Rightarrow> frame option" where
  "data_frame sid dg \<equiv> \<lambda>i. map_option (frame_new Data sid) (dg i)"

lemma client_makes_frames: "makes_frames sid ok (data_frame sid client_datagram) (client_udp_to_rns sid)"
  by (auto simp: makes_frames_def client_datagram_def client_udp_to_rns_def is_data_def frame_wf_def BUF_SIZE_def
      split: recv_from_result.splits if_splits)

lemma exit_makes_frames:
  assumes "short_headers hdr"
  shows "makes_frames sid ok (data_frame sid (exit_reply hdr cfg)) (\<lambda>i x. (server_udp_to_rns hdr cfg sid i, x))"
  unfolding makes_frames_def
proof (intro allI impI)
  fix i x f y assume "(server_udp_to_rns hdr cfg sid i, x) = (UpSend f, y)"
  then obtain buf addr h where "i = DatagramOk buf addr" "buf \<noteq> []" "allowed_ip addr cfg Udp"
    "hdr (Ip addr) = Some h" "f = frame_new Data sid (h @ take BUF_SIZE buf)"
    by (auto simp: server_udp_to_rns_def split: recv_from_result.splits if_splits option.splits)
  moreover from assms this(4) have "length h \<le> 262" unfolding short_headers_def by blast
  ultimately show "data_frame sid (exit_reply hdr cfg) i = Some f \<and> session_id f = sid \<and> is_data f \<and> frame_wf f"
    by (simp add: exit_reply_def is_data_def frame_wf_def BUF_SIZE_def)
qed

lemma forwarded_makes_frames:
  assumes "short_headers hdr"
  shows "makes_frames sid fits (data_frame sid (forwarded_datagram hdr p)) (\<lambda>i x. (forwarded_udp_to_rns hdr p sid i, x))"
  unfolding makes_frames_def
proof (intro allI impI)
  fix i x f y assume "fits i" "(forwarded_udp_to_rns hdr p sid i, x) = (UpSend f, y)"
  then obtain buf h where "i = ReadOk buf" "length buf \<le> BUF_SIZE" "buf \<noteq> []" "hdr (localhost_target p) = Some h"
    "f = frame_new Data sid (h @ buf)"
    by (auto simp: forwarded_udp_to_rns_def fits_def split: read_result.splits if_splits option.splits)
  moreover from assms this(4) have "length h \<le> 262" unfolding short_headers_def by blast
  ultimately show "data_frame sid (forwarded_datagram hdr p) i = Some f \<and> session_id f = sid \<and> is_data f \<and> frame_wf f"
    by (simp add: forwarded_datagram_def is_data_def frame_wf_def BUF_SIZE_def)
qed

section \<open>The downward tasks\<close>

lemma exit_writes:
  "(case server_rns_to_udp parse resolve cfg f of Write out \<Rightarrow> Some out | _ \<Rightarrow> None) =
     (if is_data f then exit_datagram parse resolve cfg (payload f) else None)"
  by (auto simp: server_rns_to_udp_def exit_datagram_def is_data_def split: frame_type.split option.split)

lemma service_writes:
  "(case forwarded_rns_to_udp parse f of Write out \<Rightarrow> Some out | _ \<Rightarrow> None) =
     (if is_data f then service_datagram parse (payload f) else None)"
  by (auto simp: forwarded_rns_to_udp_def service_datagram_def is_data_def split: frame_type.split option.split)

lemma map_filter_data:
  "List.map_filter (\<lambda>f. if is_data f then g (payload f) else None) fs =
     List.map_filter g (map payload (filter is_data fs))"
  by (induction fs) (simp_all add: List.map_filter_def)

text \<open>
  The client side writes every payload once it knows the port of the local client; until
  then it drops them.
\<close>

definition client_writes :: "(recv_from_result, bytes \<times> u16, u16 option) relay \<Rightarrow> bool" where
  "client_writes r \<longleftrightarrow>
     (\<exists>dropped. map payload (filter is_data (handled r)) = dropped @ map fst (written r) \<and>
        (cell r = None \<longrightarrow> written r = []))"

lemma client_rns_to_udp_cases:
  "client_rns_to_udp f x = Write out \<Longrightarrow> is_data f \<and> fst out = payload f \<and> x \<noteq> None"
  "client_rns_to_udp f x = Skip \<Longrightarrow> \<not> is_data f \<or> x = None"
  "client_rns_to_udp f x = Break \<Longrightarrow> \<not> is_data f"
  by (auto simp: client_rns_to_udp_def is_data_def split: frame_type.splits option.splits)

lemma client_writes_step:
  assumes "relay_bidirectional_udp_client_side sid c (m, r) (m', r')" "client_writes r"
  shows "client_writes r'"
proof -
  have cell: "x \<noteq> None \<or> x = cell r" if "client_udp_to_rns sid i (cell r) = (a, x)" for i a x
    using that by (auto simp: client_udp_to_rns_def split: recv_from_result.splits if_splits)
  from assms(1)[unfolded relay_bidirectional_udp_client_side_def] show ?thesis
  proof cases
    case (read_frame i f x)
    with cell [OF read_frame(5)] assms(2) show ?thesis by (auto simp: client_writes_def)
  next
    case (read_skip i x)
    with cell [OF read_skip(5)] assms(2) show ?thesis by (auto simp: client_writes_def)
  next
    case (read_end i x)
    with cell [OF read_end(4)] assms(2) show ?thesis by (auto simp: client_writes_def end_up_def)
  next
    case (down_skip f)
    with client_rns_to_udp_cases(2) [OF down_skip(5)] assms(2) show ?thesis
      by (auto simp: client_writes_def)
  next
    case (down_write f out)
    with client_rns_to_udp_cases(1) [OF down_write(5)] assms(2) show ?thesis
      by (auto simp: client_writes_def)
  next
    case (down_break f m1)
    with client_rns_to_udp_cases(3) [OF down_break(4)] assms(2) show ?thesis
      by (auto simp: client_writes_def end_down_def)
  qed (use assms(2) in \<open>auto simp: client_writes_def end_task_simps\<close>)
qed

lemma run_client_writes:
  assumes "(with_others (relay_bidirectional_udp_client_side sid c))\<^sup>*\<^sup>* (m, relay_start None) (m', r)"
  shows "client_writes r"
  using assms
proof (induction rule: rtranclp_induct2)
  case refl
  show ?case by (simp add: client_writes_def relay_start_def)
next
  case (step m1 r1 m2 r2)
  then show ?case using client_writes_step by (blast elim: with_othersE)
qed

section \<open>The four pairings\<close>

definition association_out_step ::
  "(target_addr \<Rightarrow> bytes option) \<Rightarrow> (bytes \<Rightarrow> (u8 \<times> target_addr \<times> bytes) option)
     \<Rightarrow> (target_addr \<Rightarrow> target_addr option) \<Rightarrow> filter_config \<Rightarrow> nat \<Rightarrow> u32 \<Rightarrow> nat \<Rightarrow> nat
     \<Rightarrow> ('l, recv_from_result, bytes \<times> u16, u16 option, recv_from_result, bytes \<times> socket_addr, unit) session_system
     \<Rightarrow> ('l, recv_from_result, bytes \<times> u16, u16 option, recv_from_result, bytes \<times> socket_addr, unit) session_system
     \<Rightarrow> bool" where
  "association_out_step new_udp_header parse_udp_request resolve_dns cfg mdu sid near_rx far_rx =
     session_step mdu sid far_rx
       (relay_bidirectional_udp_client_side sid near_rx)
       (relay_bidirectional_udp_server_side new_udp_header parse_udp_request resolve_dns cfg sid far_rx)"

definition association_back_step ::
  "(target_addr \<Rightarrow> bytes option) \<Rightarrow> (bytes \<Rightarrow> (u8 \<times> target_addr \<times> bytes) option)
     \<Rightarrow> (target_addr \<Rightarrow> target_addr option) \<Rightarrow> filter_config \<Rightarrow> nat \<Rightarrow> u32 \<Rightarrow> nat \<Rightarrow> nat
     \<Rightarrow> ('l, recv_from_result, bytes \<times> socket_addr, unit, recv_from_result, bytes \<times> u16, u16 option) session_system
     \<Rightarrow> ('l, recv_from_result, bytes \<times> socket_addr, unit, recv_from_result, bytes \<times> u16, u16 option) session_system
     \<Rightarrow> bool" where
  "association_back_step new_udp_header parse_udp_request resolve_dns cfg mdu sid near_rx far_rx =
     session_step mdu sid far_rx
       (relay_bidirectional_udp_server_side new_udp_header parse_udp_request resolve_dns cfg sid near_rx)
       (relay_bidirectional_udp_client_side sid far_rx)"

definition forwarded_out_step ::
  "(target_addr \<Rightarrow> bytes option) \<Rightarrow> (bytes \<Rightarrow> (u8 \<times> target_addr \<times> bytes) option)
     \<Rightarrow> (target_addr \<Rightarrow> target_addr option) \<Rightarrow> filter_config \<Rightarrow> u16 \<Rightarrow> nat \<Rightarrow> u32 \<Rightarrow> nat \<Rightarrow> nat
     \<Rightarrow> ('l, read_result, bytes, unit, recv_from_result, bytes \<times> socket_addr, unit) session_system
     \<Rightarrow> ('l, read_result, bytes, unit, recv_from_result, bytes \<times> socket_addr, unit) session_system
     \<Rightarrow> bool" where
  "forwarded_out_step new_udp_header parse_udp_request resolve_dns cfg port mdu sid near_rx far_rx =
     session_step mdu sid far_rx
       (relay_forwarded_udp new_udp_header parse_udp_request port sid near_rx)
       (relay_bidirectional_udp_server_side new_udp_header parse_udp_request resolve_dns cfg sid far_rx)"

definition forwarded_back_step ::
  "(target_addr \<Rightarrow> bytes option) \<Rightarrow> (bytes \<Rightarrow> (u8 \<times> target_addr \<times> bytes) option)
     \<Rightarrow> (target_addr \<Rightarrow> target_addr option) \<Rightarrow> filter_config \<Rightarrow> u16 \<Rightarrow> nat \<Rightarrow> u32 \<Rightarrow> nat \<Rightarrow> nat
     \<Rightarrow> ('l, recv_from_result, bytes \<times> socket_addr, unit, read_result, bytes, unit) session_system
     \<Rightarrow> ('l, recv_from_result, bytes \<times> socket_addr, unit, read_result, bytes, unit) session_system
     \<Rightarrow> bool" where
  "forwarded_back_step new_udp_header parse_udp_request resolve_dns cfg port mdu sid near_rx far_rx =
     session_step mdu sid far_rx
       (relay_bidirectional_udp_server_side new_udp_header parse_udp_request resolve_dns cfg sid near_rx)
       (relay_forwarded_udp new_udp_header parse_udp_request port sid far_rx)"

lemmas udp_step_defs =
  association_out_step_def association_back_step_def forwarded_out_step_def forwarded_back_step_def

text \<open>
  The client's end makes its frames without a header, so its direction needs nothing of the
  codec; the others hold for a codec with short headers.
\<close>

lemma udp_breaks_on_close:
  "is_close f \<Longrightarrow> client_rns_to_udp f x = Break"
  "is_close f \<Longrightarrow> server_rns_to_udp parse resolve cfg f = Break"
  "is_close f \<Longrightarrow> forwarded_rns_to_udp parse f = Break"
  by (simp_all add: is_close_def client_rns_to_udp_def server_rns_to_udp_def forwarded_rns_to_udp_def)

interpretation association_out:
  ending_ends sid far_rx "data_frame sid client_datagram"
    "relay_bidirectional_udp_client_side sid near_rx"
    "relay_bidirectional_udp_server_side hdr parse resolve cfg sid far_rx"
    "\<lambda>f x. server_rns_to_udp parse resolve cfg f \<noteq> Break"
    "written_for (\<lambda>f x. server_rns_to_udp parse resolve cfg f)"
  for sid far_rx near_rx hdr parse resolve cfg
  unfolding relay_step_defs by (intro skeleton_ends client_makes_frames own_data_tasks udp_breaks_on_close)

lemma association_back_ending:
  assumes "short_headers hdr"
  shows "ending_ends sid far_rx (data_frame sid (exit_reply hdr cfg))
    (relay_bidirectional_udp_server_side hdr parse resolve cfg sid near_rx)
    (relay_bidirectional_udp_client_side sid far_rx)
    (\<lambda>f x. client_rns_to_udp f x \<noteq> Break) (written_for client_rns_to_udp)"
  unfolding relay_step_defs by (intro skeleton_ends exit_makes_frames assms own_data_tasks udp_breaks_on_close)

lemma forwarded_out_ending:
  assumes "short_headers hdr"
  shows "ending_ends sid far_rx (data_frame sid (forwarded_datagram hdr p))
    (relay_forwarded_udp hdr parse p sid near_rx)
    (relay_bidirectional_udp_server_side hdr parse resolve cfg sid far_rx)
    (\<lambda>f x. server_rns_to_udp parse resolve cfg f \<noteq> Break)
    (written_for (\<lambda>f x. server_rns_to_udp parse resolve cfg f))"
  unfolding relay_step_defs by (intro skeleton_ends forwarded_makes_frames assms own_data_tasks udp_breaks_on_close)

lemma forwarded_back_ending:
  assumes "short_headers hdr"
  shows "ending_ends sid far_rx (data_frame sid (exit_reply hdr cfg))
    (relay_bidirectional_udp_server_side hdr parse resolve cfg sid near_rx)
    (relay_forwarded_udp hdr parse p sid far_rx)
    (\<lambda>f x. forwarded_rns_to_udp parse f \<noteq> Break) (written_for (\<lambda>f x. forwarded_rns_to_udp parse f))"
  unfolding relay_step_defs by (intro skeleton_ends exit_makes_frames assms own_data_tasks udp_breaks_on_close)

lemma ending_session: "ending_ends sid c frm near_step far_step ready out \<Longrightarrow> session_ends sid c frm near_step far_step"
  by (simp add: ending_ends_def draining_ends_def)

lemmas association_back_ends = ending_session [OF association_back_ending]
lemmas forwarded_out_ends = ending_session [OF forwarded_out_ending]
lemmas forwarded_back_ends = ending_session [OF forwarded_back_ending]

section \<open>What arrives\<close>

text \<open>The payloads the far relay dealt with are those of the first reads that became frames.\<close>

lemma datagrams_carried:
  assumes "session_ok sid (data_frame sid dg) c s"
  shows "prefix (map Some (map payload (filter is_data (handled (far_relay s)))))
    (map dg (reads (near_relay s)))"
proof -
  from map_mono_prefix [OF session_carries(2) [OF assms], of "map_option payload"]
  show ?thesis by (simp add: comp_def option.map_comp option.map_ident)
qed

lemma exit_far_written:
  assumes "(with_others (relay_bidirectional_udp_server_side hdr parse resolve cfg sid c))\<^sup>*\<^sup>*
    (m, relay_start x) (m', r)"
  shows "written r = List.map_filter (exit_datagram parse resolve cfg) (map payload (filter is_data (handled r)))"
  using run_written [OF assms [unfolded relay_step_defs], of
      "\<lambda>f. if is_data f then exit_datagram parse resolve cfg (payload f) else None"]
  by (simp add: exit_writes map_filter_data)

lemma service_far_written:
  assumes "(with_others (relay_forwarded_udp hdr parse p sid c))\<^sup>*\<^sup>* (m, relay_start x) (m', r)"
  shows "written r = List.map_filter (service_datagram parse) (map payload (filter is_data (handled r)))"
  using run_written [OF assms [unfolded relay_step_defs], of
      "\<lambda>f. if is_data f then service_datagram parse (payload f) else None"]
  by (simp add: service_writes map_filter_data)

lemma association_out_carries:
  assumes start: "session_begin (relay_bidirectional_udp_client_side sid near_rx) sid far_rx None () s0"
    and run: "(association_out_step hdr parse resolve cfg mdu sid near_rx far_rx)\<^sup>*\<^sup>* s0 s" and mdu: "0 < mdu"
  shows "\<exists>ds. prefix (map Some ds) (map client_datagram (reads (near_relay s))) \<and>
    written (far_relay s) = List.map_filter (exit_datagram parse resolve cfg) ds"
proof -
  note run' = run [unfolded udp_step_defs] and ok = association_out.ok_begin [OF start]
  from start have "far_relay s0 = relay_start ()" by (simp add: session_begin_def)
  with association_out.far_runs [OF run' mdu ok] datagrams_carried [OF association_out.ok_run [OF run' mdu ok]]
  show ?thesis by (intro exI conjI) (assumption, simp add: exit_far_written)
qed

lemma association_back_carries:
  assumes hdr: "short_headers hdr" and mdu: "0 < mdu"
    and start: "session_begin (relay_bidirectional_udp_server_side hdr parse resolve cfg sid near_rx) sid far_rx () None s0"
    and run: "(association_back_step hdr parse resolve cfg mdu sid near_rx far_rx)\<^sup>*\<^sup>* s0 s"
  shows "\<exists>dropped. prefix (map Some (dropped @ map fst (written (far_relay s))))
      (map (exit_reply hdr cfg) (reads (near_relay s))) \<and>
    (cell (far_relay s) = None \<longrightarrow> written (far_relay s) = [])"
proof -
  note run' = run [unfolded udp_step_defs] and ends = association_back_ends [OF hdr]
  note ok = session_ends.ok_begin [OF ends start]
  from start have "far_relay s0 = relay_start None" by (simp add: session_begin_def)
  with session_ends.far_runs [OF ends run' mdu ok] have "client_writes (far_relay s)"
    by (simp add: run_client_writes)
  with datagrams_carried [OF session_ends.ok_run [OF ends run' mdu ok]] show ?thesis
    unfolding client_writes_def by metis
qed

lemma forwarded_out_carries:
  assumes hdr: "short_headers hdr" and mdu: "0 < mdu"
    and start: "session_begin (relay_forwarded_udp hdr parse port sid near_rx) sid far_rx () () s0"
    and run: "(forwarded_out_step hdr parse resolve cfg port mdu sid near_rx far_rx)\<^sup>*\<^sup>* s0 s"
  shows "\<exists>ds. prefix (map Some ds) (map (forwarded_datagram hdr port) (reads (near_relay s))) \<and>
    written (far_relay s) = List.map_filter (exit_datagram parse resolve cfg) ds"
proof -
  note run' = run [unfolded udp_step_defs] and ends = forwarded_out_ends [OF hdr]
  note ok = session_ends.ok_begin [OF ends start]
  from start have "far_relay s0 = relay_start ()" by (simp add: session_begin_def)
  with session_ends.far_runs [OF ends run' mdu ok] datagrams_carried [OF session_ends.ok_run [OF ends run' mdu ok]]
  show ?thesis by (intro exI conjI) (assumption, simp add: exit_far_written)
qed

lemma forwarded_back_carries:
  assumes hdr: "short_headers hdr" and mdu: "0 < mdu"
    and start: "session_begin (relay_bidirectional_udp_server_side hdr parse resolve cfg sid near_rx) sid far_rx () () s0"
    and run: "(forwarded_back_step hdr parse resolve cfg port mdu sid near_rx far_rx)\<^sup>*\<^sup>* s0 s"
  shows "\<exists>ds. prefix (map Some ds) (map (exit_reply hdr cfg) (reads (near_relay s))) \<and>
    written (far_relay s) = List.map_filter (service_datagram parse) ds"
proof -
  note run' = run [unfolded udp_step_defs] and ends = forwarded_back_ends [OF hdr]
  note ok = session_ends.ok_begin [OF ends start]
  from start have "far_relay s0 = relay_start ()" by (simp add: session_begin_def)
  with session_ends.far_runs [OF ends run' mdu ok] datagrams_carried [OF session_ends.ok_run [OF ends run' mdu ok]]
  show ?thesis by (intro exI conjI) (assumption, simp add: service_far_written)
qed

section \<open>With a codec that reads its own headers\<close>

text \<open>
  \<open>parse_udp_request\<close> undoes \<open>new_udp_header\<close>: the documented relation between the two
  functions of the crate.
\<close>

definition codec_reads_back ::
  "(target_addr \<Rightarrow> bytes option) \<Rightarrow> (bytes \<Rightarrow> (u8 \<times> target_addr \<times> bytes) option) \<Rightarrow> bool" where
  "codec_reads_back new_udp_header parse_udp_request \<longleftrightarrow>
     (\<forall>a h d. new_udp_header a = Some h \<longrightarrow> parse_udp_request (h @ d) = Some (0, a, d))"

definition datagram_bytes :: "recv_from_result \<Rightarrow> bytes" where
  "datagram_bytes i = (case i of DatagramOk buf addr \<Rightarrow> take BUF_SIZE buf | DatagramErr \<Rightarrow> [])"

lemma map_filter_image:
  assumes "prefix (map Some ds) (map dg xs)" "\<And>i d. dg i = Some d \<Longrightarrow> g d = Some (out i)"
  shows "prefix (List.map_filter g ds) (map out xs)"
  using assms(1)
proof (induction ds arbitrary: xs)
  case (Cons d ds)
  then obtain i xs' where xs: "xs = i # xs'" by (cases xs) auto
  with Cons.prems have "dg i = Some d" "prefix (map Some ds) (map dg xs')" by auto
  with Cons.IH assms(2) xs show ?case by (simp add: List.map_filter_def)
qed (simp add: List.map_filter_def)

lemma map_filter_refused:
  assumes "prefix (map Some ds) (map dg xs)" "\<And>i d. dg i = Some d \<Longrightarrow> g d = None"
  shows "List.map_filter g ds = []"
  using assms(1)
proof (induction ds arbitrary: xs)
  case (Cons d ds)
  then obtain i xs' where xs: "xs = i # xs'" by (cases xs) auto
  with Cons.prems have "dg i = Some d" "prefix (map Some ds) (map dg xs')" by auto
  with Cons.IH assms(2) show ?case by (simp add: List.map_filter_def)
qed (simp add: List.map_filter_def)

lemma forwarded_exit_datagram:
  assumes "codec_reads_back hdr parse" "forwarded_datagram hdr port i = Some d"
  shows "exit_datagram parse resolve cfg d =
    map_option (\<lambda>sock. (read_bytes i, sock))
      (filter_and_convert resolve (localhost_target port) (Some cfg) Udp)"
  using assms
  by (auto simp: codec_reads_back_def forwarded_datagram_def exit_datagram_def read_bytes_def
      split: read_result.splits if_splits)

lemma service_exit_reply:
  assumes "codec_reads_back hdr parse" "exit_reply hdr cfg i = Some d"
  shows "service_datagram parse d = Some (datagram_bytes i)"
  using assms
  by (auto simp: codec_reads_back_def exit_reply_def service_datagram_def datagram_bytes_def BUF_SIZE_def
      split: recv_from_result.splits if_splits)

lemma forwarded_out_delivers:
  assumes codec: "codec_reads_back hdr parse"
    and carried: "prefix (map Some ds) (map (forwarded_datagram hdr port) xs)"
  shows "case filter_and_convert resolve (localhost_target port) (Some cfg) Udp of
      Some sock \<Rightarrow> prefix (List.map_filter (exit_datagram parse resolve cfg) ds) (map (\<lambda>i. (read_bytes i, sock)) xs)
    | None \<Rightarrow> List.map_filter (exit_datagram parse resolve cfg) ds = []"
  using map_filter_refused [OF carried, of "exit_datagram parse resolve cfg"]
    map_filter_image [OF carried, of "exit_datagram parse resolve cfg"] forwarded_exit_datagram [OF codec]
  by (simp split: option.split)

section \<open>A codec to point at\<close>

text \<open>A codec with one header, for the port 53 of the loopback address.\<close>

definition one_header :: "target_addr \<Rightarrow> bytes option" where
  "one_header a = (if a = localhost_target 53 then Some [1, 2] else None)"

definition parse_one :: "bytes \<Rightarrow> (u8 \<times> target_addr \<times> bytes) option" where
  "parse_one d = (if take 2 d = [1, 2] then Some (0, localhost_target 53, drop 2 d) else None)"

lemma one_header_codec: "short_headers one_header" "codec_reads_back one_header parse_one"
  by (auto simp: short_headers_def codec_reads_back_def one_header_def parse_one_def split: if_splits)

end
