(* ===== verification/Udp_Delivery.thy ===== *)
theory Udp_Delivery
  imports Udp_Session
begin

text \<open>
  UDP sessions get on and end: the locale \<open>ending_ends\<close> of the theory Session_Drain on the four
  pairings of the theory Udp_Session. While the far relay receives, every datagram that was
  sent can be dealt with; when the near relay has left its \<open>select!\<close>, whatever the reason, its
  CLOSE ends the far relay at the latest, and both ends drop the session.
\<close>

text \<open>The datagrams a relay sent before its CLOSE.\<close>

definition datagrams_sent :: "('i, 'o, 'x) relay \<Rightarrow> bytes list" where
  "datagrams_sent r = map payload (before_close (sent r))"

section \<open>From the reads to what was sent\<close>

lemma before_close_data: "f \<in> set (before_close fs) \<Longrightarrow> is_data f"
  by (metis before_close_def set_takeWhileD)

lemma prefix_before_close: "prefix (before_close fs) (filter is_data fs)"
  unfolding before_close_def by (induction fs) auto

lemma datagrams_of_reads:
  assumes "near_ok sid (data_frame sid dg) r"
  shows "map Some (datagrams_sent r) = map dg (take (length (datagrams_sent r)) (reads r))"
proof -
  have "prefix (map Some (before_close (sent r))) (map (data_frame sid dg) (reads r))"
    using map_mono_prefix [OF prefix_before_close] near_ok_prefix [OF assms] by (rule prefix_order.trans)
  then have "map Some (before_close (sent r)) = take (length (before_close (sent r))) (map (data_frame sid dg) (reads r))"
    by (auto simp: prefix_def)
  from arg_cong [OF this, of "map (map_option payload)"] show ?thesis
    by (simp add: datagrams_sent_def take_map comp_def option.map_comp option.map_ident)
qed

text \<open>A relay that has not sent its CLOSE and waits for its socket has sent all it read.\<close>

lemma all_reads_sent:
  assumes "near_ok sid frm r" "own_frames sid r" "up r = Reading" "stage r = Relaying \<or> stage r = Closing"
  shows "length (datagrams_sent r) = length (reads r)"
proof -
  from assms(1,3) have "map Some (filter is_data (sent r)) = map frm (reads r)" by (auto simp: near_ok_def)
  from arg_cong [OF this, of length] before_close_all [OF assms(2,4)] show ?thesis
    by (metis datagrams_sent_def filter_before_close length_map)
qed

section \<open>The downward tasks get on\<close>

lemma exit_gets_on:
  assumes "\<forall>d\<in>set (datagrams_sent r). parse d \<noteq> None"
  shows "\<forall>f\<in>set (before_close (sent r)). server_rns_to_udp parse resolve cfg f \<noteq> Break"
proof
  fix f assume "f \<in> set (before_close (sent r))"
  with assms before_close_data have "is_data f" "parse (payload f) \<noteq> None" unfolding datagrams_sent_def by auto
  then show "server_rns_to_udp parse resolve cfg f \<noteq> Break"
    by (auto simp: server_rns_to_udp_def is_data_def split: option.splits)
qed

lemma service_gets_on:
  assumes "\<forall>d\<in>set (datagrams_sent r). parse d \<noteq> None"
  shows "\<forall>f\<in>set (before_close (sent r)). forwarded_rns_to_udp parse f \<noteq> Break"
proof
  fix f assume "f \<in> set (before_close (sent r))"
  with assms before_close_data have "is_data f" "parse (payload f) \<noteq> None" unfolding datagrams_sent_def by auto
  then show "forwarded_rns_to_udp parse f \<noteq> Break"
    by (auto simp: forwarded_rns_to_udp_def is_data_def split: option.splits)
qed

lemma client_gets_on: "\<forall>f\<in>set (before_close fs). client_rns_to_udp f x \<noteq> Break"
  by (auto simp: client_rns_to_udp_def is_data_def split: option.split dest!: before_close_data)

lemma map_filter_client:
  "\<forall>f\<in>set fs. is_data f \<Longrightarrow>
     List.map_filter (\<lambda>f. written_for client_rns_to_udp f (Some port)) fs = map (\<lambda>f. (payload f, port)) fs"
  by (induction fs) (auto simp: List.map_filter_def written_for_def client_rns_to_udp_def is_data_def)

text \<open>The far relay of a run that still receives has had no CLOSE.\<close>

lemma exit_open:
  assumes "(with_others (relay_bidirectional_udp_server_side hdr parse resolve cfg sid c))\<^sup>*\<^sup>* (m, relay_start x) (m', r)" "down r"
  shows "\<forall>f\<in>set (handled r). \<not> is_close f"
  using receiving_no_close [OF assms(1) [unfolded relay_step_defs] _ assms(2)] udp_breaks_on_close(2) by blast

lemma client_open:
  assumes "(with_others (relay_bidirectional_udp_client_side sid c))\<^sup>*\<^sup>* (m, relay_start x) (m', r)" "down r"
  shows "\<forall>f\<in>set (handled r). \<not> is_close f"
  using receiving_no_close [OF assms(1) [unfolded relay_step_defs] _ assms(2)] udp_breaks_on_close(1) by blast

lemma service_open:
  assumes "(with_others (relay_forwarded_udp hdr parse p sid c))\<^sup>*\<^sup>* (m, relay_start x) (m', r)" "down r"
  shows "\<forall>f\<in>set (handled r). \<not> is_close f"
  using receiving_no_close [OF assms(1) [unfolded relay_step_defs] _ assms(2)] udp_breaks_on_close(3) by blast

section \<open>Delivery\<close>

text \<open>What the exit node and the forwarding client write once they dealt with all of it.\<close>

lemma exit_written_all:
  assumes "(with_others (relay_bidirectional_udp_server_side hdr parse resolve cfg sid c))\<^sup>*\<^sup>* (m, relay_start x) (m', q)"
    and "filter is_data (handled q) = before_close (sent r)"
  shows "written q = List.map_filter (exit_datagram parse resolve cfg) (datagrams_sent r)"
  using exit_far_written [OF assms(1)] assms(2) by (simp add: datagrams_sent_def)

lemma service_written_all:
  assumes "(with_others (relay_forwarded_udp hdr parse p sid c))\<^sup>*\<^sup>* (m, relay_start x) (m', q)"
    and "filter is_data (handled q) = before_close (sent r)"
  shows "written q = List.map_filter (service_datagram parse) (datagrams_sent r)"
  using service_far_written [OF assms(1)] assms(2) by (simp add: datagrams_sent_def)

lemma association_out_delivers:
  assumes start: "session_begin (relay_bidirectional_udp_client_side sid near_rx) sid far_rx None () s0"
    and run: "(association_out_step hdr parse resolve cfg mdu sid near_rx far_rx)\<^sup>*\<^sup>* s0 s" and mdu: "0 < mdu"
    and far: "down (far_relay s)" "stage (far_relay s) \<noteq> Ended"
    and parses: "\<forall>d\<in>set (datagrams_sent (near_relay s)). parse d \<noteq> None"
  shows "\<exists>s'. (association_out_step hdr parse resolve cfg mdu sid near_rx far_rx)\<^sup>*\<^sup>* s s' \<and> near_relay s' = near_relay s \<and>
    written (far_relay s') = List.map_filter (exit_datagram parse resolve cfg) (datagrams_sent (near_relay s))"
proof -
  note run' = run [unfolded udp_step_defs]
  from exit_open [OF association_out.ok_reached(2) [OF start run' mdu] far(1)]
  have no_close: "\<forall>f\<in>set (handled (far_relay s)). \<not> is_close f" .
  from association_out.delivers_reached [OF start run' mdu far no_close exit_gets_on [OF parses]] obtain s' where
    "(association_out_step hdr parse resolve cfg mdu sid near_rx far_rx)\<^sup>*\<^sup>* s s'" "near_relay s' = near_relay s"
    "(with_others (relay_bidirectional_udp_server_side hdr parse resolve cfg sid far_rx))\<^sup>*\<^sup>*
      (far (tun s0), relay_start ()) (far (tun s'), far_relay s')"
    "handled (far_relay s') = before_close (sent (near_relay s))" unfolding udp_step_defs by blast
  with exit_written_all show ?thesis by (metis filter_before_close)
qed

text \<open>With a codec that reads back its headers, what was sent on a forwarded port parses.\<close>

lemma sent_from_reads:
  assumes "near_ok sid (data_frame sid dg) r" "d \<in> set (datagrams_sent r)"
  shows "\<exists>i\<in>set (reads r). dg i = Some d"
proof -
  from assms(2) have "Some d \<in> set (map Some (datagrams_sent r))" by simp
  then show ?thesis unfolding datagrams_of_reads [OF assms(1)] by (auto dest: in_set_takeD)
qed

lemma datagram_parses:
  assumes "codec_reads_back hdr parse"
  shows "forwarded_datagram hdr port j = Some d \<Longrightarrow> parse d \<noteq> None"
    and "exit_reply hdr cfg i = Some d \<Longrightarrow> parse d \<noteq> None"
  using assms
  by (auto simp: codec_reads_back_def forwarded_datagram_def exit_reply_def
      split: read_result.splits recv_from_result.splits if_splits)

lemma datagrams_image:
  assumes "map Some ds = map dg xs" "\<And>i d. dg i = Some d \<Longrightarrow> g d = map_option (h i) y"
  shows "List.map_filter g ds = (case y of Some z \<Rightarrow> map (\<lambda>i. h i z) xs | None \<Rightarrow> [])"
  using assms(1)
proof (induction ds arbitrary: xs)
  case Nil
  then show ?case by (simp add: List.map_filter_def split: option.split)
next
  case (Cons d ds)
  then obtain i xs' where xs: "xs = i # xs'" "dg i = Some d" "map Some ds = map dg xs'" by (cases xs) auto
  from Cons.IH [OF xs(3)] assms(2) [OF xs(2)] xs(1) show ?case
    by (simp add: List.map_filter_def split: option.splits)
qed

lemma forwarded_out_delivered:
  assumes hdr: "short_headers hdr" "codec_reads_back hdr parse" and mdu: "0 < mdu"
    and start: "session_begin (relay_forwarded_udp hdr parse port sid near_rx) sid far_rx () () s0"
    and run: "(forwarded_out_step hdr parse resolve cfg port mdu sid near_rx far_rx)\<^sup>*\<^sup>* s0 s"
    and far: "down (far_relay s)" "stage (far_relay s) \<noteq> Ended"
  shows "\<exists>s'. (forwarded_out_step hdr parse resolve cfg port mdu sid near_rx far_rx)\<^sup>*\<^sup>* s s' \<and> near_relay s' = near_relay s \<and>
    written (far_relay s') =
      (case filter_and_convert resolve (localhost_target port) (Some cfg) Udp of
         Some sock \<Rightarrow> map (\<lambda>i. (read_bytes i, sock)) (take (length (datagrams_sent (near_relay s))) (reads (near_relay s)))
       | None \<Rightarrow> []) \<and>
    (up (near_relay s) = Reading \<and> stage (near_relay s) = Relaying \<longrightarrow>
       length (datagrams_sent (near_relay s)) = length (reads (near_relay s)))"
proof -
  note run' = run [unfolded udp_step_defs] and ends = forwarded_out_ending [OF hdr(1)]
  note ok = ending_ends.ok_reached [OF ends start run' mdu]
  from ok(1) have near: "near_ok sid (data_frame sid (forwarded_datagram hdr port)) (near_relay s)"
    by (simp add: session_ok_def)
  have parses: "\<forall>d\<in>set (datagrams_sent (near_relay s)). parse d \<noteq> None"
    using sent_from_reads [OF near] datagram_parses(1) [OF hdr(2)] by blast
  from ending_ends.delivers_reached [OF ends start run' mdu far exit_open [OF ok(2) far(1)] exit_gets_on [OF parses]]
  obtain s' where
    s': "(forwarded_out_step hdr parse resolve cfg port mdu sid near_rx far_rx)\<^sup>*\<^sup>* s s'" "near_relay s' = near_relay s"
    "(with_others (relay_bidirectional_udp_server_side hdr parse resolve cfg sid far_rx))\<^sup>*\<^sup>*
      (far (tun s0), relay_start ()) (far (tun s'), far_relay s')"
    "handled (far_relay s') = before_close (sent (near_relay s))" unfolding udp_step_defs by blast
  have "written (far_relay s') = List.map_filter (exit_datagram parse resolve cfg) (datagrams_sent (near_relay s))"
    using exit_written_all [OF s'(3), of "near_relay s"] s'(4) by simp
  also have "\<dots> =
      (case filter_and_convert resolve (localhost_target port) (Some cfg) Udp of
         Some sock \<Rightarrow> map (\<lambda>i. (read_bytes i, sock)) (take (length (datagrams_sent (near_relay s))) (reads (near_relay s)))
       | None \<Rightarrow> [])"
    by (rule datagrams_image [OF datagrams_of_reads [OF near]]) (rule forwarded_exit_datagram [OF hdr(2)])
  finally have "written (far_relay s') = \<dots>" .
  with s'(1,2) all_reads_sent [OF near ending_ends.own_run [OF ends start run']] show ?thesis by blast
qed

lemma forwarded_back_delivered:
  assumes hdr: "short_headers hdr" "codec_reads_back hdr parse" and mdu: "0 < mdu"
    and start: "session_begin (relay_bidirectional_udp_server_side hdr parse resolve cfg sid near_rx) sid far_rx () () s0"
    and run: "(forwarded_back_step hdr parse resolve cfg port mdu sid near_rx far_rx)\<^sup>*\<^sup>* s0 s"
    and far: "down (far_relay s)" "stage (far_relay s) \<noteq> Ended"
  shows "\<exists>s'. (forwarded_back_step hdr parse resolve cfg port mdu sid near_rx far_rx)\<^sup>*\<^sup>* s s' \<and> near_relay s' = near_relay s \<and>
    written (far_relay s') = map datagram_bytes (take (length (datagrams_sent (near_relay s))) (reads (near_relay s))) \<and>
    (up (near_relay s) = Reading \<and> stage (near_relay s) = Relaying \<longrightarrow>
       length (datagrams_sent (near_relay s)) = length (reads (near_relay s)))"
proof -
  note run' = run [unfolded udp_step_defs] and ends = forwarded_back_ending [OF hdr(1)]
  note ok = ending_ends.ok_reached [OF ends start run' mdu]
  from ok(1) have near: "near_ok sid (data_frame sid (exit_reply hdr cfg)) (near_relay s)"
    by (simp add: session_ok_def)
  have parses: "\<forall>d\<in>set (datagrams_sent (near_relay s)). parse d \<noteq> None"
    using sent_from_reads [OF near] datagram_parses(2) [OF hdr(2)] by blast
  from ending_ends.delivers_reached [OF ends start run' mdu far service_open [OF ok(2) far(1)] service_gets_on [OF parses]]
  obtain s' where
    s': "(forwarded_back_step hdr parse resolve cfg port mdu sid near_rx far_rx)\<^sup>*\<^sup>* s s'" "near_relay s' = near_relay s"
    "(with_others (relay_forwarded_udp hdr parse port sid far_rx))\<^sup>*\<^sup>* (far (tun s0), relay_start ()) (far (tun s'), far_relay s')"
    "handled (far_relay s') = before_close (sent (near_relay s))" unfolding udp_step_defs by blast
  have "written (far_relay s') = List.map_filter (service_datagram parse) (datagrams_sent (near_relay s))"
    using service_written_all [OF s'(3), of "near_relay s"] s'(4) by simp
  also have "\<dots> = (case Some () of Some u \<Rightarrow> map datagram_bytes (take (length (datagrams_sent (near_relay s))) (reads (near_relay s)))
      | None \<Rightarrow> [])"
    by (rule datagrams_image [OF datagrams_of_reads [OF near]]) (simp add: service_exit_reply [OF hdr(2)])
  finally have "written (far_relay s') = map datagram_bytes (take (length (datagrams_sent (near_relay s))) (reads (near_relay s)))"
    by simp
  with s'(1,2) all_reads_sent [OF near ending_ends.own_run [OF ends start run']] show ?thesis by blast
qed

text \<open>
  On the way back of an association the client writes what is left to the port of its local
  client, once it knows it; what came before that is dropped.
\<close>

lemma association_back_delivers:
  assumes hdr: "short_headers hdr" and mdu: "0 < mdu"
    and start: "session_begin (relay_bidirectional_udp_server_side hdr parse resolve cfg sid near_rx) sid far_rx () None s0"
    and run: "(association_back_step hdr parse resolve cfg mdu sid near_rx far_rx)\<^sup>*\<^sup>* s0 s"
    and far: "down (far_relay s)" "stage (far_relay s) \<noteq> Ended" "cell (far_relay s) = Some port"
  shows "\<exists>s' rest. (association_back_step hdr parse resolve cfg mdu sid near_rx far_rx)\<^sup>*\<^sup>* s s' \<and>
    near_relay s' = near_relay s \<and> datagrams_sent (near_relay s) = map payload (handled (far_relay s)) @ rest \<and>
    written (far_relay s') = written (far_relay s) @ map (\<lambda>d. (d, port)) rest"
proof -
  note run' = run [unfolded udp_step_defs] and ends = association_back_ending [OF hdr]
  note ok = ending_ends.ok_reached [OF ends start run' mdu]
  note no_close = client_open [OF ok(2) far(1)]
  let ?all = "before_close (sent (near_relay s))"
  from handled_before_close [OF session_carries(1) [OF ok(1)] ending_ends.own_run [OF ends start run'] no_close] obtain fs where
    fs: "?all = handled (far_relay s) @ fs" by blast
  then have "\<forall>f\<in>set fs. is_data f" using before_close_data [of _ "sent (near_relay s)"] by auto
  from map_filter_client [OF this] fs far(3)
    ending_ends.delivers_reached [OF ends start run' mdu far(1,2) no_close client_gets_on] obtain s' where
    "(association_back_step hdr parse resolve cfg mdu sid near_rx far_rx)\<^sup>*\<^sup>* s s'" "near_relay s' = near_relay s"
    "written (far_relay s') = written (far_relay s) @ map (\<lambda>f. (payload f, port)) fs" unfolding udp_step_defs by auto
  with fs show ?thesis
    by (intro exI [of _ s'] exI [of _ "map payload fs"]) (simp add: datagrams_sent_def)
qed

section \<open>The end\<close>

text \<open>
  When the near relay has left its \<open>select!\<close>, there is a run to the end of both, whatever the
  state of the far one; if that one still relays and everything sent before the CLOSE parses,
  it deals with all of it first.
\<close>

definition udp_ended ::
  "u32 \<Rightarrow> ('l, 'i, 'o, 'x, 'j, 'p, 'y) session_system \<Rightarrow> ('l, 'i, 'o, 'x, 'j, 'p, 'y) session_system \<Rightarrow> bool" where
  "udp_ended sid s s' \<longleftrightarrow>
     stage (near_relay s') = Ended \<and> stage (far_relay s') = Ended \<and>
     (stage (far_relay s) \<noteq> Ended \<longrightarrow> sessions (far (tun s')) sid = None) \<and>
     (stage (near_relay s) \<noteq> Ended \<longrightarrow> sessions (near (tun s')) sid = None)"

lemma association_out_writes_and_ends:
  assumes start: "session_begin (relay_bidirectional_udp_client_side sid near_rx) sid far_rx None () s0"
    and run: "(association_out_step hdr parse resolve cfg mdu sid near_rx far_rx)\<^sup>*\<^sup>* s0 s" and mdu: "0 < mdu"
    and near: "stage (near_relay s) \<noteq> Relaying" and far: "down (far_relay s)" "stage (far_relay s) = Relaying"
    and parses: "\<forall>d\<in>set (datagrams_sent (near_relay s)). parse d \<noteq> None"
  shows "\<exists>s'. (association_out_step hdr parse resolve cfg mdu sid near_rx far_rx)\<^sup>*\<^sup>* s s' \<and> udp_ended sid s s' \<and>
    written (far_relay s') = List.map_filter (exit_datagram parse resolve cfg) (datagrams_sent (near_relay s))"
proof -
  note run' = run [unfolded udp_step_defs]
  from association_out.ends_reached [OF start run' mdu near far
      exit_open [OF association_out.ok_reached(2) [OF start run' mdu] far(1)] exit_gets_on [OF parses]] obtain s' where
    s': "(association_out_step hdr parse resolve cfg mdu sid near_rx far_rx)\<^sup>*\<^sup>* s s'" "udp_ended sid s s'"
    "(with_others (relay_bidirectional_udp_server_side hdr parse resolve cfg sid far_rx))\<^sup>*\<^sup>*
      (far (tun s0), relay_start ()) (far (tun s'), far_relay s')"
    "handled (far_relay s') = before_close (sent (near_relay s)) @ [frame_new Close sid []]"
    unfolding udp_step_defs udp_ended_def by blast
  with exit_written_all [OF s'(3), of "near_relay s"] show ?thesis by auto
qed

lemma association_out_ends:
  assumes start: "session_begin (relay_bidirectional_udp_client_side sid near_rx) sid far_rx None () s0"
    and run: "(association_out_step hdr parse resolve cfg mdu sid near_rx far_rx)\<^sup>*\<^sup>* s0 s" and mdu: "0 < mdu"
    and near: "stage (near_relay s) \<noteq> Relaying"
  shows "\<exists>s'. (association_out_step hdr parse resolve cfg mdu sid near_rx far_rx)\<^sup>*\<^sup>* s s' \<and> udp_ended sid s s' \<and>
    (stage (far_relay s) = Relaying \<and> (\<forall>d\<in>set (datagrams_sent (near_relay s)). parse d \<noteq> None) \<longrightarrow>
       written (far_relay s') = List.map_filter (exit_datagram parse resolve cfg) (datagrams_sent (near_relay s)))"
proof -
  note run' = run [unfolded udp_step_defs]
  note far = association_out.ok_reached(2) [OF start run' mdu]
  have down: "stage (far_relay s) = Relaying \<longrightarrow> down (far_relay s)"
    by (rule relaying_receives [OF far [unfolded relay_bidirectional_udp_server_side_def]])
  show ?thesis
  proof (cases "stage (far_relay s) = Relaying \<and> (\<forall>d\<in>set (datagrams_sent (near_relay s)). parse d \<noteq> None)")
    case True
    with association_out_writes_and_ends [OF start run mdu near] down show ?thesis by blast
  next
    case False
    from association_out.anyway_reached [OF start run' mdu near down] exit_open [OF far] False show ?thesis
      unfolding udp_step_defs udp_ended_def by blast
  qed
qed

lemma association_back_ended:
  assumes hdr: "short_headers hdr" and mdu: "0 < mdu"
    and start: "session_begin (relay_bidirectional_udp_server_side hdr parse resolve cfg sid near_rx) sid far_rx () None s0"
    and run: "(association_back_step hdr parse resolve cfg mdu sid near_rx far_rx)\<^sup>*\<^sup>* s0 s"
    and near: "stage (near_relay s) \<noteq> Relaying"
  shows "\<exists>s'. (association_back_step hdr parse resolve cfg mdu sid near_rx far_rx)\<^sup>*\<^sup>* s s' \<and> udp_ended sid s s'"
proof -
  note run' = run [unfolded udp_step_defs] and ends = association_back_ending [OF hdr]
  note far = ending_ends.ok_reached(2) [OF ends start run' mdu]
  from ending_ends.anyway_reached [OF ends start run' mdu near
      relaying_receives [OF far [unfolded relay_bidirectional_udp_client_side_def]]] client_open [OF far] show ?thesis
    unfolding udp_step_defs udp_ended_def by blast
qed

lemma forwarded_out_ended:
  assumes hdr: "short_headers hdr" and mdu: "0 < mdu"
    and start: "session_begin (relay_forwarded_udp hdr parse port sid near_rx) sid far_rx () () s0"
    and run: "(forwarded_out_step hdr parse resolve cfg port mdu sid near_rx far_rx)\<^sup>*\<^sup>* s0 s"
    and near: "stage (near_relay s) \<noteq> Relaying"
  shows "\<exists>s'. (forwarded_out_step hdr parse resolve cfg port mdu sid near_rx far_rx)\<^sup>*\<^sup>* s s' \<and> udp_ended sid s s'"
proof -
  note run' = run [unfolded udp_step_defs] and ends = forwarded_out_ending [OF hdr]
  note far = ending_ends.ok_reached(2) [OF ends start run' mdu]
  from ending_ends.anyway_reached [OF ends start run' mdu near
      relaying_receives [OF far [unfolded relay_bidirectional_udp_server_side_def]]] exit_open [OF far] show ?thesis
    unfolding udp_step_defs udp_ended_def by blast
qed

lemma forwarded_back_ended:
  assumes hdr: "short_headers hdr" and mdu: "0 < mdu"
    and start: "session_begin (relay_bidirectional_udp_server_side hdr parse resolve cfg sid near_rx) sid far_rx () () s0"
    and run: "(forwarded_back_step hdr parse resolve cfg port mdu sid near_rx far_rx)\<^sup>*\<^sup>* s0 s"
    and near: "stage (near_relay s) \<noteq> Relaying"
  shows "\<exists>s'. (forwarded_back_step hdr parse resolve cfg port mdu sid near_rx far_rx)\<^sup>*\<^sup>* s s' \<and> udp_ended sid s s'"
proof -
  note run' = run [unfolded udp_step_defs] and ends = forwarded_back_ending [OF hdr]
  note far = ending_ends.ok_reached(2) [OF ends start run' mdu]
  from ending_ends.anyway_reached [OF ends start run' mdu near
      relaying_receives [OF far [unfolded relay_forwarded_udp_def]]] service_open [OF far] show ?thesis
    unfolding udp_step_defs udp_ended_def by blast
qed

end
