(* ===== verification/Node.thy ===== *)
theory Node
  imports Prelude
begin

text \<open>
  \<open>src/node.rs\<close> and the path helpers of \<open>src/lib.rs\<close>. The callbacks turn what the RNS
  node reports into events of one queue, read by the event loops of client and server. The
  node itself (\<open>rns_net\<close>: \<open>has_path\<close>, \<open>request_path\<close>, \<open>recall_identity\<close>) is outside; its
  state \<open>'w\<close> and the answers are parameters, and so is what a second of sleep does to it.
  The round-trip time of an established link is a \<open>f64\<close> that is only printed; it is kept
  as its 64 bits.
\<close>

section \<open>Events\<close>

datatype ('l, 'd) proxy_event =
    LinkEstablished 'l u64 bool  \<comment> \<open>link id, round-trip time, is initiator\<close>
  | LinkClosed 'l "'d option"    \<comment> \<open>link id, teardown reason\<close>
  | LinkData 'l bytes
  | PathUpdated

text \<open>The unbounded event channel; \<open>let _ = tx.send(\<dots>)\<close> ignores a receiver that is gone.\<close>

record ('l, 'd) event_chan =
  events :: "('l, 'd) proxy_event list"
  listening :: bool

definition post :: "('l, 'd) proxy_event \<Rightarrow> ('l, 'd) event_chan \<Rightarrow> ('l, 'd) event_chan" where
  "post e q = (if listening q then q\<lparr>events := events q @ [e]\<rparr> else q)"

definition on_announce :: "'a \<Rightarrow> ('l, 'd) event_chan \<Rightarrow> ('l, 'd) event_chan" where
  "on_announce announced q = q"

definition on_path_updated :: "bytes \<Rightarrow> u8 \<Rightarrow> ('l, 'd) event_chan \<Rightarrow> ('l, 'd) event_chan" where
  "on_path_updated dest_hash hops q = post PathUpdated q"

definition on_local_delivery ::
  "bytes \<Rightarrow> bytes \<Rightarrow> bytes \<Rightarrow> ('l, 'd) event_chan \<Rightarrow> ('l, 'd) event_chan" where
  "on_local_delivery dest_hash raw packet_hash q = q"

definition on_link_established ::
  "'l \<Rightarrow> bytes \<Rightarrow> u64 \<Rightarrow> bool \<Rightarrow> ('l, 'd) event_chan \<Rightarrow> ('l, 'd) event_chan" where
  "on_link_established l dest_hash rtt is_initiator q = post (LinkEstablished l rtt is_initiator) q"

definition on_link_closed ::
  "'l \<Rightarrow> 'd option \<Rightarrow> ('l, 'd) event_chan \<Rightarrow> ('l, 'd) event_chan" where
  "on_link_closed l reason q = post (LinkClosed l reason) q"

definition on_link_data ::
  "'l \<Rightarrow> u8 \<Rightarrow> bytes \<Rightarrow> ('l, 'd) event_chan \<Rightarrow> ('l, 'd) event_chan" where
  "on_link_data l ctx data q = post (LinkData l data) q"

text \<open>The calls of one node in their order, and the events they leave in the queue.\<close>

datatype ('l, 'd) callback =
    Announce
  | PathUpdate bytes u8
  | LocalDelivery bytes bytes bytes
  | Established 'l bytes u64 bool
  | ClosedLink 'l "'d option"
  | DataIn 'l u8 bytes

fun run_callback :: "('l, 'd) callback \<Rightarrow> ('l, 'd) event_chan \<Rightarrow> ('l, 'd) event_chan" where
  "run_callback Announce q = on_announce () q"
| "run_callback (PathUpdate h n) q = on_path_updated h n q"
| "run_callback (LocalDelivery h raw p) q = on_local_delivery h raw p q"
| "run_callback (Established l h rtt i) q = on_link_established l h rtt i q"
| "run_callback (ClosedLink l reason) q = on_link_closed l reason q"
| "run_callback (DataIn l ctx data) q = on_link_data l ctx data q"

lemmas callback_defs =
  on_announce_def on_path_updated_def on_local_delivery_def on_link_established_def
  on_link_closed_def on_link_data_def post_def

text \<open>The data events in the queue are the data the node delivered, per link and in order.\<close>

definition event_data :: "'l \<Rightarrow> ('l, 'd) proxy_event list \<Rightarrow> bytes list" where
  "event_data l es = concat (map (\<lambda>e. case e of LinkData k d \<Rightarrow> if k = l then [d] else [] | _ \<Rightarrow> []) es)"

definition callback_data :: "'l \<Rightarrow> ('l, 'd) callback list \<Rightarrow> bytes list" where
  "callback_data l cs = concat (map (\<lambda>c. case c of DataIn k ctx d \<Rightarrow> if k = l then [d] else [] | _ \<Rightarrow> []) cs)"

lemma listening_callback [simp]: "listening (run_callback c q) = listening q"
  by (cases c) (simp_all add: callback_defs)

lemma event_data_callback:
  "listening q \<Longrightarrow> event_data l (events (run_callback c q)) = event_data l (events q) @ callback_data l [c]"
  by (cases c) (simp_all add: callback_defs event_data_def callback_data_def)

lemma event_data_callbacks:
  "listening q \<Longrightarrow>
     event_data l (events (fold run_callback cs q)) = event_data l (events q) @ callback_data l cs"
proof (induction cs arbitrary: q)
  case (Cons c cs)
  then show ?case
    by (simp add: event_data_callback) (simp add: callback_data_def)
qed (simp add: callback_data_def)

section \<open>Paths\<close>

text \<open>
  The loop of \<open>ensure_path\<close>: at most \<open>n\<close> times a second of sleep and a question;
  \<open>unwrap_or(false)\<close> reads an error (\<open>None\<close>) as no path.
\<close>

definition path_known :: "bool option \<Rightarrow> bool" where
  "path_known answer = (case answer of Some b \<Rightarrow> b | None \<Rightarrow> False)"

fun poll_path ::
  "('w \<Rightarrow> bool option \<times> 'w) \<Rightarrow> ('w \<Rightarrow> 'w) \<Rightarrow> nat \<Rightarrow> 'w \<Rightarrow> bool \<times> 'w" where
  "poll_path has_path sleep 0 w = (False, w)"
| "poll_path has_path sleep (Suc n) w =
     (let (answer, w') = has_path (sleep w)
      in if path_known answer then (True, w') else poll_path has_path sleep n w')"

definition ensure_path ::
  "('w \<Rightarrow> bool option \<times> 'w) \<Rightarrow> ('w \<Rightarrow> 'w) \<Rightarrow> ('w \<Rightarrow> 'w) \<Rightarrow> u32 \<Rightarrow> 'w \<Rightarrow> bool \<times> 'w" where
  "ensure_path has_path request_path sleep timeout_secs w =
     (let (answer, w') = has_path w
      in if path_known answer then (True, w')
         else poll_path has_path sleep (unat timeout_secs) (request_path w'))"

text \<open>
  \<open>Ok(Some(recalled))\<close> is \<open>Some (Some key)\<close>; the signing key is the second half of the
  64-byte public key.
\<close>

definition recall_sig_pub :: "bytes option option \<Rightarrow> bytes option" where
  "recall_sig_pub recalled =
     (case recalled of
        Some (Some public_key) \<Rightarrow> Some (take 32 (drop 32 public_key))
      | _ \<Rightarrow> None)"

text \<open>The state before the \<open>k\<close>-th poll when no poll before it answered yes.\<close>

definition poll_state :: "('w \<Rightarrow> bool option \<times> 'w) \<Rightarrow> ('w \<Rightarrow> 'w) \<Rightarrow> nat \<Rightarrow> 'w \<Rightarrow> 'w" where
  "poll_state has_path sleep k w = ((\<lambda>w. snd (has_path (sleep w))) ^^ k) w"

lemma poll_state_simps [simp]:
  "poll_state hp sl 0 w = w"
  "poll_state hp sl (Suc k) w = poll_state hp sl k (snd (hp (sl w)))"
  by (simp_all add: poll_state_def funpow_Suc_right del: funpow.simps(2))

lemma poll_path_iff:
  "fst (poll_path hp sl n w) \<longleftrightarrow> (\<exists>k<n. path_known (fst (hp (sl (poll_state hp sl k w)))))"
proof (induction n arbitrary: w)
  case (Suc n)
  let ?a = "path_known (fst (hp (sl w)))"
  have "fst (poll_path hp sl (Suc n) w) \<longleftrightarrow> ?a \<or> fst (poll_path hp sl n (snd (hp (sl w))))"
    by (simp add: Let_def case_prod_beta)
  also have "\<dots> \<longleftrightarrow> (\<exists>k<Suc n. path_known (fst (hp (sl (poll_state hp sl k w)))))"
    by (simp add: Suc.IH Ex_less_Suc2)
  finally show ?case .
qed simp

lemma poll_path_exhausted:
  "\<not> fst (poll_path hp sl n w) \<Longrightarrow> snd (poll_path hp sl n w) = poll_state hp sl n w"
  by (induction n arbitrary: w) (auto simp: Let_def case_prod_beta split: if_splits)

end
