(* ===== verification/Server.thy ===== *)
theory Server
  imports Relay Node
begin

text \<open>
  \<open>src/server.rs\<close>: the event loop of the exit node and its session handlers. One
  multiplexer per link, held by handle: \<open>link_muxes\<close> maps a link to an index of the store
  \<open>muxes\<close>, and a spawned session task holds the index too, so a multiplexer outlives its
  entry in the map as an \<open>Arc\<close> does. The event loop goes through the frames of an arrival one
  by one (\<open>server_event\<close>, \<open>server_resume\<close>), and a send that finds the channel full suspends it
  there; a handler that would be suspended is \<open>None\<close>. Connecting and binding sockets (\<open>tokio\<close>) and name
  resolution are parameters. What happens before the event loop is in the
  theory Startup.
\<close>

section \<open>State\<close>

text \<open>A spawned session task: the multiplexer it holds, its id, its target, its channel.\<close>

datatype session_task =
    SessionTcp nat u32 target_addr nat
  | SessionUdp nat u32 target_addr nat

text \<open>\<open>backlog\<close> is what is left of the frames of the last arrival, with their multiplexer.\<close>

record 'l server =
  muxes :: "'l mux list"
  link_muxes :: "'l \<rightharpoonup> nat"
  tasks :: "session_task list"
  backlog :: "(nat \<times> frame) list"

definition server_start :: "'l server" where
  "server_start = \<lparr>muxes = [], link_muxes = Map.empty, tasks = [], backlog = []\<rparr>"

definition update_mux :: "nat \<Rightarrow> 'l mux \<Rightarrow> 'l server \<Rightarrow> 'l server" where
  "update_mux h m s = s\<lparr>muxes := (muxes s)[h := m]\<rparr>"

section \<open>The event loop\<close>

text \<open>
  One frame of a link's data: the body of the \<open>for\<close> loop of \<open>run_server\<close>. It is \<open>None\<close> while the
  CONN_ERR for a CONNECT that cannot be read does not fit into the channel of the link sender.
\<close>

definition server_frame :: "nat \<Rightarrow> frame \<Rightarrow> 'l server \<Rightarrow> 'l server option" where
  "server_frame h f s =
     (let mux = muxes s ! h; sid = session_id f
      in case frame_type f of
           Connect \<Rightarrow>
             (case decode_connect_payload (payload f) of
                Some (host, port, udp) \<Rightarrow>
                  (let addr = Domain host port;
                       (session_rx, mux') = register_session sid mux;
                       s' = update_mux h mux' s
                   in Some (s'\<lparr>tasks := tasks s @
                        [if udp then SessionUdp h sid addr session_rx
                         else SessionTcp h sid addr session_rx]\<rparr>))
              | None \<Rightarrow>
                  (case send ConnectErr sid (str_bytes ''invalid payload'') mux of
                     Some mux' \<Rightarrow> Some (update_mux h mux' s)
                   | None \<Rightarrow> None))
         | Data \<Rightarrow> Some (update_mux h (dispatch f mux) s)
         | Close \<Rightarrow> Some (update_mux h (dispatch f mux) s)
         | _ \<Rightarrow> Some s)"

text \<open>
  The loop takes an event when it is done with the frames of the last one. It goes on with the
  next frame whenever that one can be handled; between two frames anything may happen.
\<close>

fun server_takes :: "('l, 'd) proxy_event \<Rightarrow> 'l server \<Rightarrow> 'l server" where
  "server_takes (LinkEstablished l rtt is_initiator) s =
     (if is_initiator then s
      else s\<lparr>muxes := muxes s @ [set_link_id l mux_new],
             link_muxes := (link_muxes s)(l \<mapsto> length (muxes s))\<rparr>)"
| "server_takes (LinkClosed l reason) s = s\<lparr>link_muxes := (link_muxes s)(l := None)\<rparr>"
| "server_takes (LinkData l data) s =
     (case link_muxes s l of
        None \<Rightarrow> s
      | Some h \<Rightarrow>
          (let (frames, mux) = receive_data data (muxes s ! h)
           in (update_mux h mux s)\<lparr>backlog := map (Pair h) frames\<rparr>))"
| "server_takes PathUpdated s = s"

definition server_event :: "('l, 'd) proxy_event \<Rightarrow> 'l server \<Rightarrow> 'l server option" where
  "server_event e s = (if backlog s = [] then Some (server_takes e s) else None)"

definition server_resume :: "'l server \<Rightarrow> 'l server option" where
  "server_resume s =
     (case backlog s of
        [] \<Rightarrow> None
      | (h, f) # rest \<Rightarrow> server_frame h f (s\<lparr>backlog := rest\<rparr>))"

inductive server_loop :: "'l server \<Rightarrow> 'l server \<Rightarrow> bool" where
  takes: "server_event (e :: ('l, unit) proxy_event) s = Some s' \<Longrightarrow> server_loop s s'"
| resumes: "server_resume s = Some s' \<Longrightarrow> server_loop s s'"

text \<open>
  An event handled to the end with nothing in between, and several such events: \<open>None\<close> if the
  loop is suspended on the way, where \<open>server_loop\<close> tells how far it gets.
\<close>

fun server_resumes :: "nat \<Rightarrow> 'l server \<Rightarrow> 'l server option" where
  "server_resumes 0 s = Some s"
| "server_resumes (Suc n) s = (case server_resume s of Some s' \<Rightarrow> server_resumes n s' | None \<Rightarrow> None)"

definition server_handles :: "('l, 'd) proxy_event \<Rightarrow> 'l server \<Rightarrow> 'l server option" where
  "server_handles e s =
     (case server_event e s of Some s' \<Rightarrow> server_resumes (length (backlog s')) s' | None \<Rightarrow> None)"

fun server_events :: "('l, 'd) proxy_event list \<Rightarrow> 'l server \<Rightarrow> 'l server option" where
  "server_events [] s = Some s"
| "server_events (e # es) s =
     (case server_handles e s of Some s' \<Rightarrow> server_events es s' | None \<Rightarrow> None)"

fun server_frames :: "nat \<Rightarrow> frame list \<Rightarrow> 'l server \<Rightarrow> 'l server option" where
  "server_frames h [] s = Some s"
| "server_frames h (f # fs) s =
     (case server_frame h f s of Some s' \<Rightarrow> server_frames h fs s' | None \<Rightarrow> None)"

section \<open>Session handlers\<close>

text \<open>
  \<open>TcpStream::connect\<close> and \<open>UdpSocket::bind\<close> answer a stream or the text of the error. The
  result says whether the handler goes on to the relay, and on which stream. A handler that
  does not go on drops the receiver of the session as it returns.
\<close>

definition fail_session :: "u32 \<Rightarrow> nat \<Rightarrow> bytes \<Rightarrow> 'l mux \<Rightarrow> 'l mux option" where
  "fail_session sid session_rx reason mux =
     (case send ConnectErr sid reason mux of
        Some mux' \<Rightarrow> Some (drop_receiver session_rx (drop_session sid mux'))
      | None \<Rightarrow> None)"

definition handle_server_session_tcp ::
  "(target_addr \<Rightarrow> target_addr option) \<Rightarrow> (socket_addr \<Rightarrow> bytes + 's) \<Rightarrow> u32 \<Rightarrow> target_addr
     \<Rightarrow> nat \<Rightarrow> filter_config \<Rightarrow> 'l mux \<Rightarrow> ('s option \<times> 'l mux) option" where
  "handle_server_session_tcp resolve_dns connect sid addr session_rx cfg mux =
     (case filter_and_convert resolve_dns addr (Some cfg) Tcp of
        Some sock \<Rightarrow>
          (case connect sock of
             Inr stream \<Rightarrow>
               (case send ConnectOk sid [] mux of
                  Some mux' \<Rightarrow> Some (Some stream, mux')
                | None \<Rightarrow> None)
           | Inl err \<Rightarrow>
               (case fail_session sid session_rx err mux of
                  Some mux' \<Rightarrow> Some (None, mux')
                | None \<Rightarrow> None))
      | None \<Rightarrow>
          (case fail_session sid session_rx (str_bytes ''invalid ip address'') mux of
             Some mux' \<Rightarrow> Some (None, mux')
           | None \<Rightarrow> None))"

text \<open>The target of a UDP session is ignored; its datagrams are filtered one by one in the relay.\<close>

definition handle_server_session_udp ::
  "(bytes + 's) \<Rightarrow> u32 \<Rightarrow> target_addr \<Rightarrow> nat \<Rightarrow> 'l mux \<Rightarrow> ('s option \<times> 'l mux) option" where
  "handle_server_session_udp bind_result sid target_addr session_rx mux =
     (case bind_result of
        Inr socket \<Rightarrow>
          (case send ConnectOk sid [] mux of
             Some mux' \<Rightarrow> Some (Some socket, mux')
           | None \<Rightarrow> None)
      | Inl err \<Rightarrow>
          (case fail_session sid session_rx err mux of
             Some mux' \<Rightarrow> Some (None, mux')
           | None \<Rightarrow> None))"

section \<open>Invariant\<close>

fun task_mux :: "session_task \<Rightarrow> nat" where
  "task_mux (SessionTcp h sid addr c) = h"
| "task_mux (SessionUdp h sid addr c) = h"

definition own_handles :: "('l \<rightharpoonup> nat) \<Rightarrow> bool" where
  "own_handles lm \<longleftrightarrow> (\<forall>l l' h. lm l = Some h \<longrightarrow> lm l' = Some h \<longrightarrow> l = l')"

lemma own_handles_fresh:
  assumes "own_handles lm" "\<And>l h. lm l = Some h \<Longrightarrow> h < n"
  shows "own_handles (lm(l \<mapsto> n))"
  unfolding own_handles_def
proof (intro allI impI)
  fix a b h assume "(lm(l \<mapsto> n)) a = Some h" "(lm(l \<mapsto> n)) b = Some h"
  then have "a = l \<and> h = n \<or> lm a = Some h" "b = l \<and> h = n \<or> lm b = Some h"
    by (auto split: if_splits)
  then show "a = b" using assms unfolding own_handles_def by (metis less_irrefl)
qed

lemma own_handles_remove: "own_handles lm \<Longrightarrow> own_handles (lm(l := None))"
  unfolding own_handles_def by (metis fun_upd_apply option.distinct(1))

definition server_inv :: "'l server \<Rightarrow> bool" where
  "server_inv s \<longleftrightarrow>
     (\<forall>m\<in>set (muxes s). mux_inv m) \<and>
     (\<forall>l h. link_muxes s l = Some h \<longrightarrow> h < length (muxes s)) \<and>
     own_handles (link_muxes s) \<and>
     (\<forall>t\<in>set (tasks s). task_mux t < length (muxes s)) \<and>
     (\<forall>(h, f)\<in>set (backlog s). h < length (muxes s))"

lemma update_mux_simps [simp]:
  "muxes (update_mux h m s) = (muxes s)[h := m]"
  "link_muxes (update_mux h m s) = link_muxes s"
  "tasks (update_mux h m s) = tasks s"
  "backlog (update_mux h m s) = backlog s"
  by (simp_all add: update_mux_def)

text \<open>
  What handling frames of one multiplexer leaves alone: the other multiplexers, the link
  table, the tasks already there.
\<close>

definition only_mux :: "nat \<Rightarrow> 'l server \<Rightarrow> 'l server \<Rightarrow> bool" where
  "only_mux h s s' \<longleftrightarrow>
     length (muxes s') = length (muxes s) \<and>
     (\<forall>k. k \<noteq> h \<longrightarrow> muxes s' ! k = muxes s ! k) \<and>
     link_muxes s' = link_muxes s \<and> set (backlog s') \<subseteq> set (backlog s) \<union> {h} \<times> UNIV \<and>
     (\<exists>new. tasks s' = tasks s @ new \<and> (\<forall>t\<in>set new. task_mux t = h))"

lemma only_mux_refl [simp]: "only_mux h s s"
  by (simp add: only_mux_def)

lemma only_mux_trans: "only_mux h s s' \<Longrightarrow> only_mux h s' s'' \<Longrightarrow> only_mux h s s''"
  unfolding only_mux_def by (elim conjE exE) (intro conjI, simp_all, blast, fastforce)

lemma only_mux_update [simp]: "only_mux h s (update_mux h m s)"
  by (simp add: only_mux_def)

lemma only_mux_inv:
  assumes "only_mux h s s'" "server_inv s" "mux_inv (muxes s' ! h)" "h < length (muxes s)"
  shows "server_inv s'"
proof -
  have "mux_inv m" if m: "m \<in> set (muxes s')" for m
  proof -
    from m obtain k where "k < length (muxes s)" "m = muxes s' ! k"
      using assms(1) by (auto simp: only_mux_def in_set_conv_nth)
    with assms show ?thesis by (cases "k = h") (auto simp: only_mux_def server_inv_def)
  qed
  with assms show ?thesis by (auto simp: server_inv_def only_mux_def)
qed

lemma server_frame_only_mux: "server_frame h f s = Some s' \<Longrightarrow> only_mux h s s'"
  by (auto simp: server_frame_def Let_def only_mux_def case_prod_beta
      split: frame_type.splits option.splits)

lemma server_frame_mux_inv:
  assumes "server_frame h f s = Some s'" "mux_inv (muxes s ! h)"
  shows "mux_inv (muxes s' ! h)"
proof (cases "h < length (muxes s)")
  case True
  with assms show ?thesis
    by (auto simp: server_frame_def Let_def case_prod_beta mux_inv_send
        split: frame_type.splits option.splits
        intro!: mux_inv_dispatch mux_inv_register_session)
next
  case False
  with assms show ?thesis
    by (auto simp: server_frame_def Let_def case_prod_beta list_update_beyond
        split: frame_type.splits option.splits)
qed

lemma server_frames_only_mux: "server_frames h fs s = Some s' \<Longrightarrow> only_mux h s s'"
  by (induction fs arbitrary: s)
    (auto split: option.splits dest: server_frame_only_mux intro: only_mux_trans)

lemma server_frames_mux_inv:
  "server_frames h fs s = Some s' \<Longrightarrow> mux_inv (muxes s ! h) \<Longrightarrow> mux_inv (muxes s' ! h)"
  by (induction fs arbitrary: s) (auto split: option.splits dest: server_frame_mux_inv)

lemma server_inv_start: "server_inv server_start"
  by (simp add: server_inv_def server_start_def own_handles_def)

text \<open>The data of a link reaches its own multiplexer and nothing else.\<close>

lemma server_event_data:
  assumes "server_event (LinkData l data) s = Some s'" "link_muxes s l = Some h"
  shows "only_mux h s s'" "tasks s' = tasks s" "backlog s = []"
    and "receive_data data (muxes s ! h) = (fs, m) \<Longrightarrow> h < length (muxes s) \<Longrightarrow>
      muxes s' = (muxes s)[h := m] \<and> backlog s' = map (Pair h) fs"
  using assms by (auto simp: server_event_def only_mux_def split: if_splits prod.splits)

lemma server_frame_backlog:
  "server_frame h f (s\<lparr>backlog := b\<rparr>) = map_option (\<lambda>x. x\<lparr>backlog := b\<rparr>) (server_frame h f s)"
  by (auto simp: server_frame_def Let_def case_prod_beta update_mux_def split: frame_type.split option.split)

lemma server_frame_keeps_backlog: "server_frame h f s = Some s' \<Longrightarrow> backlog s' = backlog s"
  by (auto simp: server_frame_def Let_def case_prod_beta split: frame_type.splits option.splits)

lemma server_resumeD:
  assumes "server_resume s = Some s'"
  obtains h f rest where "backlog s = (h, f) # rest" "server_frame h f (s\<lparr>backlog := rest\<rparr>) = Some s'"
    "backlog s' = rest" "only_mux h s s'"
proof -
  from assms obtain h f rest where r: "backlog s = (h, f) # rest" "server_frame h f (s\<lparr>backlog := rest\<rparr>) = Some s'"
    by (auto simp: server_resume_def split: list.splits prod.splits)
  from server_frame_keeps_backlog [OF r(2)] have b: "backlog s' = rest" by simp
  from server_frame_only_mux [OF r(2)] b r(1) have "only_mux h s s'" by (auto simp: only_mux_def)
  with r b show thesis by (rule that)
qed

lemma server_resumes_only:
  "server_resumes n s = Some s' \<Longrightarrow> \<forall>(k, f)\<in>set (backlog s). k = h \<Longrightarrow> only_mux h s s'"
proof (induction n arbitrary: s)
  case (Suc n)
  from Suc.prems(1) obtain s1 where s1: "server_resume s = Some s1" "server_resumes n s1 = Some s'"
    by (auto split: option.splits)
  from s1(1) obtain k f rest where r: "backlog s = (k, f) # rest" "backlog s1 = rest" "only_mux k s s1"
    by (rule server_resumeD)
  with Suc.prems(2) Suc.IH [OF s1(2)] show ?case by (auto intro: only_mux_trans)
qed simp

text \<open>Handled in one go, the frames of an arrival are \<open>server_frames\<close>.\<close>

lemma server_frames_backlog:
  "server_frames h fs (s\<lparr>backlog := b\<rparr>) = map_option (\<lambda>x. x\<lparr>backlog := b\<rparr>) (server_frames h fs s)"
  by (induction fs arbitrary: s) (simp_all add: server_frame_backlog split: option.split)

lemma server_resumes_frames:
  "backlog s = map (Pair h) fs \<Longrightarrow> server_resumes (length fs) s = server_frames h fs (s\<lparr>backlog := []\<rparr>)"
proof (induction fs arbitrary: s)
  case Nil
  then show ?case by simp
next
  case (Cons f fs)
  then have resume: "server_resume s = server_frame h f (s\<lparr>backlog := map (Pair h) fs\<rparr>)" by (simp add: server_resume_def)
  show ?case
  proof (cases "server_frame h f s")
    case None
    with resume show ?thesis by (simp add: server_frame_backlog)
  next
    case (Some x)
    with Cons.IH [of "x\<lparr>backlog := map (Pair h) fs\<rparr>"] resume show ?thesis by (simp add: server_frame_backlog)
  qed
qed

lemma server_handles_data:
  assumes "backlog s = []" "link_muxes s l = Some h" "receive_data data (muxes s ! h) = (fs, m)"
  shows "server_handles (LinkData l data) s = server_frames h fs (update_mux h m s)"
proof -
  have "(update_mux h m s)\<lparr>backlog := []\<rparr> = update_mux h m s" using assms(1) by (simp add: update_mux_def)
  with server_resumes_frames [of "(update_mux h m s)\<lparr>backlog := map (Pair h) fs\<rparr>" h fs] assms show ?thesis
    by (simp add: server_handles_def server_event_def)
qed

lemma server_resumes_run: "server_resumes n s = Some s' \<Longrightarrow> server_loop\<^sup>*\<^sup>* s s'"
  by (induction n arbitrary: s)
    (auto split: option.splits intro: converse_rtranclp_into_rtranclp server_loop.resumes)

lemma server_handles_run:
  "server_handles (e :: ('l, unit) proxy_event) s = Some s' \<Longrightarrow> server_loop\<^sup>*\<^sup>* s s'"
  by (auto simp: server_handles_def split: option.splits
      intro: converse_rtranclp_into_rtranclp server_loop.takes server_resumes_run)

lemma server_events_run:
  "server_events (es :: ('l, unit) proxy_event list) s = Some s' \<Longrightarrow> server_loop\<^sup>*\<^sup>* s s'"
  by (induction es arbitrary: s) (auto split: option.splits intro: rtranclp_trans dest: server_handles_run)

text \<open>Every step of the loop keeps the invariant.\<close>

lemma server_inv_event:
  assumes "server_event e s = Some s'" "server_inv s"
  shows "server_inv s'"
proof (cases e)
  case (LinkData l data)
  show ?thesis
  proof (cases "link_muxes s l")
    case None
    with LinkData assms show ?thesis by (auto simp: server_event_def split: if_splits)
  next
    case (Some h)
    obtain frames mux where recv: "receive_data data (muxes s ! h) = (frames, mux)" by fastforce
    from Some assms(2) have h: "h < length (muxes s)" "mux_inv (muxes s ! h)"
      by (auto simp: server_inv_def)
    from recv h(2) have "mux_inv mux" by (metis mux_inv_fields(4) snd_conv)
    with server_event_data(4) [OF assms(1) [unfolded LinkData] Some recv h(1)] h(1) have "mux_inv (muxes s' ! h)" by simp
    with only_mux_inv [OF server_event_data(1) [OF assms(1) [unfolded LinkData] Some] assms(2)] h(1) show ?thesis by blast
  qed
next
  case (LinkEstablished l rtt i)
  with assms own_handles_fresh [of "link_muxes s" "length (muxes s)" l] show ?thesis
    by (auto simp: server_event_def server_inv_def mux_inv_fields less_SucI split: if_splits)
next
  case (LinkClosed l reason)
  with assms own_handles_remove [of "link_muxes s" l] show ?thesis
    by (auto simp: server_event_def server_inv_def split: if_splits)
qed (use assms in \<open>simp add: server_event_def split: if_splits\<close>)

lemma server_inv_resume:
  assumes "server_resume s = Some s'" "server_inv s"
  shows "server_inv s'"
proof -
  from assms(1) obtain h f rest where r: "backlog s = (h, f) # rest" "server_frame h f (s\<lparr>backlog := rest\<rparr>) = Some s'"
    "only_mux h s s'" by (rule server_resumeD)
  with assms(2) have h: "h < length (muxes s)" "mux_inv (muxes s ! h)" by (auto simp: server_inv_def)
  with server_frame_mux_inv [OF r(2)] have "mux_inv (muxes s' ! h)" by simp
  with only_mux_inv [OF r(3) assms(2)] h(1) show ?thesis by blast
qed

lemma server_inv_loop: "server_loop s s' \<Longrightarrow> server_inv s \<Longrightarrow> server_inv s'"
  by (induction rule: server_loop.induct) (auto intro: server_inv_event server_inv_resume)

lemma server_inv_run: "server_loop\<^sup>*\<^sup>* s s' \<Longrightarrow> server_inv s \<Longrightarrow> server_inv s'"
  by (induction rule: rtranclp_induct) (auto intro: server_inv_loop)

section \<open>Sessions on the exit node\<close>

lemma data_q_drop_session [frame_rules]: "data_q (drop_session sid m) = data_q m"
  by (simp add: drop_session_def)

lemma send_SomeD:
  "send t sid p m = Some m' \<Longrightarrow>
     m' = m\<lparr>data_q := data_q m @ [encode (frame_new t sid p)]\<rparr> \<and> length (data_q m) < SENDER_CAPACITY"
  by (auto simp: send_def send_frame_def split: if_splits)

lemma mailbox_send [frame_rules]: "send t sid p m = Some m' \<Longrightarrow> mailbox m' = mailbox m"
  by (auto dest!: send_SomeD intro!: mailbox_cong)

text \<open>The multiplexer of a session that its other side has closed, as its relay finds it.\<close>

lemma closed_session_queue:
  "\<exists>m1 m2. recv 0 (dispatch (frame_new Close sid []) (register sid (set_link_id link mux_new))) =
       (Got (frame_new Close sid []), m1) \<and>
     send Close sid [] (drop_receiver 0 m1) = Some m2 \<and>
     data_q (drop_session sid m2) = [encode (frame_new Close sid [])]"
  by (simp add: recv_def dispatch_def register_def register_session_def set_link_id_def mux_new_def drop_sender_def
      send_def send_frame_def SENDER_CAPACITY_def drop_receiver_def drop_session_def)

lemma mailbox_drop_unbound:
  assumes "\<forall>s. sessions m s \<noteq> Some c"
  shows "mailbox (drop_receiver c m) = mailbox m"
proof (rule ext)
  fix s
  show "mailbox (drop_receiver c m) s = mailbox m s"
  proof (cases "sessions m s")
    case (Some a)
    with assms have "c \<noteq> a" by blast
    with Some show ?thesis by (simp add: mailbox_def drop_receiver_def)
  qed (simp add: mailbox_def drop_receiver_def)
qed

lemma fail_session_SomeD:
  assumes "fail_session sid c reason m = Some m'" "mux_inv m" "\<forall>s. s \<noteq> sid \<longrightarrow> sessions m s \<noteq> Some c"
  shows "mailbox m' = (mailbox m)(sid := None)"
    and "data_q m' = data_q m @ [encode (frame_new ConnectErr sid reason)]"
    and "mux_inv m'"
proof -
  from assms(1) obtain m1 where m1: "send ConnectErr sid reason m = Some m1"
      "m' = drop_receiver c (drop_session sid m1)"
    by (auto simp: fail_session_def split: option.splits)
  with assms(2) have inv: "mux_inv m1" "mailbox m1 = mailbox m"
    by (simp_all add: mux_inv_send frame_rules)
  then have d: "mux_inv (drop_session sid m1)" by (simp add: mux_inv_drop_session)
  have "mailbox m' = mailbox (drop_session sid m1)"
    unfolding m1(2) using assms(3) send_SomeD [OF m1(1)]
    by (intro mailbox_drop_unbound) (auto simp: drop_session_def)
  with inv show "mailbox m' = (mailbox m)(sid := None)" by (simp add: table.mailbox_unregister)
  from m1 send_SomeD [OF m1(1)]
  show "data_q m' = data_q m @ [encode (frame_new ConnectErr sid reason)]"
    by (simp add: frame_rules) (simp add: drop_receiver_def frame_rules)
  from d m1 show "mux_inv m'" by (simp add: mux_inv_drop_receiver)
qed

lemma handle_tcp_relayD:
  "handle_server_session_tcp resolve_dns connect sid addr c cfg m = Some (Some stream, m') \<Longrightarrow>
     \<exists>sock. resolve_dns addr = Some (Ip sock) \<and> allowed_ip sock cfg Tcp \<and> connect sock = Inr stream \<and>
       send ConnectOk sid [] m = Some m'"
  by (auto simp: handle_server_session_tcp_def filter_and_convert_Some_iff
      split: option.splits sum.splits)

lemma handle_tcp_failD:
  "handle_server_session_tcp resolve_dns connect sid addr c cfg m = Some (None, m') \<Longrightarrow>
     \<exists>reason. fail_session sid c reason m = Some m'"
  by (auto simp: handle_server_session_tcp_def split: option.splits sum.splits)

lemma handle_tcp_blocked:
  "handle_server_session_tcp resolve_dns connect sid addr c cfg m = None \<longleftrightarrow>
     SENDER_CAPACITY \<le> length (data_q m)"
  by (auto simp: handle_server_session_tcp_def fail_session_def send_def send_frame_def
      split: option.splits sum.splits)

text \<open>Frames that only go to mailboxes.\<close>

lemma server_frames_dispatch:
  "\<forall>f\<in>set fs. frame_type f = Data \<or> frame_type f = Close \<Longrightarrow> h < length (muxes s) \<Longrightarrow>
     server_frames h fs s = Some (update_mux h (fold dispatch fs (muxes s ! h)) s)"
proof (induction fs arbitrary: s)
  case Nil
  then show ?case by (simp add: update_mux_def)
next
  case (Cons f fs)
  then have "server_frame h f s = Some (update_mux h (dispatch f (muxes s ! h)) s)"
    by (auto simp: server_frame_def Let_def)
  with Cons show ?case by (simp add: update_mux_def)
qed

lemma server_frame_connect:
  assumes "frame_type f = Connect" "decode_connect_payload (payload f) = Some (host, p, udp)"
  shows "server_frame h f s =
    Some ((update_mux h (register (session_id f) (muxes s ! h)) s)
      \<lparr>tasks := tasks s @ [if udp then SessionUdp h (session_id f) (Domain host p) (length (chans (muxes s ! h)))
        else SessionTcp h (session_id f) (Domain host p) (length (chans (muxes s ! h)))]\<rparr>)"
  using assms by (simp add: server_frame_def Let_def register_def register_session_def)

text \<open>
  A multiplexer that no link maps to is out of reach of the event loop for good: handles are
  never given out twice.
\<close>

definition unlinked :: "nat \<Rightarrow> 'l server \<Rightarrow> bool" where
  "unlinked h s \<longleftrightarrow>
     h < length (muxes s) \<and> (\<forall>l. link_muxes s l \<noteq> Some h) \<and> (\<forall>(k, f)\<in>set (backlog s). k \<noteq> h)"

lemma server_event_unlinked:
  assumes "server_event e s = Some s'" "unlinked h s"
  shows "unlinked h s' \<and> muxes s' ! h = muxes s ! h"
proof (cases e)
  case (LinkData l data)
  show ?thesis
  proof (cases "link_muxes s l")
    case None
    with LinkData assms show ?thesis by (auto simp: server_event_def split: if_splits)
  next
    case (Some k)
    with assms(2) have k: "k \<noteq> h" by (auto simp: unlinked_def)
    from server_event_data(1) [OF assms(1) [unfolded LinkData] Some] k assms(2) show ?thesis
      by (auto simp: only_mux_def unlinked_def)
  qed
qed (use assms in \<open>auto simp: server_event_def unlinked_def nth_append split: if_splits\<close>)

lemma server_resume_unlinked:
  assumes "server_resume s = Some s'" "unlinked h s"
  shows "unlinked h s' \<and> muxes s' ! h = muxes s ! h"
proof -
  from assms(1) obtain k f rest where r: "backlog s = (k, f) # rest" "backlog s' = rest" "only_mux k s s'"
    by (rule server_resumeD)
  with assms(2) have "k \<noteq> h" by (auto simp: unlinked_def)
  with r assms(2) show ?thesis by (auto simp: only_mux_def unlinked_def)
qed

lemma server_loop_unlinked:
  "server_loop\<^sup>*\<^sup>* s s' \<Longrightarrow> unlinked h s \<Longrightarrow> unlinked h s' \<and> muxes s' ! h = muxes s ! h"
proof (induction rule: rtranclp_induct)
  case (step s1 s2)
  from step.hyps(2) step.IH step.prems show ?case
    by cases (metis server_event_unlinked, metis server_resume_unlinked)
qed simp

end
