(* ===== verification/Cli.thy ===== *)
theory Cli
  imports Socket_Filter
begin

text \<open>
  \<open>src/cli.rs\<close> and \<open>src/main.rs\<close>: the commands, the parser of a port argument, and the
  filter configurations and port lists that \<open>main\<close> builds for each command. Command-line
  parsing (\<open>clap\<close>) and the two patterns of the macro \<open>try_parse!\<close> (crate \<open>prse\<close>) are
  outside: the patterns are parameters of \<open>port_parser\<close>.
\<close>

section \<open>Commands\<close>

record forwarded_port =
  server_port :: u16
  client_port :: u16
  fp_type :: port_type

datatype commands =
    Server "bytes option" bool bool  \<comment> \<open>identity file, block localhost, block private networks\<close>
  | Client bytes bytes               \<comment> \<open>destination, listen address\<close>
  | ConnectTo bytes "(u16 \<times> u16) list" "(u16 \<times> u16) list" "(u16 \<times> u16) list"
      \<comment> \<open>destination, udp, tcp and both ports\<close>
  | Forward "bytes option" "u16 list" "u16 list" "u16 list"
      \<comment> \<open>identity file, udp, tcp and both ports\<close>

record cli =
  debug :: bool
  command :: commands

text \<open>\<open>Err\<close> carries the fixed message \<open>Invalid port input\<close>; the first pattern is tried first.\<close>

definition port_parser ::
  "(bytes \<Rightarrow> (u16 \<times> u16) option) \<Rightarrow> (bytes \<Rightarrow> u16 option) \<Rightarrow> bytes \<Rightarrow> string + (u16 \<times> u16)" where
  "port_parser parse_pair parse_one s =
     (case parse_pair s of
        Some (sp, cp) \<Rightarrow> Inr (sp, cp)
      | None \<Rightarrow>
          (case parse_one s of
             Some port \<Rightarrow> Inr (port, port)
           | None \<Rightarrow> Inl ''Invalid port input''))"

section \<open>What \<open>main\<close> builds\<close>

definition any_port_rule :: "address_filter \<Rightarrow> filter_result \<Rightarrow> filter_rule" where
  "any_port_rule a r =
     \<lparr>address_filter = a, port_filter = \<lparr>pf_port = AllPorts, pf_type = TcpUdp\<rparr>,
      filter_result = r\<rparr>"

definition server_filter_config :: "bool \<Rightarrow> bool \<Rightarrow> filter_config" where
  "server_filter_config localhost_block private_network_block =
     \<lparr>filters =
        [any_port_rule AllAddresses Include]
        @ (if localhost_block then [any_port_rule Localhost Exclude] else [])
        @ (if private_network_block then [any_port_rule Private Exclude] else [])\<rparr>"

definition localhost_port_rule :: "port_type \<Rightarrow> u16 \<Rightarrow> filter_rule" where
  "localhost_port_rule t p =
     \<lparr>address_filter = Localhost, port_filter = \<lparr>pf_port = Single p, pf_type = t\<rparr>,
      filter_result = Include\<rparr>"

definition connect_vec_merging_forward :: "u16 list \<Rightarrow> u16 list \<Rightarrow> u16 list \<Rightarrow> filter_config" where
  "connect_vec_merging_forward tcp_port udp_port both_port =
     \<lparr>filters =
        map (localhost_port_rule Tcp) tcp_port
        @ map (localhost_port_rule Udp) udp_port
        @ map (localhost_port_rule TcpUdp) both_port\<rparr>"

definition forward_of :: "port_type \<Rightarrow> u16 \<times> u16 \<Rightarrow> forwarded_port" where
  "forward_of t p = \<lparr>server_port = fst p, client_port = snd p, fp_type = t\<rparr>"

definition connect_vec_merging_connect ::
  "(u16 \<times> u16) list \<Rightarrow> (u16 \<times> u16) list \<Rightarrow> (u16 \<times> u16) list \<Rightarrow> forwarded_port list" where
  "connect_vec_merging_connect tcp_port udp_port both_port =
     map (forward_of Tcp) tcp_port @ map (forward_of Udp) udp_port
     @ map (forward_of TcpUdp) both_port"

text \<open>The call each command ends in: which entry point runs, with what arguments.\<close>

datatype entry_point =
    RunServer "bytes option" filter_config
  | RunClient bytes bytes
  | RunClientForward bytes "forwarded_port list"

fun main_dispatch :: "commands \<Rightarrow> entry_point" where
  "main_dispatch (Server identity_file localhost_block private_network_block) =
     RunServer identity_file (server_filter_config localhost_block private_network_block)"
| "main_dispatch (Client destination listen) = RunClient destination listen"
| "main_dispatch (ConnectTo destination udp_port tcp_port both_port) =
     RunClientForward destination (connect_vec_merging_connect tcp_port udp_port both_port)"
| "main_dispatch (Forward identity_file udp_port tcp_port both_port) =
     RunServer identity_file (connect_vec_merging_forward tcp_port udp_port both_port)"

text \<open>
  The log filter: the environment's (\<open>RUST_LOG\<close>) if it has one, or a level by the debug flag;
  below it the messages of one module are cut off at a level of their own.
\<close>

record log_setup =
  default_filter :: string
  module_level :: "string \<times> string"

definition log_level :: "cli \<Rightarrow> string" where
  "log_level c = (if debug c then ''debug'' else ''info'')"

definition main :: "string option \<Rightarrow> cli \<Rightarrow> log_setup \<times> entry_point" where
  "main rust_log c =
     (\<lparr>default_filter = (case rust_log of Some f \<Rightarrow> f | None \<Rightarrow> log_level c),
       module_level = (''rns_net'', ''warn'')\<rparr>,
      main_dispatch (command c))"

text \<open>
  \<open>examples/client.rs\<close>: the arguments behind the program's name go to the client command;
  \<open>parse_from\<close> is the parser of \<open>clap\<close>, and any other command is \<open>unreachable!\<close>.
\<close>

definition example_client_main :: "(bytes list \<Rightarrow> commands) \<Rightarrow> bytes list \<Rightarrow> entry_point option" where
  "example_client_main parse_from args =
     (case parse_from ([str_bytes ''rns-proxy'', str_bytes ''client''] @ drop 1 args) of
        Client destination listen \<Rightarrow> Some (RunClient destination listen)
      | _ \<Rightarrow> None)"

text \<open>
  \<open>examples/server.rs\<close>: what it prints for the server command. It starts nothing. Its
  pattern names one of the three fields of the command, which the compiler refuses; the others
  are ignored here.
\<close>

definition example_server_main :: "(bytes list \<Rightarrow> commands) \<Rightarrow> bytes list \<Rightarrow> string list option" where
  "example_server_main parse_from args =
     (case parse_from ([str_bytes ''rns-proxy'', str_bytes ''server''] @ drop 1 args) of
        Server identity_file localhost_block private_network_block \<Rightarrow>
          Some [''Starting RNS SOCKS5 proxy server...'',
                ''Make sure rnsd is running (pip install rns && rnsd)'',
                '''',
                ''someone update this example latter xoxo'']
      | _ \<Rightarrow> None)"

lemma rule_applies_any_port:
  "rule_applies addr t (any_port_rule a r) \<longleftrightarrow> address_matches a addr"
  by (simp add: rule_applies_def any_port_rule_def type_matches_def port_matches_def)

lemma rule_applies_localhost_port:
  "rule_applies addr t (localhost_port_rule rt p) \<longleftrightarrow>
     type_matches rt t \<and> is_loopback (ip_of addr) \<and> port_of addr = p"
  by (auto simp: rule_applies_def localhost_port_rule_def port_matches_def)

lemma localhost_ports_apply:
  "(\<exists>r\<in>set (map (localhost_port_rule rt) ports). rule_applies addr t r) \<longleftrightarrow>
     type_matches rt t \<and> is_loopback (ip_of addr) \<and> port_of addr \<in> set ports"
  by (auto simp: rule_applies_localhost_port)

lemma allowed_ip_server:
  "allowed_ip addr (server_filter_config lb pb) t \<longleftrightarrow>
     \<not> (lb \<and> is_loopback (ip_of addr)) \<and> \<not> (pb \<and> is_private_net (ip_of addr))"
proof -
  have "server_filter_config lb pb = \<lparr>filters = ((([] @ [any_port_rule AllAddresses Include])
      @ (if lb then [any_port_rule Localhost Exclude] else []))
      @ (if pb then [any_port_rule Private Exclude] else []))\<rparr>"
    by (simp add: server_filter_config_def)
  then show ?thesis
    by (cases lb; cases pb)
      (simp_all add: allowed_ip_snoc rule_applies_any_port del: append.simps append_assoc,
       simp_all add: any_port_rule_def)
qed

lemma allowed_ip_forward:
  "allowed_ip addr (connect_vec_merging_forward tcp udp both) t \<longleftrightarrow>
     is_loopback (ip_of addr) \<and>
     (t = Tcp \<and> port_of addr \<in> set tcp \<or> t = Udp \<and> port_of addr \<in> set udp \<or> port_of addr \<in> set both)"
proof -
  let ?rules = "map (localhost_port_rule Tcp) tcp @ map (localhost_port_rule Udp) udp
    @ map (localhost_port_rule TcpUdp) both"
  have "\<forall>r\<in>set ?rules. filter_result r = Include"
    by (auto simp: localhost_port_rule_def)
  from allowed_ip_includes [OF this, of addr t] show ?thesis
    unfolding connect_vec_merging_forward_def set_append bex_Un
    by (simp only: localhost_ports_apply) (auto simp: type_matches_def)
qed

end
