(* ===== verification/Client.thy ===== *)
theory Client
  imports Relay Cli
begin

text \<open>
  The client side of a session: \<open>src/client.rs\<close> (opening a session through the exit node,
  the SOCKS5 session handler, a round of the accept loop, the tasks of the forwarding client)
  and a round of the accept loops of \<open>src/forwarding.rs\<close>. The SOCKS5 handshake and replies (\<open>fast_socks5\<close>), the hex
  decoder (\<open>hex\<close>), sockets and the rendering of a target as host and port are
  parameters. Bytes stand for text.
\<close>

section \<open>Starting\<close>

definition decode_hash :: "(bytes \<Rightarrow> bytes option) \<Rightarrow> bytes \<Rightarrow> bytes option" where
  "decode_hash hex_decode server_hex =
     (case hex_decode server_hex of
        Some v \<Rightarrow> if length v = 16 then Some v else None
      | None \<Rightarrow> None)"

text \<open>The tasks that \<open>run_client_forward\<close> spawns for its list of ports.\<close>

datatype tunnel_task = TcpTunnel forwarded_port | UdpTunnel forwarded_port

definition tunnels_of :: "forwarded_port \<Rightarrow> tunnel_task list" where
  "tunnels_of p =
     (case fp_type p of
        Tcp \<Rightarrow> [TcpTunnel p]
      | Udp \<Rightarrow> [UdpTunnel p]
      | TcpUdp \<Rightarrow> [TcpTunnel p, UdpTunnel p])"

definition run_client_forward_tasks :: "forwarded_port list \<Rightarrow> tunnel_task list" where
  "run_client_forward_tasks ports = concat (map tunnels_of ports)"

section \<open>Opening a session\<close>

text \<open>
  The CONNECT frame. \<open>into_string_and_port\<close> is the rendering of a \<open>TargetAddr\<close> by the crate
  \<open>fast_socks5\<close>.
\<close>

definition connect_tcp_server_side ::
  "(target_addr \<Rightarrow> bytes \<times> u16) \<Rightarrow> u32 \<Rightarrow> target_addr \<Rightarrow> 'l mux \<Rightarrow> 'l mux option" where
  "connect_tcp_server_side into_string_and_port sid target_addr mux =
     (let (host, port) = into_string_and_port target_addr
      in send Connect sid (encode_connect_payload host port False) mux)"

definition udp_bind_connect ::
  "(target_addr \<Rightarrow> bytes \<times> u16) \<Rightarrow> u32 \<Rightarrow> target_addr \<Rightarrow> 'l mux \<Rightarrow> 'l mux option" where
  "udp_bind_connect into_string_and_port sid target_addr mux =
     (let (host, port) = into_string_and_port target_addr
      in send Connect sid (encode_connect_payload host port True) mux)"

text \<open>
  The wait for CONN_OK or CONN_ERR, which both functions end in: frames are taken from the
  session's channel until one decides, the channel closes, or nothing is left to take.
  \<open>Waiting\<close> is a pending future, which the 60-second timeout turns into an error.
\<close>

datatype connect_wait = Waiting | Decided "bytes + unit"

fun await_queue :: "bool \<Rightarrow> frame list \<Rightarrow> connect_wait \<times> frame list" where
  "await_queue tx [] =
     (if tx then Waiting else Decided (Inl (str_bytes ''channel closed'')), [])"
| "await_queue tx (f # q) =
     (case frame_type f of
        ConnectOk \<Rightarrow> (Decided (Inr ()), q)
      | ConnectErr \<Rightarrow> (Decided (Inl (from_utf8_lossy (payload f))), q)
      | _ \<Rightarrow> await_queue tx q)"

definition await_reply :: "nat \<Rightarrow> 'l mux \<Rightarrow> connect_wait \<times> 'l mux" where
  "await_reply c m =
     (let ch = chans m ! c; (w, q) = await_queue (tx_alive ch) (cq ch)
      in (w, m\<lparr>chans := (chans m)[c := ch\<lparr>cq := q\<rparr>]\<rparr>))"

definition connect_result :: "bool \<Rightarrow> connect_wait \<Rightarrow> (bytes + unit) option" where
  "connect_result timed_out w =
     (case w of
        Decided r \<Rightarrow> Some r
      | Waiting \<Rightarrow> if timed_out then Some (Inl (str_bytes ''Timeout'')) else None)"

section \<open>The SOCKS5 session handler\<close>

datatype socks_reply = NoReply | SuccessReply | GeneralFailure | CommandNotSupported

text \<open>
  \<open>handle_tcp_connect\<close> and \<open>handle_udp_connect\<close> from the connect result on: whether the
  handler goes on to the relay, what the SOCKS5 client is told, and the multiplexer. The
  CONNECT frame and the wait before it are \<open>open_session\<close> and \<open>await_reply\<close>;
  \<open>socks5_session\<close> below puts the three together.
  \<open>reply_ok\<close> says whether the success reply could be written, \<open>bind_ok\<close> whether the local
  UDP socket could be bound (\<open>expect\<close> panics otherwise, which ends the task).
\<close>

definition close_session :: "u32 \<Rightarrow> 'l mux \<Rightarrow> 'l mux option" where
  "close_session sid m =
     (case send Close sid [] m of Some m' \<Rightarrow> Some (drop_session sid m') | None \<Rightarrow> None)"

lemma sessions_close_session: "close_session sid m = Some m' \<Longrightarrow> sessions m' sid = None"
  by (auto simp: close_session_def drop_session_def split: option.splits)

definition handle_tcp_connect ::
  "u32 \<Rightarrow> bytes + unit \<Rightarrow> bool \<Rightarrow> 'l mux \<Rightarrow> (bool \<times> socks_reply \<times> 'l mux) option" where
  "handle_tcp_connect sid result reply_ok m =
     (case result of
        Inr _ \<Rightarrow>
          if reply_ok then Some (True, SuccessReply, m)
          else (case close_session sid m of
                  Some m' \<Rightarrow> Some (False, SuccessReply, m')
                | None \<Rightarrow> None)
      | Inl _ \<Rightarrow> Some (False, NoReply, m))"

definition handle_udp_connect ::
  "u32 \<Rightarrow> bool \<Rightarrow> bytes + unit \<Rightarrow> bool \<Rightarrow> 'l mux \<Rightarrow> (bool \<times> socks_reply \<times> 'l mux) option" where
  "handle_udp_connect sid bind_ok result reply_ok m =
     (if \<not> bind_ok then Some (False, NoReply, m)
      else case result of
        Inr _ \<Rightarrow>
          if reply_ok then Some (True, SuccessReply, m)
          else (case close_session sid m of
                  Some m' \<Rightarrow> Some (False, SuccessReply, m')
                | None \<Rightarrow> None)
      | Inl _ \<Rightarrow> Some (False, GeneralFailure, drop_session sid m))"

text \<open>What the handshake gave: no agreement, no readable command, or a command.\<close>

datatype socks5_command = TCPConnect | UDPAssociate | TCPBind

datatype handshake = AuthFailed | ReadCommandFailed | Requested socks5_command

datatype relay_kind = RelayTcp | RelayUdp

text \<open>A handler that does not go on to a relay drops the receiver of the session as it returns.\<close>

definition end_session :: "nat \<Rightarrow> bool \<times> socks_reply \<times> 'l mux \<Rightarrow> relay_kind \<Rightarrow>
    relay_kind option \<times> socks_reply \<times> 'l mux" where
  "end_session session_rx = (\<lambda>(go_on, reply, m) kind.
     if go_on then (Some kind, reply, m) else (None, reply, drop_receiver session_rx m))"

fun handle_socks5_session ::
  "u32 \<Rightarrow> nat \<Rightarrow> handshake \<Rightarrow> bytes + unit \<Rightarrow> bool \<Rightarrow> bool \<Rightarrow> 'l mux
     \<Rightarrow> (relay_kind option \<times> socks_reply \<times> 'l mux) option" where
  "handle_socks5_session sid session_rx AuthFailed result bind_ok reply_ok m =
     Some (None, NoReply, drop_receiver session_rx m)"
| "handle_socks5_session sid session_rx ReadCommandFailed result bind_ok reply_ok m =
     Some (None, NoReply, drop_receiver session_rx m)"
| "handle_socks5_session sid session_rx (Requested TCPConnect) result bind_ok reply_ok m =
     (case handle_tcp_connect sid result reply_ok m of
        Some r \<Rightarrow> Some (end_session session_rx r RelayTcp)
      | None \<Rightarrow> None)"
| "handle_socks5_session sid session_rx (Requested UDPAssociate) result bind_ok reply_ok m =
     (case handle_udp_connect sid bind_ok result reply_ok m of
        Some r \<Rightarrow> Some (end_session session_rx r RelayUdp)
      | None \<Rightarrow> None)"
| "handle_socks5_session sid session_rx (Requested TCPBind) result bind_ok reply_ok m =
     Some (None, CommandNotSupported, drop_receiver session_rx m)"

text \<open>
  The whole of a session up to its relay: what it does before it waits, what the other tasks
  do to the multiplexer meanwhile (\<open>others\<close>), the wait, and the rest. \<open>None\<close> is a session
  that still waits.
\<close>

definition open_session ::
  "(target_addr \<Rightarrow> bytes \<times> u16) \<Rightarrow> u32 \<Rightarrow> socks5_command \<Rightarrow> target_addr \<Rightarrow> 'l mux \<Rightarrow> 'l mux option" where
  "open_session into_string_and_port sid cmd target_addr m =
     (case cmd of
        TCPConnect \<Rightarrow> connect_tcp_server_side into_string_and_port sid target_addr m
      | UDPAssociate \<Rightarrow> udp_bind_connect into_string_and_port sid target_addr m
      | TCPBind \<Rightarrow> Some m)"

definition socks5_session ::
  "(target_addr \<Rightarrow> bytes \<times> u16) \<Rightarrow> ('l mux \<Rightarrow> 'l mux) \<Rightarrow> bool \<Rightarrow> bool \<Rightarrow> bool \<Rightarrow> u32 \<Rightarrow> nat
     \<Rightarrow> socks5_command \<Rightarrow> target_addr \<Rightarrow> 'l mux \<Rightarrow> (relay_kind option \<times> socks_reply \<times> 'l mux) option" where
  "socks5_session into_string_and_port others timed_out bind_ok reply_ok sid session_rx cmd target_addr m =
     (case open_session into_string_and_port sid cmd target_addr m of
        None \<Rightarrow> None
      | Some m1 \<Rightarrow>
          if cmd = TCPBind
          then handle_socks5_session sid session_rx (Requested cmd) (Inr ()) bind_ok reply_ok m1
          else (let (w, m2) = await_reply session_rx (others m1)
                in case connect_result timed_out w of
                     None \<Rightarrow> None
                   | Some result \<Rightarrow>
                       handle_socks5_session sid session_rx (Requested cmd) result bind_ok reply_ok m2))"

section \<open>Accept loops\<close>

datatype accept_event = Accepted | AcceptError | Reconnected

text \<open>One round of the loop of \<open>run_sockets_proxy_handling\<close>: the session it spawns, if any.\<close>

definition accept_round :: "accept_event \<Rightarrow> 'l mux \<Rightarrow> (u32 \<times> nat) option \<times> 'l mux" where
  "accept_round e m =
     (case e of
        Accepted \<Rightarrow>
          if \<not> is_connected m then (None, m)
          else (let (sid, m1) = next_session_id m; (session_rx, m2) = register_session sid m1
                in (Some (sid, session_rx), m2))
      | AcceptError \<Rightarrow> (None, m)
      | Reconnected \<Rightarrow> (None, m))"

text \<open>
  The loops of \<open>tcp_tunnel\<close> and \<open>udp_tunnel\<close>; the target is a port of the exit node's own
  loopback address.
\<close>

definition tcp_tunnel_round ::
  "forwarded_port \<Rightarrow> accept_event \<Rightarrow> 'l mux \<Rightarrow> (u32 \<times> nat \<times> target_addr) option \<times> 'l mux" where
  "tcp_tunnel_round p e m =
     (case e of
        Accepted \<Rightarrow>
          if \<not> is_connected m then (None, m)
          else (let (sid, m1) = next_session_id m; (session_rx, m2) = register_session sid m1;
                    target_addr = localhost_target (server_port p)
                in (Some (sid, session_rx, target_addr), m2))
      | AcceptError \<Rightarrow> (None, m)
      | Reconnected \<Rightarrow> (None, m))"

definition udp_tunnel_round ::
  "forwarded_port \<Rightarrow> accept_event \<Rightarrow> 'l mux \<Rightarrow> (u32 \<times> nat \<times> target_addr) option \<times> 'l mux" where
  "udp_tunnel_round p e m =
     (case e of
        Accepted \<Rightarrow>
          if \<not> is_connected m then (None, m)
          else (let (sid, m1) = next_session_id m; (session_rx, m2) = register_session sid m1;
                    target_addr = localhost_target (server_port p)
                in (Some (sid, session_rx, target_addr), m2))
      | AcceptError \<Rightarrow> (None, m)
      | Reconnected \<Rightarrow> (None, m))"

text \<open>The spawned bodies after the connect result: relay, or nothing at all.\<close>

definition tunnel_session ::
  "relay_kind \<Rightarrow> nat \<Rightarrow> bytes + unit \<Rightarrow> 'l mux \<Rightarrow> relay_kind option \<times> 'l mux" where
  "tunnel_session kind session_rx result m =
     (case result of Inr _ \<Rightarrow> (Some kind, m) | Inl _ \<Rightarrow> (None, drop_receiver session_rx m))"

section \<open>The wait for the reply\<close>

definition decides :: "frame \<Rightarrow> bool" where
  "decides f \<longleftrightarrow> frame_type f = ConnectOk \<or> frame_type f = ConnectErr"

text \<open>The first frame that decides does so; everything before it is discarded.\<close>

lemma await_queue_split:
  "\<forall>f\<in>set pre. \<not> decides f \<Longrightarrow> await_queue tx (pre @ q) = await_queue tx q"
  by (induction pre) (auto simp: decides_def split: frame_type.splits)

lemma await_queue_none:
  "\<forall>f\<in>set q. \<not> decides f \<Longrightarrow> await_queue tx q =
     (if tx then Waiting else Decided (Inl (str_bytes ''channel closed'')), [])"
  using await_queue_split [of q tx "[]"] by simp

lemma await_queue_cases:
  obtains pre f rest where "q = pre @ f # rest" "\<forall>g\<in>set pre. \<not> decides g" "decides f"
      "await_queue tx q =
        (Decided (if frame_type f = ConnectOk then Inr () else Inl (from_utf8_lossy (payload f))), rest)"
  | "\<forall>g\<in>set q. \<not> decides g"
      "await_queue tx q = (if tx then Waiting else Decided (Inl (str_bytes ''channel closed'')), [])"
proof (cases "\<exists>f\<in>set q. decides f")
  case True
  then obtain pre f rest where *: "q = pre @ f # rest" "\<forall>g\<in>set pre. \<not> decides g" "decides f"
    by (rule split_list_first_propE)
  then have "await_queue tx q =
      (Decided (if frame_type f = ConnectOk then Inr () else Inl (from_utf8_lossy (payload f))), rest)"
    by (auto simp: await_queue_split decides_def)
  with * show thesis by (rule that(1))
next
  case False
  then show thesis using await_queue_none that(2) by blast
qed

text \<open>Taking the frames one by one with \<open>recv\<close>, as the source does, comes to the same.\<close>

lemma await_reply_recv:
  assumes "c < length (chans m)"
  shows "await_reply c m =
    (case recv c m of
       (Got f, m') \<Rightarrow>
         (case frame_type f of
            ConnectOk \<Rightarrow> (Decided (Inr ()), m')
          | ConnectErr \<Rightarrow> (Decided (Inl (from_utf8_lossy (payload f))), m')
          | _ \<Rightarrow> await_reply c m')
     | (Pending, m') \<Rightarrow> (Waiting, m')
     | (Closed, m') \<Rightarrow> (Decided (Inl (str_bytes ''channel closed'')), m'))"
proof (cases "cq (chans m ! c)")
  case Nil
  then have "(chans m)[c := (chans m ! c)\<lparr>cq := []\<rparr>] = chans m"
    by (metis chan.surjective chan.update_convs(1) list_update_id)
  with Nil show ?thesis by (simp add: await_reply_def recv_def)
next
  case (Cons f q)
  with assms show ?thesis
    by (auto simp: await_reply_def recv_def Let_def split: frame_type.split prod.split)
qed

section \<open>Session ids are fresh\<close>

text \<open>
  A multiplexer of a client after \<open>k\<close> accepted connections, whatever else its tasks did:
  the accept loops of \<open>client.rs\<close> and \<open>forwarding.rs\<close> share one counter.
\<close>

inductive client_history :: "nat \<Rightarrow> 'l mux \<Rightarrow> bool" where
  new: "client_history 0 mux_new"
| accept: "client_history k m \<Longrightarrow> accept_round Accepted m = (Some s, m') \<Longrightarrow> client_history (Suc k) m'"
| tcp_accept: "client_history k m \<Longrightarrow> tcp_tunnel_round p Accepted m = (Some t, m') \<Longrightarrow>
     client_history (Suc k) m'"
| udp_accept: "client_history k m \<Longrightarrow> udp_tunnel_round p Accepted m = (Some t, m') \<Longrightarrow>
     client_history (Suc k) m'"
| link: "client_history k m \<Longrightarrow> client_history k (set_link_id l m)"
| lost: "client_history k m \<Longrightarrow> client_history k (reset m)"
| data_in: "client_history k m \<Longrightarrow> receive_data d m = (fs, m') \<Longrightarrow>
     client_history k (fold dispatch fs m')"
| taken: "client_history k m \<Longrightarrow> client_history k (snd (recv c m))"
| left: "client_history k m \<Longrightarrow> client_history k (drop_receiver c m)"
| dropped: "client_history k m \<Longrightarrow> client_history k (drop_session sid m)"
| queued: "client_history k m \<Longrightarrow> send_frame f m = Some m' \<Longrightarrow> client_history k m'"
| sender_took: "client_history k m \<Longrightarrow> client_history k (sender_recv mdu m)"
| sender_sent: "client_history k m \<Longrightarrow> client_history k (snd (sender_chunk (\<lambda>net l c ctx. (ok, ())) ((), m)))"

lemma accept_round_Some:
  "accept_round Accepted m = (Some (sid, c), m') \<Longrightarrow>
     is_connected m \<and> sid = next_sid m + 1 \<and> c = length (chans m) \<and>
     m' = register sid (m\<lparr>next_sid := sid\<rparr>)"
  by (auto simp: accept_round_def next_session_id_def register_session_def register_def Let_def
      split: if_splits)

lemma tcp_tunnel_round_accept:
  "tcp_tunnel_round p e m =
     (map_option (\<lambda>(sid, c). (sid, c, localhost_target (server_port p))) (fst (accept_round e m)),
      snd (accept_round e m))"
  by (simp add: tcp_tunnel_round_def accept_round_def case_prod_beta Let_def split: accept_event.split)

lemma udp_tunnel_round_tcp: "udp_tunnel_round p e m = tcp_tunnel_round p e m"
  by (simp add: tcp_tunnel_round_def udp_tunnel_round_def)

lemma tunnel_round_accepts:
  "tcp_tunnel_round p Accepted m = (Some t, m') \<Longrightarrow> \<exists>s. accept_round Accepted m = (Some s, m')"
  "udp_tunnel_round p Accepted m = (Some t, m') \<Longrightarrow> \<exists>s. accept_round Accepted m = (Some s, m')"
  by (cases "accept_round Accepted m"; auto simp: udp_tunnel_round_tcp tcp_tunnel_round_accept)+

text \<open>Registered ids are among those given out so far, and the counter is the last of them.\<close>

definition ids_inv :: "nat \<Rightarrow> 'l mux \<Rightarrow> bool" where
  "ids_inv k m \<longleftrightarrow>
     mux_inv m \<and> next_sid m = of_nat k \<and>
     (\<forall>sid. sessions m sid \<noteq> None \<longrightarrow> (\<exists>i. 0 < i \<and> i \<le> k \<and> sid = of_nat i))"

lemma ids_inv_accept:
  assumes "ids_inv k m" "accept_round Accepted m = (Some s, m')"
  shows "ids_inv (Suc k) m'"
proof -
  obtain sid c where s: "s = (sid, c)" by fastforce
  from accept_round_Some assms(2) s have *: "sid = next_sid m + 1"
    "m' = register sid (m\<lparr>next_sid := sid\<rparr>)" by blast+
  have "mux_inv (m\<lparr>next_sid := sid\<rparr>)" using assms(1) by (simp add: ids_inv_def mux_inv_def)
  moreover have "sid = of_nat (Suc k)" using * assms(1) by (simp add: ids_inv_def)
  moreover have "\<exists>i. 0 < i \<and> i \<le> Suc k \<and> t = of_nat i" if "sessions m t \<noteq> None" for t
    using that assms(1) unfolding ids_inv_def by (meson le_SucI)
  ultimately show ?thesis unfolding *(2) ids_inv_def
    by (auto simp: table.inv_register) (auto simp: register_def register_session_def split: if_splits)
qed

text \<open>An operation that adds no session and leaves the counter alone keeps the invariant.\<close>

lemma ids_inv_keep:
  "ids_inv k m \<Longrightarrow> mux_inv m' \<Longrightarrow> next_sid m' = next_sid m \<Longrightarrow>
     (\<And>sid. sessions m' sid \<noteq> None \<Longrightarrow> sessions m sid \<noteq> None) \<Longrightarrow> ids_inv k m'"
  by (simp add: ids_inv_def)

lemma client_history_ids: "client_history k m \<Longrightarrow> ids_inv k m"
proof (induction rule: client_history.induct)
  case new
  show ?case by (simp add: ids_inv_def) (simp add: mux_new_def)
next
  case (accept k m s m')
  then show ?case by (blast intro: ids_inv_accept)
next
  case (tcp_accept k m p t m')
  then show ?case by (blast intro: ids_inv_accept dest: tunnel_round_accepts(1))
next
  case (udp_accept k m p t m')
  then show ?case by (blast intro: ids_inv_accept dest: tunnel_round_accepts(2))
next
  case (link k m l)
  then show ?case by (simp add: ids_inv_def mux_inv_fields) (simp add: set_link_id_def)
next
  case (lost k m)
  show ?case by (rule ids_inv_keep [OF lost.IH]) (simp_all add: mux_inv_reset, simp_all add: reset_def)
next
  case (data_in k m d fs m')
  note f = receive_data_fields [OF data_in.hyps(2)]
  with data_in.IH have "mux_inv m'" by (simp add: ids_inv_def)
  with f show ?case
    by (intro ids_inv_keep [OF data_in.IH]) (simp_all add: frame_rules table.inv_deliver_all)
next
  case (taken k m c)
  have "sessions (snd (recv c m)) = sessions m" "next_sid (snd (recv c m)) = next_sid m"
    by (simp_all add: recv_def Let_def split: list.split)
  with taken.IH show ?case by (simp add: ids_inv_def mux_inv_recv)
next
  case (left k m c)
  then show ?case by (simp add: ids_inv_def mux_inv_drop_receiver) (simp add: drop_receiver_def)
next
  case (dropped k m sid)
  then have "mux_inv (drop_session sid m)" by (simp add: ids_inv_def mux_inv_drop_session)
  then show ?case
    by (intro ids_inv_keep [OF dropped.IH]) (auto simp: drop_session_def split: if_splits)
next
  case (queued k m f m')
  then show ?case
    by (simp add: ids_inv_def mux_inv_send_frame) (auto simp: send_frame_def split: if_splits)
next
  case (sender_took k m mdu)
  have "sessions (sender_recv mdu m) = sessions m" "next_sid (sender_recv mdu m) = next_sid m"
    by (simp_all add: sender_recv_def split: option.split list.split)
  with sender_took.IH show ?case by (simp add: ids_inv_def mux_inv_sender_recv)
next
  case (sender_sent k m ok)
  let ?m = "snd (sender_chunk (\<lambda>net l c ctx. (ok, ())) ((), m))"
  have "sessions ?m = sessions m" "next_sid ?m = next_sid m"
    by (simp_all add: sender_chunk_def split: option.split list.split prod.split)
  with sender_sent.IH show ?case by (simp add: ids_inv_def mux_inv_sender_chunk)
qed

lemma of_nat_word_inj:
  "i < 2 ^ LENGTH('a) \<Longrightarrow> j < 2 ^ LENGTH('a) \<Longrightarrow> (of_nat i :: 'a::len word) = of_nat j \<Longrightarrow> i = j"
  by (drule arg_cong [where f = unat]) (simp add: unat_of_nat)

lemma fresh_id:
  assumes "ids_inv k m" "Suc k < 2 ^ 32"
  shows "sessions m (next_sid m + 1) = None"
proof (rule ccontr)
  assume "sessions m (next_sid m + 1) \<noteq> None"
  with assms(1) obtain i where i: "0 < i" "i \<le> k" "next_sid m + 1 = of_nat i"
    unfolding ids_inv_def by blast
  moreover have "next_sid m + 1 = of_nat (Suc k)" using assms(1) by (simp add: ids_inv_def)
  ultimately have "(of_nat i :: u32) = of_nat (Suc k)" by simp
  with i assms(2) have "i = Suc k" by (intro of_nat_word_inj [where ?'a = 32]) simp_all
  with i(2) show False by simp
qed

end
