(* ===== verification/Handshake.thy ===== *)
theory Handshake
  imports Server Client Tunnel
begin

text \<open>
  The answer to a CONNECT on its way back: what the session handler of the exit node found
  (\<open>src/server.rs\<close>), the one frame it queues, the link in any segmentation, and the wait of
  the client (\<open>src/client.rs\<close>). What the client learns is the verdict of the exit node, with
  the text of its error.
\<close>

section \<open>The verdict\<close>

text \<open>What the TCP handler finds out about its target: a stream, or why there is none.\<close>

definition exit_verdict ::
  "(target_addr \<Rightarrow> target_addr option) \<Rightarrow> (socket_addr \<Rightarrow> bytes + 's) \<Rightarrow> target_addr \<Rightarrow> filter_config
     \<Rightarrow> bytes + 's" where
  "exit_verdict resolve_dns connect addr cfg =
     (case filter_and_convert resolve_dns addr (Some cfg) Tcp of
        None \<Rightarrow> Inl (str_bytes ''invalid ip address'')
      | Some sock \<Rightarrow> connect sock)"

definition verdict_frame :: "u32 \<Rightarrow> bytes + 's \<Rightarrow> frame" where
  "verdict_frame sid v =
     (case v of Inr stream \<Rightarrow> frame_new ConnectOk sid [] | Inl err \<Rightarrow> frame_new ConnectErr sid err)"

definition verdict_result :: "bytes + 's \<Rightarrow> bytes + unit" where
  "verdict_result v = (case v of Inr stream \<Rightarrow> Inr () | Inl err \<Rightarrow> Inl err)"

text \<open>An error text is a \<open>String\<close>, so it is UTF-8; it has to fit into a frame.\<close>

definition verdict_ok :: "bytes + 's \<Rightarrow> bool" where
  "verdict_ok v \<longleftrightarrow> (case v of Inr stream \<Rightarrow> True | Inl err \<Rightarrow> utf8_valid err \<and> length err < 65536)"

lemma send_queue: "send t sid p m = Some m' \<Longrightarrow> data_q m' = data_q m @ [encode (frame_new t sid p)]"
  by (auto simp: send_def send_frame_def split: if_splits)

lemma fail_session_queue:
  "fail_session sid rx err m = Some m' \<Longrightarrow> data_q m' = data_q m @ [encode (frame_new ConnectErr sid err)]"
  by (auto simp: fail_session_def drop_receiver_def drop_session_def dest!: send_queue split: option.splits)

lemma tcp_handler_verdict:
  assumes "handle_server_session_tcp resolve connect sid addr rx cfg m = Some (out, m')"
    and "v = exit_verdict resolve connect addr cfg"
  shows "data_q m' = data_q m @ [encode (verdict_frame sid v)] \<and>
    out = (case v of Inr stream \<Rightarrow> Some stream | Inl err \<Rightarrow> None)"
  using assms
  by (auto simp: handle_server_session_tcp_def exit_verdict_def verdict_frame_def send_queue
      fail_session_queue split: option.splits sum.splits)

lemma udp_handler_verdict:
  assumes "handle_server_session_udp v sid addr rx m = Some (out, m')"
  shows "data_q m' = data_q m @ [encode (verdict_frame sid v)] \<and>
    out = (case v of Inr socket \<Rightarrow> Some socket | Inl err \<Rightarrow> None)"
  using assms
  by (auto simp: handle_server_session_udp_def verdict_frame_def send_queue fail_session_queue
      split: option.splits sum.splits)

lemma verdict_frame_wf: "verdict_ok v \<Longrightarrow> frame_wf (verdict_frame sid v)"
  by (auto simp: verdict_ok_def verdict_frame_def frame_wf_def split: sum.splits)

section \<open>The client's side\<close>

lemma await_verdict:
  assumes "verdict_ok v"
  shows "await_queue tx (verdict_frame sid v # q) = (Decided (verdict_result v), q)"
  using assms
  by (auto simp: verdict_ok_def verdict_frame_def verdict_result_def from_utf8_lossy_id split: sum.splits)

text \<open>The session's channel holds the frame once the link data that carries it was handled.\<close>

lemma client_gets:
  assumes "mux_inv m" "sessions m sid = Some c" "mailbox m sid = Some []" "recv_buf m = []"
    and "frame_wf f" "session_id f = sid" "concat ds = encode f"
  shows "receive_all ds m = ([f], m)" "cq (chans (dispatch f m) ! c) = [f]"
proof -
  show "receive_all ds m = ([f], m)"
    using assms(4,5,7) by (intro receive_all_stream) simp_all
  from assms(2,3) have "rx_alive (chans m ! c)" "cq (chans m ! c) = []"
    by (auto simp: mailbox_def split: if_splits)
  with assms(1,2,6) mux_invD(1) [OF assms(1,2)] show "cq (chans (dispatch f m) ! c) = [f]"
    by (simp add: dispatch_def)
qed

lemma client_learns:
  assumes "mux_inv m" "sessions m sid = Some c" "mailbox m sid = Some []" "recv_buf m = []"
    and "verdict_ok v" "concat ds = encode (verdict_frame sid v)"
  shows "\<exists>fs m'. receive_all ds m = (fs, m') \<and>
    fst (await_reply c (fold dispatch fs m')) = Decided (verdict_result v)"
proof -
  have "session_id (verdict_frame sid v) = sid" by (simp add: verdict_frame_def split: sum.split)
  from client_gets [OF assms(1-4) verdict_frame_wf [OF assms(5)] this assms(6)] await_verdict [OF assms(5)]
  show ?thesis by (auto simp: await_reply_def)
qed

end
