(* ===== verification/Udp_Opening.thy ===== *)
theory Udp_Opening
  imports Handshake Udp_Session
begin

text \<open>
  How a UDP session opens (\<open>udp_bind_connect\<close> and \<open>handle_udp_connect\<close> of
  \<open>src/client.rs\<close>, \<open>udp_tunnel\<close> of \<open>src/forwarding.rs\<close>, \<open>run_server\<close> and
  \<open>handle_server_session_udp\<close> of \<open>src/server.rs\<close>): the request crosses an idle link, the exit
  node registers the session and binds a socket, its CONN_OK comes back in any pieces, and both
  relays begin, where the theory Udp_Session takes over.
\<close>

section \<open>An idle link between two multiplexers\<close>

definition link_free :: "'l mux \<Rightarrow> bool" where
  "link_free m \<longleftrightarrow> is_connected m \<and> sender m = None \<and> data_q m = [] \<and> recv_buf m = []"

text \<open>The link sender has passed on what was queued.\<close>

definition sent_off :: "'l mux \<Rightarrow> 'l mux" where
  "sent_off m = m\<lparr>data_q := []\<rparr>"

lemma sent_off_simps [simp]:
  "sessions (sent_off m) = sessions m" "chans (sent_off m) = chans m" "link_id (sent_off m) = link_id m"
  "sender (sent_off m) = sender m" "data_q (sent_off m) = []" "recv_buf (sent_off m) = recv_buf m"
  by (simp_all add: sent_off_def)

lemma mux_inv_sent_off [simp]: "mux_inv (sent_off m) = mux_inv m"
  by (simp add: mux_inv_def)

text \<open>The two relays of a session at the ends of such a link, in one direction.\<close>

definition relays_begin ::
  "'l mux \<Rightarrow> 'l mux \<Rightarrow> 'x \<Rightarrow> 'y \<Rightarrow> ('l, 'i, 'o, 'x, 'j, 'p, 'y) session_system" where
  "relays_begin mn mf x y =
     \<lparr>tun = \<lparr>near = mn, wire = [], far = mf, accepted = [], delivered = [], taken = []\<rparr>,
      near_relay = relay_start x, far_relay = relay_start y\<rparr>"

lemma relays_begin_session:
  assumes "link_free mn" "link_free mf" "mux_inv mf" "sessions mf sid = Some c" "mailbox mf sid = Some []"
  shows "session_begin near_step sid c x y (relays_begin mn mf x y)"
proof -
  have "frames.partial []" by (simp add: frames.partial_def)
  with assms(1,2) have "tunnel_inv \<lparr>near = mn, wire = [], far = mf, accepted = [], delivered = [], taken = []\<rparr>"
    by (simp add: tunnel_inv_def in_flight_def link_free_def sending_def frame_stream_def)
  with assms show ?thesis
    by (auto simp: session_begin_def relays_begin_def queue_ok_def relay_start_def link_free_def intro: exI [of _ mn])
qed

section \<open>From the request to the relays\<close>

lemma request_registered:
  assumes "server_inv x" "link_muxes x l = Some h" "link_free (muxes x ! h)" "backlog x = []"
    and "utf8_valid host" "length host < 256" "render target = (host, port)" "link_free mc"
    and "open_session render sid UDPAssociate target mc = Some mc1"
  shows "\<exists>x'. server_handles (LinkData l (concat (data_q mc1)) :: ('l, unit) proxy_event) x = Some x' \<and>
    tasks x' = tasks x @ [SessionUdp h sid (Domain host port) (length (chans (muxes x ! h)))] \<and>
    muxes x' ! h = register sid (muxes x ! h)"
proof -
  let ?me = "muxes x ! h" and ?con = "frame_new Connect sid (encode_connect_payload host port True)"
  from assms(1,2) have len: "h < length (muxes x)" by (auto simp: server_inv_def)
  from assms(7,9) have "send Connect sid (encode_connect_payload host port True) mc = Some mc1"
    by (auto simp: open_session_def udp_bind_connect_def)
  from send_SomeD [OF this] assms(8) have q: "concat (data_q mc1) = encode ?con" by (simp add: link_free_def)
  have "frame_wf ?con" using assms(6) by (simp add: frame_wf_def codec_simps)
  with assms(3) have "receive_data (encode ?con) ?me = ([?con], ?me)"
    by (intro receive_data_clean) (simp_all add: link_free_def frame_stream_def)
  from server_handles_data [OF assms(4,2) this] have
    "server_handles (LinkData l (encode ?con) :: ('l, unit) proxy_event) x = server_frames h [?con] (update_mux h ?me x)" .
  moreover have "decode_connect_payload (payload ?con) = Some (host, port, True)"
    using connect_payload_decodes [OF assms(5,6), of port True "[]"] by simp
  moreover have "update_mux h ?me x = x" by (simp add: update_mux_def)
  ultimately show ?thesis using q len by (simp add: server_frame_connect)
qed

lemma answer_decides:
  assumes "mux_inv m" "sessions m sid = Some rx" "mailbox m sid = Some []" "link_free m"
    and "concat ds = encode (frame_new ConnectOk sid [])"
    and "receive_all ds m = (fs, m1)" "await_reply rx (fold dispatch fs m1) = (w, m2)"
  shows "w = Decided (Inr ())" "m2 = m"
proof -
  let ?ok = "frame_new ConnectOk sid []"
  have "frame_wf ?ok" "recv_buf m = []" using assms(4) by (simp_all add: frame_wf_def link_free_def)
  from client_gets [OF assms(1-3) this(2,1) _ assms(5)] have
    got: "receive_all ds m = ([?ok], m)" "cq (chans (dispatch ?ok m) ! rx) = [?ok]" by simp_all
  from assms(2,3) have ch: "rx_alive (chans m ! rx)" "cq (chans m ! rx) = []" by (auto simp: mailbox_def split: if_splits)
  from mux_invD(1) [OF assms(1,2)] have "rx < length (chans m)" by blast
  have disp: "dispatch ?ok m = m\<lparr>chans := (chans m)[rx := (chans m ! rx)\<lparr>cq := [?ok]\<rparr>]\<rparr>"
    using assms(2) ch by (simp add: dispatch_def)
  have "(chans m ! rx)\<lparr>cq := []\<rparr> = chans m ! rx" using ch(2) by simp
  then have "m\<lparr>chans := (chans m)[rx := (chans m ! rx)\<lparr>cq := []\<rparr>]\<rparr> = m" by simp
  with assms(6,7) got(1) disp \<open>rx < length (chans m)\<close> show "w = Decided (Inr ())" "m2 = m"
    by (auto simp: await_reply_def)
qed

lemma udp_opens:
  assumes client: "mux_inv mc" "sessions mc sid = Some rx" "mailbox mc sid = Some []" "link_free mc"
    and exit: "server_inv x" "link_muxes x l = Some h" "link_free (muxes x ! h)"
    and request: "render target = (host, port)" "utf8_valid host" "length host < 256"
      "open_session render sid UDPAssociate target mc = Some mc1"
    and arrives: "server_handles (LinkData l (concat (data_q mc1)) :: ('l, unit) proxy_event) x = Some x1"
    and handler: "handle_server_session_udp (Inr socket) sid (Domain host port) c (muxes x1 ! h) = Some (out, me)"
    and answer: "concat ds = concat (data_q me)" "receive_all ds (sent_off mc1) = (fs, mc2)"
      "await_reply rx (fold dispatch fs mc2) = (w, mc3)"
  shows "tasks x1 = tasks x @ [SessionUdp h sid (Domain host port) (length (chans (muxes x ! h)))]"
    and "out = Some socket" "w = Decided (Inr ())"
    and "session_begin near_step sid (length (chans (muxes x ! h))) y z (relays_begin mc3 (sent_off me) y z)"
    and "session_begin near_step' sid rx y' z' (relays_begin (sent_off me) mc3 y' z')"
proof -
  let ?me = "muxes x ! h"
  from arrives have idle: "backlog x = []" by (auto simp: server_handles_def server_event_def split: option.splits if_splits)
  from request_registered [OF exit idle request(2,3,1) client(4) request(4)] arrives
  have x1: "tasks x1 = tasks x @ [SessionUdp h sid (Domain host port) (length (chans ?me))]" "muxes x1 ! h = register sid ?me"
    by simp_all
  from exit(1,2) have inv: "mux_inv ?me" by (auto simp: server_inv_def)
  from handler x1(2) have out: "out = Some socket" "send ConnectOk sid [] (register sid ?me) = Some me"
    by (auto simp: handle_server_session_udp_def split: option.splits)
  have reg: "sessions (register sid ?me) sid = Some (length (chans ?me))" "link_free (register sid ?me)"
    using exit(3) by (simp_all add: register_def register_session_def link_free_def is_connected_def)
  from send_SomeD [OF out(2)] reg have me: "sent_off me = register sid ?me" "data_q me = [encode (frame_new ConnectOk sid [])]"
    by (simp_all add: sent_off_def link_free_def)
  from request(1,4) have "send Connect sid (encode_connect_payload host port True) mc = Some mc1"
    by (auto simp: open_session_def udp_bind_connect_def)
  from send_SomeD [OF this] client(4) have mc1: "sent_off mc1 = mc" by (simp add: sent_off_def link_free_def)
  from answer(1) me(2) have ds: "concat ds = encode (frame_new ConnectOk sid [])" by simp
  note dec = answer_decides [OF client ds answer(2) [unfolded mc1] answer(3)]
  show "tasks x1 = tasks x @ [SessionUdp h sid (Domain host port) (length (chans (muxes x ! h)))]" by (rule x1(1))
  show "out = Some socket" by (rule out(1))
  show "w = Decided (Inr ())" by (rule dec(1))
  show "session_begin near_step sid (length (chans (muxes x ! h))) y z (relays_begin mc3 (sent_off me) y z)"
    unfolding me(1) dec(2) using client(4) reg inv
    by (intro relays_begin_session) (simp_all add: table.inv_register table.mailbox_register)
  show "session_begin near_step' sid rx y' z' (relays_begin (sent_off me) mc3 y' z')"
    unfolding me(1) dec(2) using client reg(2) by (intro relays_begin_session)
qed

end
