(* ===== verification/Session_End.thy ===== *)
theory Session_End
  imports Relay Link_Sender
begin

text \<open>
  How a TCP session of the client ends when its link is lost: \<open>reset\<close> drops the sender of its
  channel, the relay takes what is still queued, finds the channel closed, queues its CLOSE
  and drops the session. The CLOSE may have to wait for room in the channel of the link sender,
  which makes room with or without a link, whatever the network answers.
\<close>

text \<open>The relay and the link sender, the rest of the client standing still.\<close>

inductive closing_step ::
  "('n \<Rightarrow> 'l \<Rightarrow> bytes \<Rightarrow> u8 \<Rightarrow> bool \<times> 'n) \<Rightarrow> nat \<Rightarrow> u32 \<Rightarrow> nat
     \<Rightarrow> 'n \<times> 'l mux \<times> (read_result, bytes, unit) relay
     \<Rightarrow> 'n \<times> 'l mux \<times> (read_result, bytes, unit) relay \<Rightarrow> bool"
  for so :: "'n \<Rightarrow> 'l \<Rightarrow> bytes \<Rightarrow> u8 \<Rightarrow> bool \<times> 'n" and mdu :: nat and sid :: u32 and c :: nat where
  relays: "relay_bidirectional_tcp sid c (m, r) (m', r') \<Longrightarrow> closing_step so mdu sid c (n, m, r) (n, m', r')"
| takes: "closing_step so mdu sid c (n, m, r) (n, sender_recv mdu m, r)"
| chunk: "sender_chunk so (n, m) = (n', m') \<Longrightarrow> closing_step so mdu sid c (n, m, r) (n', m', r)"

lemma closing_sender:
  assumes "(sender_task so mdu)\<^sup>*\<^sup>* (n, m) (n', m')"
  shows "(closing_step so mdu sid c)\<^sup>*\<^sup>* (n, m, r) (n', m', r)"
  using assms
proof (induction rule: rtranclp_induct2)
  case (step n1 m1 n2 m2)
  from step.hyps(2) have "closing_step so mdu sid c (n1, m1, r) (n2, m2, r)"
    by cases (auto intro: closing_step.intros)
  with step.IH show ?case by (rule rtranclp.rtrancl_into_rtrancl)
qed simp

section \<open>From the end of the select to the end of the session\<close>

lemma closing_ends:
  assumes "stage r = Closing"
  shows "\<exists>n' m' r'. (closing_step so mdu sid c)\<^sup>*\<^sup>* (n, m, r) (n', m', r') \<and> stage r' = Ended \<and>
    sent r' = sent r @ [frame_new Close sid []] \<and> written r' = written r \<and> sessions m' sid = None"
proof -
  from sender_makes_room [of so mdu n m] obtain n1 m1 where
    m1: "(sender_task so mdu)\<^sup>*\<^sup>* (n, m) (n1, m1)" "length (data_q m1) < SENDER_CAPACITY" by blast
  note 1 = closing_sender [OF m1(1), of sid c r] m1(2)
  then obtain m2 where m2: "send Close sid [] m1 = Some m2" by (simp add: send_def send_frame_def)
  let ?r2 = "r\<lparr>stage := Dropping, sent := sent r @ [frame_new Close sid []]\<rparr>"
  have "relay_bidirectional_tcp sid c (m1, r) (m2, ?r2)"
    unfolding relay_bidirectional_tcp_def by (rule close_sent [OF assms m2])
  note 2 = relays [of sid c m1 r m2 ?r2 so mdu n1, OF this]
  have "relay_bidirectional_tcp sid c (m2, ?r2) (drop_session sid m2, ?r2\<lparr>stage := Ended\<rparr>)"
    unfolding relay_bidirectional_tcp_def by (rule session_dropped) simp
  note 3 = relays [of sid c m2 ?r2 "drop_session sid m2" "?r2\<lparr>stage := Ended\<rparr>" so mdu n1, OF this]
  from 1(1) 2 3 have "(closing_step so mdu sid c)\<^sup>*\<^sup>* (n, m, r) (n1, drop_session sid m2, ?r2\<lparr>stage := Ended\<rparr>)"
    by (meson rtranclp.rtrancl_into_rtrancl)
  moreover have "sessions (drop_session sid m2) sid = None" by (simp add: drop_session_def)
  ultimately show ?thesis by (intro exI conjI) (assumption | simp)+
qed

section \<open>A closed channel ends the relay\<close>

text \<open>The relay stops receiving: \<open>select!\<close> is left, and CLOSE can be next.\<close>

lemma stops_receiving:
  assumes "relay_bidirectional_tcp sid c (m, r) (end_down c (m1, r1))"
    and "stage r1 = Relaying" "sent r1 = sent r" "written r1 = written r"
  shows "\<exists>n' m' r'. (closing_step so mdu sid c)\<^sup>*\<^sup>* (n, m, r) (n', m', r') \<and> stage r' = Ended \<and>
    sent r' = sent r @ [frame_new Close sid []] \<and> written r' = written r \<and> sessions m' sid = None"
proof -
  obtain m2 r2 where 2: "end_down c (m1, r1) = (m2, r2)" by fastforce
  with assms(2-4) have r2: "stage r2 = Closing" "sent r2 = sent r" "written r2 = written r"
    by (auto simp: end_down_def leave_select_def drop_receiver_def)
  from relays [of sid c m r m2 r2 so mdu n] assms(1) 2 have step: "closing_step so mdu sid c (n, m, r) (n, m2, r2)" by simp
  from closing_ends [OF r2(1), of so mdu sid c n m2] obtain n' m' r' where
    "(closing_step so mdu sid c)\<^sup>*\<^sup>* (n, m2, r2) (n', m', r')" "stage r' = Ended"
    "sent r' = sent r2 @ [frame_new Close sid []]" "written r' = written r2" "sessions m' sid = None" by blast
  from converse_rtranclp_into_rtranclp [OF step this(1)] this(2-) r2(2,3) show ?thesis
    by (intro exI [of _ n'] exI [of _ m'] exI [of _ r']) simp
qed

text \<open>
  What is queued is still dealt with in order: DATA is written, and a CLOSE or CONN_ERR ends
  the relay before the end of the channel does.
\<close>

definition still_written :: "frame list \<Rightarrow> bytes list" where
  "still_written q = map payload (filter is_data (takeWhile (\<lambda>f. rns_to_tcp f \<noteq> Break) q))"

lemma closed_session_ends:
  assumes "cq (chans m ! c) = q" "c < length (chans m)" "\<not> tx_alive (chans m ! c)"
    and "down r" "stage r = Relaying"
  shows "\<exists>n' m' r'. (closing_step so mdu sid c)\<^sup>*\<^sup>* (n, m, r) (n', m', r') \<and> stage r' = Ended \<and>
    sent r' = sent r @ [frame_new Close sid []] \<and> written r' = written r @ still_written q \<and>
    sessions m' sid = None"
  using assms
proof (induction q arbitrary: m r)
  case Nil
  have "recv c m = (Closed, m)" using Nil by (simp add: recv_def)
  then have "relay_bidirectional_tcp sid c (m, r) (end_down c (m, r))"
    unfolding relay_bidirectional_tcp_def using Nil.prems(4) by (rule down_closed [rotated])
  from stops_receiving [OF this Nil.prems(5) refl refl] show ?case
    by (simp add: still_written_def)
next
  case (Cons f q)
  let ?m = "m\<lparr>chans := (chans m)[c := (chans m ! c)\<lparr>cq := q\<rparr>]\<rparr>"
  have rcv: "recv c m = (Got f, ?m)" using Cons.prems(1) by (simp add: recv_def)
  have IH: "\<exists>n' m' r'. (closing_step so mdu sid c)\<^sup>*\<^sup>* (n, m, r) (n', m', r') \<and> stage r' = Ended \<and>
      sent r' = sent r @ [frame_new Close sid []] \<and> written r' = written r @ ws @ still_written q \<and>
      sessions m' sid = None"
    if step: "relay_bidirectional_tcp sid c (m, r) (?m, r1)"
      and r1: "down r1" "stage r1 = Relaying" "sent r1 = sent r" "written r1 = written r @ ws" for r1 ws
  proof -
    have "\<exists>n' m' r'. (closing_step so mdu sid c)\<^sup>*\<^sup>* (n, ?m, r1) (n', m', r') \<and> stage r' = Ended \<and>
        sent r' = sent r1 @ [frame_new Close sid []] \<and> written r' = written r1 @ still_written q \<and>
        sessions m' sid = None"
      by (rule Cons.IH) (use Cons.prems r1 in simp_all)
    then obtain n' m' r' where "(closing_step so mdu sid c)\<^sup>*\<^sup>* (n, ?m, r1) (n', m', r')" "stage r' = Ended"
      "sent r' = sent r1 @ [frame_new Close sid []]" "written r' = written r1 @ still_written q"
      "sessions m' sid = None" by blast
    from converse_rtranclp_into_rtranclp [OF relays [OF step] this(1)] this(2-) r1(3,4) show ?thesis
      by (intro exI [of _ n'] exI [of _ m'] exI [of _ r']) simp
  qed
  show ?case
  proof (cases "rns_to_tcp f")
    case (Write out)
    with rns_to_tcp_cases(1) have out: "is_data f" "out = payload f" by blast+
    let ?r = "r\<lparr>written := written r @ [out], handled := handled r @ [f]\<rparr>"
    have "relay_bidirectional_tcp sid c (m, r) (?m, ?r)"
      unfolding relay_bidirectional_tcp_def
      by (rule down_write [OF Cons.prems(4) _ rcv]) (simp_all add: lock_free_def Write)
    from IH [OF this, of "[out]"] Cons.prems(4,5) out Write show ?thesis by (simp add: still_written_def)
  next
    case Skip
    with rns_to_tcp_cases(2) have "\<not> is_data f" by blast
    let ?r = "r\<lparr>handled := handled r @ [f]\<rparr>"
    have "relay_bidirectional_tcp sid c (m, r) (?m, ?r)"
      unfolding relay_bidirectional_tcp_def
      by (rule down_skip [OF Cons.prems(4) _ rcv]) (simp_all add: lock_free_def Skip)
    from IH [OF this, of "[]"] Cons.prems(4,5) \<open>\<not> is_data f\<close> Skip show ?thesis
      by (simp add: still_written_def)
  next
    case Break
    have "relay_bidirectional_tcp sid c (m, r) (end_down c (?m, r\<lparr>handled := handled r @ [f]\<rparr>))"
      unfolding relay_bidirectional_tcp_def by (rule down_break [OF Cons.prems(4) rcv]) (simp add: Break)
    from stops_receiving [OF this, of so mdu n] Cons.prems(5) Break show ?thesis
      by (simp add: still_written_def)
  qed
qed

end
