(* ===== verification/Reconnect.thy ===== *)
theory Reconnect
  imports Mux Node
begin

text \<open>
  \<open>src/client.rs\<close>: keeping the client's link up. \<open>establish_link\<close>, \<open>dispatch_and_reconnect\<close>
  and \<open>wait_for_path\<close> as one state machine whose states are the points where the task
  waits, and whose inputs are what it waits for there: an event of the RNS node, the end of
  a sleep, the answer about a path, the recalled key, the id of a new link. What the node
  answers (\<open>rns_net\<close>) is input, never decided here.
\<close>

section \<open>Delays\<close>

text \<open>The two updates of \<open>delay\<close>, a \<open>u64\<close> of seconds.\<close>

definition path_backoff :: "u64 \<Rightarrow> u64" where
  "path_backoff delay = min (delay * 2) 30"

definition link_backoff :: "u64 \<Rightarrow> u64" where
  "link_backoff delay = min (delay * 2 + 1) 30"

section \<open>Waiting for a link\<close>

text \<open>What the loop of \<open>establish_link\<close> makes of one event: decided, or go on waiting.\<close>

definition establish_event :: "'l \<Rightarrow> ('l, 'd) proxy_event \<Rightarrow> bool option" where
  "establish_event own e =
     (case e of
        LinkEstablished lid rtt is_initiator \<Rightarrow>
          if lid = own \<and> is_initiator then Some True else None
      | LinkClosed lid reason \<Rightarrow> if lid = own then Some False else None
      | _ \<Rightarrow> None)"

text \<open>
  The whole of \<open>establish_link\<close> over the events in its queue, \<open>rx_open\<close> telling whether the
  queue can still grow: the answer, if there is one, and the events left.
\<close>

fun establish_link ::
  "bool \<Rightarrow> 'l \<Rightarrow> ('l, 'd) proxy_event list \<Rightarrow> 'l mux
     \<Rightarrow> bool option \<times> ('l, 'd) proxy_event list \<times> 'l mux" where
  "establish_link rx_open l [] m = (if rx_open then None else Some False, [], m)"
| "establish_link rx_open l (e # es) m =
     (case establish_event l e of
        Some True \<Rightarrow> (Some True, es, set_link_id l m)
      | Some False \<Rightarrow> (Some False, es, m)
      | None \<Rightarrow> establish_link rx_open l es m)"

text \<open>With the attempt to create the link before it; \<open>None\<close> is its error.\<close>

definition attempt_link ::
  "bool \<Rightarrow> 'l option \<Rightarrow> ('l, 'd) proxy_event list \<Rightarrow> 'l mux
     \<Rightarrow> bool option \<times> ('l, 'd) proxy_event list \<times> 'l mux" where
  "attempt_link rx_open created es m =
     (case created of
        Some l \<Rightarrow> establish_link rx_open l es m
      | None \<Rightarrow> (Some False, es, m))"

section \<open>The machine of \<open>dispatch_and_reconnect\<close>\<close>

datatype 'l phase =
    Dispatching
  | Sleeping u64
  | CheckingPath u64
  | Recalling u64
  | CreatingLink u64
  | AwaitingLink u64 'l
  | Stopped

record 'l driver =
  dmux :: "'l mux"
  phase :: "'l phase"
  notified :: nat

datatype ('l, 'd) input =
    Event "('l, 'd) proxy_event"
  | EventsClosed
  | Timer
  | PathChecked bool
  | Recalled "bytes option"
  | LinkAttempt "'l option"

text \<open>Handing the frames of a batch to their sessions.\<close>

definition dispatch_data :: "bytes \<Rightarrow> 'l mux \<Rightarrow> 'l mux" where
  "dispatch_data data m = (let (frames, m') = receive_data data m in fold dispatch frames m')"

definition dispatch_event :: "('l, 'd) proxy_event \<Rightarrow> 'l driver \<Rightarrow> 'l driver" where
  "dispatch_event e r =
     (case e of
        LinkData l data \<Rightarrow> r\<lparr>dmux := dispatch_data data (dmux r)\<rparr>
      | LinkClosed l reason \<Rightarrow> r\<lparr>dmux := reset (dmux r), phase := Sleeping 0\<rparr>
      | _ \<Rightarrow> r)"

definition link_failed :: "u64 \<Rightarrow> 'l driver \<Rightarrow> 'l driver" where
  "link_failed delay r = r\<lparr>phase := Sleeping (link_backoff delay)\<rparr>"

definition path_failed :: "u64 \<Rightarrow> 'l driver \<Rightarrow> 'l driver" where
  "path_failed delay r = r\<lparr>phase := Sleeping (path_backoff delay)\<rparr>"

text \<open>\<open>None\<close>: the task does not wait for this input in this state.\<close>

definition driver_step :: "('l, 'd) input \<Rightarrow> 'l driver \<Rightarrow> 'l driver option" where
  "driver_step i r =
     (case (phase r, i) of
        (Dispatching, Event e) \<Rightarrow> Some (dispatch_event e r)
      | (Dispatching, EventsClosed) \<Rightarrow> Some (r\<lparr>phase := Stopped\<rparr>)
      | (Sleeping delay, Timer) \<Rightarrow> Some (r\<lparr>phase := CheckingPath delay\<rparr>)
      | (CheckingPath delay, PathChecked found) \<Rightarrow>
          Some (if found then r\<lparr>phase := Recalling delay\<rparr> else path_failed delay r)
      | (Recalling delay, Recalled key) \<Rightarrow>
          Some (case key of Some k \<Rightarrow> r\<lparr>phase := CreatingLink delay\<rparr> | None \<Rightarrow> path_failed delay r)
      | (CreatingLink delay, LinkAttempt created) \<Rightarrow>
          Some (case created of Some l \<Rightarrow> r\<lparr>phase := AwaitingLink delay l\<rparr>
                | None \<Rightarrow> link_failed delay r)
      | (AwaitingLink delay l, Event e) \<Rightarrow>
          Some (case establish_event l e of
                  Some True \<Rightarrow> r\<lparr>dmux := set_link_id l (dmux r), phase := Dispatching,
                                 notified := Suc (notified r)\<rparr>
                | Some False \<Rightarrow> link_failed delay r
                | None \<Rightarrow> r)
      | (AwaitingLink delay l, EventsClosed) \<Rightarrow> Some (link_failed delay r)
      | _ \<Rightarrow> None)"

fun driver_run :: "('l, 'd) input list \<Rightarrow> 'l driver \<Rightarrow> 'l driver option" where
  "driver_run [] r = Some r"
| "driver_run (i # is) r =
     (case driver_step i r of Some r' \<Rightarrow> driver_run is r' | None \<Rightarrow> None)"

text \<open>
  The state \<open>connect_rns\<close> hands over: a fresh multiplexer on its first link. Between two
  inputs the other tasks act on the multiplexer; they leave the reassembly buffer alone and
  at most forget the link id (\<open>run_link_sender\<close> does on a failed send). The reason of a
  closed link is never read; it is \<open>unit\<close> here.
\<close>

definition driver_start :: "'l \<Rightarrow> 'l driver" where
  "driver_start l = \<lparr>dmux = set_link_id l mux_new, phase = Dispatching, notified = 0\<rparr>"

inductive driver_reachable :: "'l \<Rightarrow> 'l driver \<Rightarrow> bool" for l :: 'l where
  start: "driver_reachable l (driver_start l)"
| step: "driver_reachable l r \<Longrightarrow> driver_step (i :: ('l, unit) input) r = Some r' \<Longrightarrow> driver_reachable l r'"
| others: "driver_reachable l r \<Longrightarrow> recv_buf m = recv_buf (dmux r) \<Longrightarrow>
     link_id m = link_id (dmux r) \<or> link_id m = None \<Longrightarrow> (mux_inv (dmux r) \<Longrightarrow> mux_inv m) \<Longrightarrow>
     driver_reachable l (r\<lparr>dmux := m\<rparr>)"

section \<open>\<open>wait_for_path\<close>\<close>

text \<open>
  The loop that recalls the identity until it succeeds, with a second of sleep in between;
  \<open>None\<close> is a loop that never ends.
\<close>

partial_function (option) recall_loop ::
  "('w \<Rightarrow> bytes option option \<times> 'w) \<Rightarrow> ('w \<Rightarrow> 'w) \<Rightarrow> 'w \<Rightarrow> (bytes \<times> 'w) option" where
  "recall_loop recall sleep w =
     (case recall_sig_pub (fst (recall w)) of
        Some sig_pub \<Rightarrow> Some (sig_pub, snd (recall w))
      | None \<Rightarrow> recall_loop recall sleep (sleep (snd (recall w))))"

definition wait_for_path ::
  "('w \<Rightarrow> bool option \<times> 'w) \<Rightarrow> ('w \<Rightarrow> 'w) \<Rightarrow> ('w \<Rightarrow> bytes option option \<times> 'w) \<Rightarrow> ('w \<Rightarrow> 'w)
     \<Rightarrow> 'w \<Rightarrow> (bytes \<times> 'w) option" where
  "wait_for_path has_path request_path recall sleep w =
     recall_loop recall sleep (snd (ensure_path has_path request_path sleep 30 w))"

section \<open>\<open>connect_rns\<close>\<close>

text \<open>
  The first connection: the node was created (\<open>created\<close>), \<open>wait_for_path\<close>, one attempt to
  establish a link, whose id \<open>create_link\<close> answers from the recalled key, over the events of
  the node. \<open>None\<close> is a client that still waits, \<open>Some None\<close> one that gave up, and \<open>Some (Some (m, es))\<close>
  one that goes on with the multiplexer and the events that are left.
\<close>

definition connect_rns ::
  "bool \<Rightarrow> ('w \<Rightarrow> bool option \<times> 'w) \<Rightarrow> ('w \<Rightarrow> 'w) \<Rightarrow> ('w \<Rightarrow> bytes option option \<times> 'w) \<Rightarrow> ('w \<Rightarrow> 'w)
     \<Rightarrow> ('w \<Rightarrow> bytes \<Rightarrow> 'l option) \<Rightarrow> bool \<Rightarrow> ('l, 'd) proxy_event list \<Rightarrow> 'w
     \<Rightarrow> ('l mux \<times> ('l, 'd) proxy_event list) option option" where
  "connect_rns created has_path request_path recall sleep create_link rx_open es w =
     (if \<not> created then Some None
      else case wait_for_path has_path request_path recall sleep w of
        None \<Rightarrow> None
      | Some (sig_pub_bytes, w') \<Rightarrow>
          (case attempt_link rx_open (create_link w' sig_pub_bytes) es mux_new of
             (None, es', m) \<Rightarrow> None
           | (Some ok, es', m) \<Rightarrow> Some (if ok then Some (m, es') else None)))"

section \<open>Invariants\<close>

fun phase_delay :: "'l phase \<Rightarrow> u64 option" where
  "phase_delay Dispatching = None"
| "phase_delay Stopped = None"
| "phase_delay (Sleeping d) = Some d"
| "phase_delay (CheckingPath d) = Some d"
| "phase_delay (Recalling d) = Some d"
| "phase_delay (CreatingLink d) = Some d"
| "phase_delay (AwaitingLink d l) = Some d"

text \<open>
  While the link is down the multiplexer has no link id and an empty reassembly buffer, and
  the delay stays within its bound.
\<close>

definition driver_inv :: "'l driver \<Rightarrow> bool" where
  "driver_inv r \<longleftrightarrow>
     mux_inv (dmux r) \<and>
     (\<forall>d. phase_delay (phase r) = Some d \<longrightarrow>
        d \<le> 30 \<and> \<not> is_connected (dmux r) \<and> recv_buf (dmux r) = [])"

lemma path_backoff_le: "path_backoff d \<le> 30"
  by (simp add: path_backoff_def)

lemma link_backoff_le: "link_backoff d \<le> 30"
  by (simp add: link_backoff_def)

lemma mux_inv_dispatch_data: "mux_inv m \<Longrightarrow> mux_inv (dispatch_data d m)"
  using mux_inv_fields(4) [of d m]
  by (auto simp: dispatch_data_def table.inv_deliver_all case_prod_beta)

lemma driver_inv_start: "driver_inv (driver_start l)"
  by (simp add: driver_inv_def driver_start_def mux_inv_fields)

lemma driver_inv_dispatch_event:
  "driver_inv r \<Longrightarrow> phase r = Dispatching \<Longrightarrow> driver_inv (dispatch_event e r)"
  by (cases e)
    (simp_all add: dispatch_event_def driver_inv_def mux_inv_dispatch_data mux_inv_reset,
     simp_all add: reset_def is_connected_def)

lemma driver_inv_fail:
  "driver_inv r \<Longrightarrow> phase_delay (phase r) = Some d \<Longrightarrow>
     driver_inv (link_failed d' r) \<and> driver_inv (path_failed d' r)"
  by (simp add: driver_inv_def link_failed_def path_failed_def path_backoff_le link_backoff_le)

lemma driver_inv_phase:
  "driver_inv r \<Longrightarrow> phase_delay p = phase_delay (phase r) \<Longrightarrow> driver_inv (r\<lparr>phase := p\<rparr>)"
  by (simp add: driver_inv_def)

lemma driver_inv_linked:
  "driver_inv r \<Longrightarrow> driver_inv (r\<lparr>dmux := set_link_id l (dmux r), phase := Dispatching, notified := n\<rparr>)"
  by (simp add: driver_inv_def mux_inv_fields)

lemma driver_inv_step:
  assumes "driver_step i r = Some r'" "driver_inv r"
  shows "driver_inv r'"
proof (cases "phase r")
  case Dispatching
  with assms show ?thesis
    by (cases i) (auto simp: driver_step_def driver_inv_dispatch_event, simp add: driver_inv_def)
next
  case (AwaitingLink d l)
  with assms(2) have fail: "driver_inv (link_failed d r)"
    using driver_inv_fail by fastforce
  with AwaitingLink assms show ?thesis
    by (cases i) (auto simp: driver_step_def driver_inv_linked split: option.splits bool.splits)
next
  case (CheckingPath d)
  with assms(2) have fail: "driver_inv (path_failed d r)"
    using driver_inv_fail by fastforce
  with CheckingPath assms show ?thesis
    by (cases i) (auto simp: driver_step_def driver_inv_phase split: if_splits)
next
  case (Recalling d)
  with assms(2) have fail: "driver_inv (path_failed d r)"
    using driver_inv_fail by fastforce
  with Recalling assms show ?thesis
    by (cases i) (auto simp: driver_step_def driver_inv_phase split: option.splits)
next
  case (CreatingLink d)
  with assms(2) have fail: "driver_inv (link_failed d r)"
    using driver_inv_fail by fastforce
  with CreatingLink assms show ?thesis
    by (cases i) (auto simp: driver_step_def driver_inv_phase split: option.splits)
next
  case (Sleeping d)
  with assms show ?thesis by (cases i) (auto simp: driver_step_def driver_inv_phase)
next
  case Stopped
  with assms show ?thesis by (cases i) (auto simp: driver_step_def)
qed

lemma reachable_driver_inv: "driver_reachable l r \<Longrightarrow> driver_inv r"
proof (induction rule: driver_reachable.induct)
  case start
  show ?case by (rule driver_inv_start)
next
  case (step r i r')
  then show ?case by (blast intro: driver_inv_step)
next
  case (others r m)
  then show ?case by (auto simp: driver_inv_def is_connected_def)
qed

section \<open>Backoff\<close>

lemma path_backoff_zero: "path_backoff 0 = 0"
  by (simp add: path_backoff_def)

lemma link_backoff_values:
  "link_backoff 0 = 1" "link_backoff 1 = 3" "link_backoff 3 = 7" "link_backoff 7 = 15"
  "link_backoff 15 = 30" "link_backoff 30 = 30"
  by (simp_all add: link_backoff_def min_def)

lemma link_backoff_sequence:
  "(link_backoff ^^ k) 0 = (if k < 5 then [0, 1, 3, 7, 15] ! k else 30)"
proof (induction k)
  case (Suc k)
  consider "k = 0" | "k = 1" | "k = 2" | "k = 3" | "k = 4" | "5 \<le> k" by linarith
  then show ?case unfolding funpow.simps comp_apply Suc.IH
    by cases (simp_all add: link_backoff_values)
qed simp

text \<open>One round of the reconnection loop that ends at a missing path.\<close>

lemma driver_path_round:
  "phase r = Sleeping d \<Longrightarrow>
     driver_run [Timer, PathChecked False] r = Some (r\<lparr>phase := Sleeping (path_backoff d)\<rparr>)"
  by (simp add: driver_step_def path_failed_def)

lemma driver_link_round:
  "phase r = Sleeping d \<Longrightarrow>
     driver_run [Timer, PathChecked True, Recalled (Some k), LinkAttempt None] r =
       Some (r\<lparr>phase := Sleeping (link_backoff d)\<rparr>)"
  by (simp add: driver_step_def link_failed_def)

lemma driver_run_append:
  "driver_run (is @ js) r = (case driver_run is r of Some r' \<Rightarrow> driver_run js r' | None \<Rightarrow> None)"
  by (induction "is" arbitrary: r) (auto split: option.split)

lemma driver_path_rounds:
  "phase r = Sleeping 0 \<Longrightarrow>
     driver_run (concat (replicate k [Timer, PathChecked False])) r = Some r"
proof (induction k)
  case (Suc k)
  have "r\<lparr>phase := Sleeping 0\<rparr> = r" using Suc.prems by simp
  then show ?case
    by (simp only: replicate_Suc concat.simps driver_run_append option.case
        driver_path_round [OF Suc.prems] path_backoff_zero Suc.IH [OF Suc.prems])
qed simp

lemma driver_link_rounds:
  "phase r = Sleeping d \<Longrightarrow>
     driver_run (concat (replicate k [Timer, PathChecked True, Recalled (Some key), LinkAttempt None])) r =
       Some (r\<lparr>phase := Sleeping ((link_backoff ^^ k) d)\<rparr>)"
proof (induction k arbitrary: r d)
  case (Suc k)
  let ?r = "r\<lparr>phase := Sleeping (link_backoff d)\<rparr>"
  have "phase ?r = Sleeping (link_backoff d)" by simp
  note IH = Suc.IH [OF this]
  show ?case
    by (simp only: replicate_Suc concat.simps driver_run_append option.case
        driver_link_round [OF Suc.prems] IH funpow_Suc_right comp_apply) simp
qed (cases r, simp)

section \<open>\<open>establish_link\<close> and \<open>recall_loop\<close>\<close>

lemma establish_link_ignored:
  "\<forall>e\<in>set es. establish_event l e = None \<Longrightarrow>
     establish_link rx l (es @ rest) m = establish_link rx l rest m"
  by (induction es) simp_all

lemma establish_link_cases:
  "establish_link rx l es m = (r, es', m') \<Longrightarrow>
     m' = (if r = Some True then set_link_id l m else m) \<and> (\<exists>front. es = front @ es')"
proof (induction es)
  case Nil
  then show ?case by (auto split: if_splits)
next
  case (Cons e es)
  show ?case
  proof (cases "establish_event l e")
    case None
    with Cons.prems have "establish_link rx l es m = (r, es', m')" by simp
    from Cons.IH [OF this] show ?thesis by (metis append_Cons)
  next
    case (Some ok)
    with Cons.prems show ?thesis by (cases ok) auto
  qed
qed

text \<open>What a client that connects goes on with is a start of the machine above.\<close>

lemma connect_rns_starts_driver:
  assumes "connect_rns created hp rp recall sleep create_link rx es w = Some (Some (m, es'))"
  shows "\<exists>l front. \<lparr>dmux = m, phase = Dispatching, notified = 0\<rparr> = driver_start l \<and> es = front @ es'"
proof -
  from assms obtain l where "establish_link rx l es mux_new = (Some True, es', m)"
    by (auto simp: connect_rns_def attempt_link_def split: if_splits option.splits prod.splits)
  from establish_link_cases [OF this] show ?thesis by (auto simp: driver_start_def)
qed

lemma recall_loop_step:
  "recall_loop recall sleep w =
     (case recall_sig_pub (fst (recall w)) of
        Some sig_pub \<Rightarrow> Some (sig_pub, snd (recall w))
      | None \<Rightarrow> recall_loop recall sleep (sleep (snd (recall w))))"
  by (rule recall_loop.simps)

definition recall_state :: "('w \<Rightarrow> bytes option option \<times> 'w) \<Rightarrow> ('w \<Rightarrow> 'w) \<Rightarrow> nat \<Rightarrow> 'w \<Rightarrow> 'w" where
  "recall_state recall sleep k w = ((\<lambda>w. sleep (snd (recall w))) ^^ k) w"

lemma recall_state_Suc: "recall_state recall sleep (Suc k) w = recall_state recall sleep k (sleep (snd (recall w)))"
  by (simp add: recall_state_def funpow_Suc_right del: funpow.simps(2))

lemma recall_loop_returns:
  "recall_sig_pub (fst (recall (recall_state recall sleep k w))) \<noteq> None \<Longrightarrow>
     recall_loop recall sleep w \<noteq> None"
proof (induction k arbitrary: w)
  case 0
  then show ?case by (subst recall_loop_step) (auto simp: recall_state_def)
next
  case (Suc k)
  then have "recall_loop recall sleep (sleep (snd (recall w))) \<noteq> None"
    by (intro Suc.IH) (simp add: recall_state_Suc)
  then show ?case by (subst recall_loop_step) (auto split: option.split)
qed

lemma recall_loop_result:
  assumes ret: "recall_loop recall sleep w = Some r"
  shows "\<exists>k. recall_sig_pub (fst (recall (recall_state recall sleep k w))) = Some (fst r)"
proof (rule recall_loop.raw_induct
    [where P = "\<lambda>recall sleep w r.
       \<exists>k. recall_sig_pub (fst (recall (recall_state recall sleep k w))) = Some (fst r)", OF _ ret])
  fix f :: "('a \<Rightarrow> bytes option option \<times> 'a) \<Rightarrow> ('a \<Rightarrow> 'a) \<Rightarrow> 'a \<Rightarrow> (bytes \<times> 'a) option"
  fix recall sleep w r
  assume IH: "\<And>recall sleep w r. f recall sleep w = Some r \<Longrightarrow>
      \<exists>k. recall_sig_pub (fst (recall (recall_state recall sleep k w))) = Some (fst r)"
    and eq: "(case recall_sig_pub (fst (recall w)) of
        None \<Rightarrow> f recall sleep (sleep (snd (recall w)))
      | Some sig_pub \<Rightarrow> Some (sig_pub, snd (recall w))) = Some r"
  show "\<exists>k. recall_sig_pub (fst (recall (recall_state recall sleep k w))) = Some (fst r)"
  proof (cases "recall_sig_pub (fst (recall w))")
    case None
    with eq IH obtain k where
      "recall_sig_pub (fst (recall (recall_state recall sleep k (sleep (snd (recall w)))))) = Some (fst r)"
      by fastforce
    then show ?thesis by (metis recall_state_Suc)
  next
    case (Some key)
    with eq show ?thesis by (auto simp: recall_state_def intro!: exI [of _ 0])
  qed
qed

end
