(* ===== verification/Startup.thy ===== *)
theory Startup
  imports Server Client Reconnect
begin

text \<open>
  How both ends start. The exit node (\<open>run_server\<close> up to its event loop, \<open>create_node\<close>)
  finds or makes its identity, derives its address and keys, registers and announces. The
  client (\<open>run_client\<close>, \<open>run_client_forward\<close>, \<open>reconnect_generator\<close>) checks the address it is
  given, connects, and listens. What the crates and the operating system do is a record of
  functions on a world \<open>'w\<close>, which holds the files and the RNS daemon; a panic and an early
  return are values.
\<close>

section \<open>Paths\<close>

text \<open>A \<open>PathBuf\<close> on Unix: absolute or not, and its components.\<close>

record path_buf =
  absolute :: bool
  components :: "bytes list"

definition SLASH :: u8 where
  "SLASH = 0x2F"

definition DOT :: bytes where
  "DOT = [0x2E]"

fun split_slash :: "bytes \<Rightarrow> bytes list" where
  "split_slash [] = [[]]"
| "split_slash (c # cs) =
     (if c = SLASH then [] # split_slash cs
      else (c # hd (split_slash cs)) # tl (split_slash cs))"

text \<open>Empty components disappear, and so does every \<open>.\<close> but a leading one.\<close>

definition path_from :: "bytes \<Rightarrow> path_buf" where
  "path_from s =
     (let parts = split_slash s; abs = (s \<noteq> [] \<and> hd s = SLASH)
      in \<lparr>absolute = abs,
          components =
            (if \<not> abs \<and> hd parts = DOT then [DOT] else [])
            @ filter (\<lambda>p. p \<noteq> [] \<and> p \<noteq> DOT) parts\<rparr>)"

definition path_join :: "path_buf \<Rightarrow> bytes \<Rightarrow> path_buf" where
  "path_join dir name = dir\<lparr>components := components dir @ [name]\<rparr>"

definition path_parent :: "path_buf \<Rightarrow> path_buf option" where
  "path_parent p = (if components p = [] then None else Some (p\<lparr>components := butlast (components p)\<rparr>))"

definition DEFAULT_IDENTITY_FILENAME :: bytes where
  "DEFAULT_IDENTITY_FILENAME = str_bytes ''rns_proxy_identity''"

definition APP_NAME :: bytes where
  "APP_NAME = str_bytes ''rns_socks''"

definition APP_ASPECT :: bytes where
  "APP_ASPECT = str_bytes ''proxy''"

text \<open>\<open>config_dir\<close> is the answer of \<open>storage::resolve_config_dir(None)\<close>.\<close>

definition identity_file_path :: "path_buf \<Rightarrow> bytes option \<Rightarrow> path_buf" where
  "identity_file_path config_dir override_path =
     (case override_path of
        Some p \<Rightarrow> path_from p
      | None \<Rightarrow> path_join config_dir DEFAULT_IDENTITY_FILENAME)"

section \<open>What is outside\<close>

text \<open>
  \<open>rns_crypto::Identity\<close> is \<open>'i\<close>, \<open>rns_net::Destination\<close> is \<open>'d\<close>. A call that can fail answers
  \<open>None\<close> or \<open>False\<close>.
\<close>

record ('w, 'i, 'd) host =
  path_exists :: "path_buf \<Rightarrow> 'w \<Rightarrow> bool"
  create_dir_all :: "path_buf \<Rightarrow> 'w \<Rightarrow> 'w option"
  load_identity :: "path_buf \<Rightarrow> 'w \<Rightarrow> 'i option"
  save_identity :: "'i \<Rightarrow> path_buf \<Rightarrow> 'w \<Rightarrow> 'w option"
  identity_new :: "'w \<Rightarrow> 'i \<times> 'w"
  get_private_key :: "'i \<Rightarrow> bytes option"
  get_public_key :: "'i \<Rightarrow> bytes option"
  identity_hash :: "'i \<Rightarrow> bytes"
  from_private_key :: "bytes \<Rightarrow> 'i"
  single_in :: "bytes \<Rightarrow> bytes list \<Rightarrow> bytes \<Rightarrow> 'd"
  destination_hash :: "'d \<Rightarrow> bytes"
  connect_shared :: "'w \<Rightarrow> bool \<times> 'w"
  register_link_destination :: "bytes \<Rightarrow> bytes \<Rightarrow> bytes \<Rightarrow> u8 \<Rightarrow> 'w \<Rightarrow> bool \<times> 'w"
  announce :: "'d \<Rightarrow> 'i \<Rightarrow> 'w \<Rightarrow> bool \<times> 'w"
  sleep_secs :: "nat \<Rightarrow> 'w \<Rightarrow> 'w"

datatype startup_error =
    LoadPanic | CreateDirPanic | SavePanic | PrivateKeyPanic | PublicKeyPanic | KeyLengthPanic
  | NodeFailed | RegisterFailed

section \<open>The identity of the exit node\<close>

definition new_identity ::
  "('w, 'i, 'd) host \<Rightarrow> path_buf \<Rightarrow> 'w \<Rightarrow> (startup_error + 'i) \<times> 'w" where
  "new_identity h id_path w =
     (let (i, w1) = identity_new h w;
          made = (case path_parent id_path of
                    Some parent \<Rightarrow> create_dir_all h parent w1
                  | None \<Rightarrow> Some w1)
      in case made of
           None \<Rightarrow> (Inl CreateDirPanic, w1)
         | Some w2 \<Rightarrow>
             (case save_identity h i id_path w2 of
                None \<Rightarrow> (Inl SavePanic, w2)
              | Some w3 \<Rightarrow> (Inr i, w3)))"

definition server_identity ::
  "('w, 'i, 'd) host \<Rightarrow> path_buf \<Rightarrow> 'w \<Rightarrow> (startup_error + 'i) \<times> 'w" where
  "server_identity h id_path w =
     (if path_exists h id_path w
      then (case load_identity h id_path w of
              Some i \<Rightarrow> (Inr i, w)
            | None \<Rightarrow> (Inl LoadPanic, w))
      else new_identity h id_path w)"

text \<open>\<open>key[32..64].try_into().unwrap()\<close>: the second half of a 64-byte key.\<close>

definition key_half :: "bytes \<Rightarrow> bytes option" where
  "key_half key = (if 64 \<le> length key then Some (take 32 (drop 32 key)) else None)"

record 'd server_keys =
  identity_prv_bytes :: bytes
  link_dest :: 'd
  sig_prv :: bytes
  sig_pub :: bytes

definition derive_keys :: "('w, 'i, 'd) host \<Rightarrow> 'i \<Rightarrow> startup_error + 'd server_keys" where
  "derive_keys h i =
     (case get_private_key h i of
        None \<Rightarrow> Inl PrivateKeyPanic
      | Some prv \<Rightarrow>
          (case get_public_key h i of
             None \<Rightarrow> Inl PublicKeyPanic
           | Some pub \<Rightarrow>
               (case (key_half prv, key_half pub) of
                  (Some sprv, Some spub) \<Rightarrow>
                    Inr \<lparr>identity_prv_bytes = prv,
                         link_dest = single_in h APP_NAME [APP_ASPECT] (identity_hash h i),
                         sig_prv = sprv, sig_pub = spub\<rparr>
                | _ \<Rightarrow> Inl KeyLengthPanic)))"

section \<open>\<open>run_server\<close>\<close>

text \<open>\<open>create_node\<close>: the event queue the callbacks of the new node feed.\<close>

definition create_node ::
  "('w \<Rightarrow> bool \<times> 'w) \<Rightarrow> 'w \<Rightarrow> ('l, 't) event_chan option \<times> 'w" where
  "create_node connect w =
     (let (ok, w') = connect w
      in (if ok then Some \<lparr>events = [], listening = True\<rparr> else None, w'))"

definition announce_self :: "('w, 'i, 'd) host \<Rightarrow> 'd server_keys \<Rightarrow> 'w \<Rightarrow> 'w" where
  "announce_self h k w = snd (announce h (link_dest k) (from_private_key h (identity_prv_bytes k)) w)"

definition server_startup ::
  "('w, 'i, 'd) host \<Rightarrow> path_buf \<Rightarrow> bytes option \<Rightarrow> 'w \<Rightarrow> (startup_error + 'd server_keys) \<times> 'w" where
  "server_startup h config_dir identity_path w =
     (case server_identity h (identity_file_path config_dir identity_path) w of
        (Inl e, w1) \<Rightarrow> (Inl e, w1)
      | (Inr i, w1) \<Rightarrow>
          (case derive_keys h i of
             Inl e \<Rightarrow> (Inl e, w1)
           | Inr k \<Rightarrow>
               (case (create_node (connect_shared h) w1 :: (unit, unit) event_chan option \<times> 'w) of
                  (None, w2) \<Rightarrow> (Inl NodeFailed, w2)
                | (Some rx, w2) \<Rightarrow>
                    (case register_link_destination h (destination_hash h (link_dest k)) (sig_prv k) (sig_pub k) 0 w2 of
                       (False, w3) \<Rightarrow> (Inl RegisterFailed, w3)
                     | (True, w3) \<Rightarrow> (Inr k, announce_self h k w3)))))"

text \<open>The periodic announce: one round of its loop, whose failure only leaves a warning.\<close>

definition ANNOUNCE_SECS :: nat where
  "ANNOUNCE_SECS = 7200"

definition announce_round :: "('w, 'i, 'd) host \<Rightarrow> 'd server_keys \<Rightarrow> 'w \<Rightarrow> 'w" where
  "announce_round h k w = announce_self h k (sleep_secs h ANNOUNCE_SECS w)"

text \<open>
  The whole of \<open>run_server\<close> over the events its queue brings: why it did not start, or the
  state of its event loop when it has handled them with nothing in between (\<open>None\<close> if it comes
  to wait for room in a channel on the way; \<open>server_loop\<close> goes frame by frame).
\<close>

definition run_server ::
  "('w, 'i, 'd) host \<Rightarrow> path_buf \<Rightarrow> bytes option \<Rightarrow> ('l, 't) proxy_event list \<Rightarrow> 'w
     \<Rightarrow> startup_error + 'l server option" where
  "run_server h config_dir identity_path es w =
     (case fst (server_startup h config_dir identity_path w) of
        Inl e \<Rightarrow> Inl e
      | Inr k \<Rightarrow> Inr (server_events es server_start))"

section \<open>The address stays the same\<close>

text \<open>A saved identity is there to be loaded: the documented behaviour of the crate's storage.\<close>

definition storage_ok :: "('w, 'i, 'd) host \<Rightarrow> bool" where
  "storage_ok h \<longleftrightarrow>
     (\<forall>i p w w'. save_identity h i p w = Some w' \<longrightarrow> path_exists h p w' \<and> load_identity h p w' = Some i)"

lemma server_identity_stored:
  assumes "storage_ok h" "server_identity h p w = (Inr i, w')"
  shows "path_exists h p w' \<and> load_identity h p w' = Some i"
  using assms
  by (auto simp: server_identity_def new_identity_def storage_ok_def Let_def
      split: if_splits option.splits prod.splits)

lemma server_identity_again:
  assumes "storage_ok h" "server_identity h p w = (Inr i, w')"
    and "path_exists h p w2 = path_exists h p w'" "load_identity h p w2 = load_identity h p w'"
  shows "server_identity h p w2 = (Inr i, w2)"
  using server_identity_stored [OF assms(1,2)] assms(3,4) by (simp add: server_identity_def)

lemma server_startup_keys:
  assumes "server_startup h dir path w = (Inr k, w')"
  shows "\<exists>i w1. server_identity h (identity_file_path dir path) w = (Inr i, w1) \<and> derive_keys h i = Inr k"
  using assms by (auto simp: server_startup_def split: prod.splits sum.splits option.splits bool.splits)

text \<open>The error of a start tells where it stopped.\<close>

lemma server_startup_identity_error:
  "server_identity h (identity_file_path dir path) w = (Inl e, w1) \<Longrightarrow>
     server_startup h dir path w = (Inl e, w1)"
  by (simp add: server_startup_def)

section \<open>The client\<close>

text \<open>
  The accept loops over what their listener and the notification bring, each with what the
  other tasks did to the multiplexer since the round before.
\<close>

fun accept_loop ::
  "(accept_event \<Rightarrow> 'l mux \<Rightarrow> 't option \<times> 'l mux) \<Rightarrow> (accept_event \<times> ('l mux \<Rightarrow> 'l mux)) list \<Rightarrow> 'l mux
     \<Rightarrow> 't list \<times> 'l mux" where
  "accept_loop round [] m = ([], m)"
| "accept_loop round ((e, others) # es) m =
     (let (spawned, m1) = round e (others m); (rest, m2) = accept_loop round es m1
      in ((case spawned of Some t \<Rightarrow> t # rest | None \<Rightarrow> rest), m2))"

text \<open>\<open>None\<close>: the listener could not be bound, and the task is over.\<close>

definition run_sockets_proxy_handling ::
  "(bytes \<Rightarrow> bool) \<Rightarrow> bytes \<Rightarrow> (accept_event \<times> ('l mux \<Rightarrow> 'l mux)) list \<Rightarrow> 'l mux \<Rightarrow> ((u32 \<times> nat) list \<times> 'l mux) option" where
  "run_sockets_proxy_handling bind listen_addr es m =
     (if bind listen_addr then Some (accept_loop accept_round es m) else None)"

text \<open>
  A tunnel binds its port on the sockets of the machine as they are then (\<open>'o\<close>), and has them
  changed: what is bound stays bound, for the tunnel never returns.
\<close>

definition tunnel_addr :: "forwarded_port \<Rightarrow> socket_addr" where
  "tunnel_addr p = SocketV4 (ipv4 127 0 0 1) (client_port p)"

definition tcp_tunnel ::
  "(socket_addr \<Rightarrow> 'o \<Rightarrow> 'o option) \<Rightarrow> forwarded_port \<Rightarrow> 'o \<Rightarrow> (accept_event \<times> ('l mux \<Rightarrow> 'l mux)) list \<Rightarrow> 'l mux
     \<Rightarrow> (((u32 \<times> nat \<times> target_addr) list \<times> 'l mux) \<times> 'o) option" where
  "tcp_tunnel bind p os es m =
     (case bind (tunnel_addr p) os of
        Some os' \<Rightarrow> Some (accept_loop (tcp_tunnel_round p) es m, os')
      | None \<Rightarrow> None)"

definition udp_tunnel ::
  "(socket_addr \<Rightarrow> 'o \<Rightarrow> 'o option) \<Rightarrow> forwarded_port \<Rightarrow> 'o \<Rightarrow> (accept_event \<times> ('l mux \<Rightarrow> 'l mux)) list \<Rightarrow> 'l mux
     \<Rightarrow> (((u32 \<times> nat \<times> target_addr) list \<times> 'l mux) \<times> 'o) option" where
  "udp_tunnel bind p os es m =
     (case bind (tunnel_addr p) os of
        Some os' \<Rightarrow> Some (accept_loop (udp_tunnel_round p) es m, os')
      | None \<Rightarrow> None)"

definition reconnect_generator :: "'l mux \<Rightarrow> 'l driver" where
  "reconnect_generator m = \<lparr>dmux = m, phase = Dispatching, notified = 0\<rparr>"

text \<open>
  \<open>run_client\<close>: \<open>connect\<close> is \<open>connect_rns\<close> on the decoded address, \<open>bind\<close> the answer for the
  listen address. The client comes back with nothing to do when the address is none, the
  connection fails or the listener cannot be bound; otherwise the tasks of
  \<open>reconnect_generator\<close> and of \<open>run_sockets_proxy_handling\<close> run on the multiplexer.
\<close>

datatype 'r client_run = InvalidAddress | StillConnecting | NotConnected | NotListening | Serving 'r

definition run_client ::
  "(bytes \<Rightarrow> bytes option) \<Rightarrow> (bytes \<Rightarrow> ('l mux \<times> ('l, 't) proxy_event list) option option)
     \<Rightarrow> (bytes \<Rightarrow> bool) \<Rightarrow> bytes \<Rightarrow> bytes \<Rightarrow> ('l driver \<times> ('l, 't) proxy_event list) client_run" where
  "run_client hex_decode connect bind server_hex listen_addr =
     (case decode_hash hex_decode server_hex of
        None \<Rightarrow> InvalidAddress
      | Some destination \<Rightarrow>
          (case connect destination of
             None \<Rightarrow> StillConnecting
           | Some None \<Rightarrow> NotConnected
           | Some (Some (m, rx)) \<Rightarrow>
               (if bind listen_addr then Serving (reconnect_generator m, rx) else NotListening)))"

text \<open>
  \<open>run_client_forward\<close>: of the tunnels it spawns those that cannot bind their port end at once;
  the client itself stays. The spawned tasks come to their \<open>bind\<close> in an order that is the
  runtime's (\<open>order\<close>), each on the sockets that those before it left.
\<close>

fun tunnel_local :: "tunnel_task \<Rightarrow> port_type \<times> socket_addr" where
  "tunnel_local (TcpTunnel p) = (Tcp, tunnel_addr p)"
| "tunnel_local (UdpTunnel p) = (Udp, tunnel_addr p)"

fun tunnel_binds ::
  "(port_type \<Rightarrow> socket_addr \<Rightarrow> 'o \<Rightarrow> 'o option) \<Rightarrow> tunnel_task list \<Rightarrow> 'o \<Rightarrow> tunnel_task list \<times> 'o" where
  "tunnel_binds bind [] os = ([], os)"
| "tunnel_binds bind (t # ts) os =
     (let (kind, addr) = tunnel_local t
      in case bind kind addr os of
           Some os1 \<Rightarrow> (let (running, os2) = tunnel_binds bind ts os1 in (t # running, os2))
         | None \<Rightarrow> tunnel_binds bind ts os)"

definition run_client_forward ::
  "(bytes \<Rightarrow> bytes option) \<Rightarrow> (bytes \<Rightarrow> ('l mux \<times> ('l, 't) proxy_event list) option option)
     \<Rightarrow> (port_type \<Rightarrow> socket_addr \<Rightarrow> 'o \<Rightarrow> 'o option) \<Rightarrow> (tunnel_task list \<Rightarrow> tunnel_task list)
     \<Rightarrow> bytes \<Rightarrow> forwarded_port list \<Rightarrow> 'o
     \<Rightarrow> ('l driver \<times> ('l, 't) proxy_event list \<times> tunnel_task list \<times> 'o) client_run" where
  "run_client_forward hex_decode connect bind order server_hex ports os =
     (case decode_hash hex_decode server_hex of
        None \<Rightarrow> InvalidAddress
      | Some destination \<Rightarrow>
          (case connect destination of
             None \<Rightarrow> StillConnecting
           | Some None \<Rightarrow> NotConnected
           | Some (Some (m, rx)) \<Rightarrow>
               (let (running, os') = tunnel_binds bind (order (run_client_forward_tasks ports)) os
                in Serving (reconnect_generator m, rx, running, os'))))"

text \<open>
  What is known of \<open>bind\<close>: it takes an address the machine can give (\<open>free\<close>) unless the same
  process listens there already (\<open>held\<close>), and then it does; port 0 stands for any port that
  nobody has.
\<close>

definition exclusive_bind ::
  "(port_type \<Rightarrow> socket_addr \<Rightarrow> 'o \<Rightarrow> 'o option) \<Rightarrow> (port_type \<times> socket_addr \<Rightarrow> bool)
     \<Rightarrow> ('o \<Rightarrow> (port_type \<times> socket_addr) set) \<Rightarrow> bool" where
  "exclusive_bind bind free held \<longleftrightarrow>
     (\<forall>kind addr os.
        case bind kind addr os of
          Some os' \<Rightarrow> free (kind, addr) \<and> (port_of addr \<noteq> 0 \<longrightarrow> (kind, addr) \<notin> held os) \<and>
            held os' = insert (kind, addr) (held os)
        | None \<Rightarrow> free (kind, addr) \<longrightarrow> port_of addr \<noteq> 0 \<and> (kind, addr) \<in> held os)"

abbreviation any_port :: "tunnel_task \<Rightarrow> bool" where
  "any_port t \<equiv> port_of (snd (tunnel_local t)) = 0"

lemma tunnel_binds_Cons:
  assumes "exclusive_bind bind free held" "tunnel_binds bind (t # ts) os = (running, os')"
  obtains (bound) os1 rest where "tunnel_binds bind ts os1 = (rest, os')" "running = t # rest" "free (tunnel_local t)"
      "held os1 = insert (tunnel_local t) (held os)" "\<not> any_port t \<Longrightarrow> tunnel_local t \<notin> held os"
    | (refused) "tunnel_binds bind ts os = (running, os')"
      "free (tunnel_local t) \<Longrightarrow> \<not> any_port t \<and> tunnel_local t \<in> held os"
proof -
  obtain kind addr where t: "tunnel_local t = (kind, addr)" by fastforce
  from assms(1) have rule: "case bind kind addr os of
      Some os' \<Rightarrow> free (kind, addr) \<and> (port_of addr \<noteq> 0 \<longrightarrow> (kind, addr) \<notin> held os) \<and> held os' = insert (kind, addr) (held os)
    | None \<Rightarrow> free (kind, addr) \<longrightarrow> port_of addr \<noteq> 0 \<and> (kind, addr) \<in> held os" unfolding exclusive_bind_def by blast
  show thesis
  proof (cases "bind kind addr os")
    case None
    with rule t assms(2) show ?thesis by (intro refused) simp_all
  next
    case (Some os1)
    obtain rest os2 where "tunnel_binds bind ts os1 = (rest, os2)" by fastforce
    with rule t assms(2) Some show ?thesis by (intro bound [of os1 rest]) simp_all
  qed
qed

lemma tunnel_binds_sound:
  assumes "exclusive_bind bind free held" "tunnel_binds bind ts os = (running, os')"
  shows "t \<in> set running \<Longrightarrow> t \<in> set ts \<and> free (tunnel_local t) \<and> (any_port t \<or> tunnel_local t \<notin> held os)"
    and "distinct (map tunnel_local (filter (\<lambda>t. \<not> any_port t) running))"
proof -
  have "(\<forall>t\<in>set running. t \<in> set ts \<and> free (tunnel_local t) \<and> (any_port t \<or> tunnel_local t \<notin> held os)) \<and>
      distinct (map tunnel_local (filter (\<lambda>t. \<not> any_port t) running))"
    using assms(2)
  proof (induction ts arbitrary: os running)
    case (Cons u ts)
    from assms(1) Cons.prems show ?case
    proof (cases rule: tunnel_binds_Cons)
      case (bound os1 rest)
      from Cons.IH [OF bound(1)] bound(2-5) show ?thesis by auto
    next
      case refused
      from Cons.IH [OF refused(1)] show ?thesis by auto
    qed
  qed simp
  then show "t \<in> set running \<Longrightarrow> t \<in> set ts \<and> free (tunnel_local t) \<and> (any_port t \<or> tunnel_local t \<notin> held os)"
    "distinct (map tunnel_local (filter (\<lambda>t. \<not> any_port t) running))" by blast+
qed

lemma tunnel_binds_complete:
  assumes "exclusive_bind bind free held" "tunnel_binds bind ts os = (running, os')"
    and "t \<in> set ts" "free (tunnel_local t)" "any_port t \<or> tunnel_local t \<notin> held os"
  shows "\<exists>u\<in>set running. tunnel_local u = tunnel_local t \<and> (any_port t \<longrightarrow> u = t)"
  using assms(2,3,5)
proof (induction ts arbitrary: os running)
  case (Cons u ts)
  from assms(1) Cons.prems(1) show ?case
  proof (cases rule: tunnel_binds_Cons)
    case (bound os1 rest)
    show ?thesis
    proof (cases "tunnel_local u = tunnel_local t \<and> (any_port t \<longrightarrow> u = t)")
      case True
      with bound(2) show ?thesis by auto
    next
      case False
      with Cons.prems(2,3) bound(4) have "t \<in> set ts" "any_port t \<or> tunnel_local t \<notin> held os1" by auto
      from Cons.IH [OF bound(1) this] bound(2) show ?thesis by auto
    qed
  next
    case refused
    with assms(4) Cons.prems(2,3) have "t \<in> set ts" by auto
    from Cons.IH [OF refused(1) this Cons.prems(3)] show ?thesis .
  qed
qed simp

text \<open>The driver a serving client runs is the machine of the theory Reconnect, on its first link.\<close>

lemma reconnect_generator_start:
  assumes "connect_rns created hp rp recall sleep create_link rx es w = Some (Some (m, es'))"
  shows "\<exists>l. reconnect_generator m = driver_start l"
  using connect_rns_starts_driver [OF assms] by (auto simp: reconnect_generator_def)

lemma tunnel_tasks:
  "TcpTunnel p \<in> set (run_client_forward_tasks ports) \<longleftrightarrow> p \<in> set ports \<and> fp_type p \<in> {Tcp, TcpUdp}"
  "UdpTunnel p \<in> set (run_client_forward_tasks ports) \<longleftrightarrow> p \<in> set ports \<and> fp_type p \<in> {Udp, TcpUdp}"
  by (induction ports)
    (auto simp: run_client_forward_tasks_def tunnels_of_def split: port_type.splits)

lemma accept_loop_all:
  assumes "\<forall>e m t m'. round e m = (Some t, m') \<longrightarrow> P t"
  shows "accept_loop round es m = (ss, m') \<Longrightarrow> \<forall>t\<in>set ss. P t"
proof (induction es arbitrary: m ss)
  case (Cons x es)
  obtain e g where x: "x = (e, g)" by fastforce
  obtain s m1 where s: "round e (g m) = (s, m1)" by fastforce
  obtain rest where rest: "accept_loop round es m1 = (rest, m')"
    "ss = (case s of Some t \<Rightarrow> t # rest | None \<Rightarrow> rest)"
    using Cons.prems x s by (auto split: prod.splits)
  from assms s have "\<And>t. s = Some t \<Longrightarrow> P t" by blast
  with Cons.IH [OF rest(1)] rest(2) show ?case by (cases s) simp_all
qed simp

text \<open>Every session of a tunnel asks for the exit node's loopback address and the tunnel's port.\<close>

lemma tunnel_targets:
  fixes m :: "'l mux"
  shows "tcp_tunnel b p os es m = Some ((ss, m'), os') \<or> udp_tunnel b p os es m = Some ((ss, m'), os') \<Longrightarrow>
     \<forall>(sid, c, t)\<in>set ss. t = localhost_target (server_port p)"
proof -
  let ?P = "\<lambda>(sid :: u32, c :: nat, t). t = localhost_target (server_port p)"
  have tcp: "\<forall>e m t m' :: 'l mux. tcp_tunnel_round p e m = (Some t, m') \<longrightarrow> ?P t"
    by (auto simp: tcp_tunnel_round_def Let_def split: accept_event.splits if_splits prod.splits)
  then have udp: "\<forall>e m t m' :: 'l mux. udp_tunnel_round p e m = (Some t, m') \<longrightarrow> ?P t"
    by (simp add: udp_tunnel_round_tcp)
  show "tcp_tunnel b p os es m = Some ((ss, m'), os') \<or> udp_tunnel b p os es m = Some ((ss, m'), os') \<Longrightarrow>
     \<forall>(sid, c, t)\<in>set ss. t = localhost_target (server_port p)"
    using accept_loop_all [OF tcp, of es m ss m'] accept_loop_all [OF udp, of es m ss m']
    by (simp add: tcp_tunnel_def udp_tunnel_def split: option.splits) blast
qed

text \<open>A tunnel that ran on the sockets it found is one that \<open>bind\<close> let through.\<close>

lemma tunnel_runs:
  "tcp_tunnel (bind Tcp) p os es m \<noteq> None \<longleftrightarrow> fst (tunnel_binds bind [TcpTunnel p] os) = [TcpTunnel p]"
  "udp_tunnel (bind Udp) p os es m \<noteq> None \<longleftrightarrow> fst (tunnel_binds bind [UdpTunnel p] os) = [UdpTunnel p]"
  by (simp_all add: tcp_tunnel_def udp_tunnel_def split: option.split)

section \<open>Accepting and reconnecting\<close>

lemma accept_refused:
  assumes "\<not> is_connected m"
  shows "accept_round e m = (None, m)" "tcp_tunnel_round p e m = (None, m)" "udp_tunnel_round p e m = (None, m)"
  using assms by (simp_all add: accept_round_def tcp_tunnel_round_def udp_tunnel_round_def split: accept_event.split)

lemma accept_served: "fst (accept_round Accepted m) \<noteq> None \<longleftrightarrow> is_connected m"
  by (simp add: accept_round_def Let_def case_prod_beta)

text \<open>A round of an accept loop is one of the things other tasks do beside the driver.\<close>

lemma accept_round_others:
  assumes "driver_reachable l r"
  shows "driver_reachable l (r\<lparr>dmux := snd (accept_round e (dmux r))\<rparr>)"
proof (rule driver_reachable.others [OF assms])
  let ?m = "snd (accept_round e (dmux r))"
  show "recv_buf ?m = recv_buf (dmux r)" "link_id ?m = link_id (dmux r) \<or> link_id ?m = None"
    by (simp_all add: accept_round_def next_session_id_def register_session_def Let_def split: accept_event.split)
  show "mux_inv ?m" if "mux_inv (dmux r)"
  proof -
    have "mux_inv (snd (register_session sid ((dmux r)\<lparr>next_sid := n\<rparr>)))" for sid n
      using that by (intro mux_inv_register_session) (simp add: mux_inv_def)
    with that show ?thesis
      by (simp add: accept_round_def next_session_id_def Let_def case_prod_beta split: accept_event.split)
  qed
qed

lemma reconnecting_refuses:
  assumes "driver_reachable l r" "phase_delay (phase r) = Some d"
  shows "accept_round e (dmux r) = (None, dmux r)" "tcp_tunnel_round p e (dmux r) = (None, dmux r)"
    and "udp_tunnel_round p e (dmux r) = (None, dmux r)"
proof -
  from reachable_driver_inv [OF assms(1)] assms(2) have "\<not> is_connected (dmux r)"
    by (simp add: driver_inv_def)
  from accept_refused [OF this] show "accept_round e (dmux r) = (None, dmux r)"
    "tcp_tunnel_round p e (dmux r) = (None, dmux r)" "udp_tunnel_round p e (dmux r) = (None, dmux r)"
    by simp_all
qed

text \<open>One listener alone numbers its sessions one after the other.\<close>

lemma accept_round_next_sid:
  "accept_round e m = (spawned, m') \<Longrightarrow>
     (case spawned of Some (sid, c) \<Rightarrow> sid = next_sid m + 1 \<and> next_sid m' = next_sid m + 1
      | None \<Rightarrow> next_sid m' = next_sid m)"
  by (auto simp: accept_round_def next_session_id_def register_session_def Let_def
      split: accept_event.splits if_splits)

lemma accept_loop_ids:
  assumes "\<And>e g m. (e, g) \<in> set es \<Longrightarrow> next_sid (g m) = next_sid m"
    and "accept_loop accept_round es m = (spawned, m')"
  shows "map fst spawned = map (\<lambda>k. next_sid m + of_nat (Suc k)) [0..<length spawned]"
  using assms
proof (induction es arbitrary: m spawned)
  case (Cons x es)
  obtain e g where x: "x = (e, g)" by fastforce
  obtain s m1 where s: "accept_round e (g m) = (s, m1)" by fastforce
  obtain rest where rest: "accept_loop accept_round es m1 = (rest, m')"
    "spawned = (case s of Some t \<Rightarrow> t # rest | None \<Rightarrow> rest)"
    using Cons.prems(2) x s by (auto split: prod.splits)
  have IH: "map fst rest = map (\<lambda>k. next_sid m1 + of_nat (Suc k)) [0..<length rest]"
    using Cons.IH [OF _ rest(1)] Cons.prems(1) by auto
  have g: "next_sid (g m) = next_sid m" using Cons.prems(1) [of e g] x by simp
  note next' = accept_round_next_sid [OF s]
  show ?case
  proof (cases s)
    case None
    with IH next' g rest(2) show ?thesis by simp
  next
    case (Some t)
    with next' g have n: "fst t = next_sid m + 1" "next_sid m1 = next_sid m + 1" by (auto split: prod.splits)
    have "map fst spawned = fst t # map fst rest" using Some rest(2) by simp
    also have "\<dots> = (next_sid m + 1) # map (\<lambda>k. next_sid m + of_nat (Suc (Suc k))) [0..<length rest]"
      unfolding IH n by (simp add: algebra_simps)
    also have "\<dots> = map (\<lambda>k. next_sid m + of_nat (Suc k)) [0..<Suc (length rest)]"
      by (simp only: map_upt_Suc) simp
    finally show ?thesis using Some rest(2) by simp
  qed
qed simp

section \<open>A host to point at\<close>

text \<open>A host whose world is its files and the numbers of the announcements sent.\<close>

definition file_host :: "((path_buf \<rightharpoonup> u8) \<times> nat, u8, bytes) host" where
  "file_host =
     \<lparr>path_exists = (\<lambda>p w. fst w p \<noteq> None), create_dir_all = (\<lambda>p w. Some w),
      load_identity = (\<lambda>p w. fst w p), save_identity = (\<lambda>i p w. Some ((fst w)(p \<mapsto> i), snd w)),
      identity_new = (\<lambda>w. (of_nat (snd w), w)), get_private_key = (\<lambda>i. Some (replicate 64 i)),
      get_public_key = (\<lambda>i. Some (replicate 64 (i + 1))), identity_hash = (\<lambda>i. replicate 16 i),
      from_private_key = hd, single_in = (\<lambda>app aspects h. h), destination_hash = (\<lambda>d. d),
      connect_shared = (\<lambda>w. (True, w)), register_link_destination = (\<lambda>d prv pub n w. (True, w)),
      announce = (\<lambda>d i w. (True, (fst w, Suc (snd w)))), sleep_secs = (\<lambda>n w. w)\<rparr>"

end
