(* ===== verification/Lifecycle.thy ===== *)
theory Lifecycle
  imports Handshake End_To_End
begin

text \<open>
  The whole life of a TCP session at both of its ends: the client task from its CONNECT to the
  end of its relay (\<open>src/client.rs\<close>, \<open>src/forwarding.rs\<close>), the event loop, the handler and the
  relay of the exit node (\<open>src/server.rs\<close>), both directions of the link between them, and
  every other task of both ends. The frames that are ignored, dispatched or answered by the
  event loops are those of the code; nothing is assumed of what arrives when.
\<close>

section \<open>The state\<close>

type_synonym tcp_relay = "(read_result, bytes, unit) relay"

datatype client_task = Opening | Awaiting | ClientRelays tcp_relay | GaveUp "bytes + unit"

datatype 's exit_task = NotRun | ExitRelays nat 's tcp_relay | Refused

text \<open>
  The link is up throughout. For each direction the bytes on the link, and as history the
  frames the sending end handed to its link sender and those the other end put together. The
  event loop of the exit node goes through the latter one by one: \<open>up_done\<close> are those it is done
  with, \<open>own_backlog\<close> those it still holds.
\<close>

record ('l, 's) connection =
  client_mux :: "'l mux"
  client_task :: client_task
  exit_node :: "'l server"
  exit_task :: "'s exit_task"
  up_wire :: "bytes list"
  down_wire :: "bytes list"
  up_acc :: "frame list"
  up_del :: "frame list"
  up_done :: "frame list"
  down_acc :: "frame list"
  down_del :: "frame list"

abbreviation exit_mux :: "nat \<Rightarrow> ('l, 's) connection \<Rightarrow> 'l mux" where
  "exit_mux h s \<equiv> muxes (exit_node s) ! h"

definition own_backlog :: "nat \<Rightarrow> 'l server \<Rightarrow> frame list" where
  "own_backlog h x = map snd (filter (\<lambda>(k, f). k = h) (backlog x))"

text \<open>The frames an end hands to its link sender in a step.\<close>

definition hands_over :: "'l mux \<Rightarrow> frame list \<Rightarrow> 'l mux \<Rightarrow> bool" where
  "hands_over m new m' \<longleftrightarrow> frames_wf new \<and> data_q m' = data_q m @ map encode new"

text \<open>
  What the other tasks of an end may do to a multiplexer: everything but touch the session,
  its channels \<open>cs\<close>, the link, and the work of the link sender and the event loop, which are
  steps of their own.
\<close>

definition foreign :: "u32 \<Rightarrow> nat set \<Rightarrow> 'l mux_op \<Rightarrow> bool" where
  "foreign sid cs x \<longleftrightarrow>
     (case x of
        OpIsConnected \<Rightarrow> True
      | OpNextSid \<Rightarrow> True
      | OpRegister s \<Rightarrow> s \<noteq> sid
      | OpDrop s \<Rightarrow> s \<noteq> sid
      | OpSend t s p \<Rightarrow> s \<noteq> sid \<and> length p < 65536
      | OpDispatch f \<Rightarrow> session_id f \<noteq> sid
      | OpRecv c \<Rightarrow> c \<notin> cs
      | OpLeave c \<Rightarrow> c \<notin> cs
      | _ \<Rightarrow> False)"

definition exit_channels :: "u32 \<Rightarrow> nat \<Rightarrow> 'l server \<Rightarrow> nat set" where
  "exit_channels sid h x = {c. \<exists>addr. SessionTcp h sid addr c \<in> set (tasks x)}"

fun about_link :: "'l \<Rightarrow> ('l, 'd) proxy_event \<Rightarrow> bool" where
  "about_link l (LinkEstablished l' rtt i) \<longleftrightarrow> l' = l"
| "about_link l (LinkClosed l' reason) \<longleftrightarrow> l' = l"
| "about_link l (LinkData l' d) \<longleftrightarrow> l' = l"
| "about_link l PathUpdated \<longleftrightarrow> False"

section \<open>The steps of one end\<close>

text \<open>
  Each end as a relation between its states that names the frames it hands over. \<open>decides\<close> is
  the end of the wait in \<open>handle_tcp_connect\<close> with the success reply to the SOCKS5 client
  written or not, \<open>decides_forward\<close> the end of the wait in \<open>tcp_tunnel\<close>.
\<close>

inductive client_step ::
  "(target_addr \<Rightarrow> bytes \<times> u16) \<Rightarrow> nat \<Rightarrow> u32 \<Rightarrow> nat \<Rightarrow> target_addr
     \<Rightarrow> 'l mux \<times> client_task \<Rightarrow> frame list \<Rightarrow> 'l mux \<times> client_task \<Rightarrow> bool"
  for render :: "target_addr \<Rightarrow> bytes \<times> u16" and mdu :: nat and sid :: u32 and rx :: nat
    and target :: target_addr where
  asks: "connect_tcp_server_side render sid target n = Some m \<Longrightarrow> hands_over n new m \<Longrightarrow>
     client_step render mdu sid rx target (n, Opening) new (m, Awaiting)"
| awaits: "await_reply rx n = (Waiting, m) \<Longrightarrow>
     client_step render mdu sid rx target (n, Awaiting) [] (m, Awaiting)"
| decides: "await_reply rx n = (w, m1) \<Longrightarrow> connect_result timed_out w = Some result \<Longrightarrow>
     handle_socks5_session sid rx (Requested TCPConnect) result bind_ok reply_ok m1 = Some (kind, reply, m) \<Longrightarrow>
     hands_over n new m \<Longrightarrow>
     client_step render mdu sid rx target (n, Awaiting) new
       (m, if kind = None then GaveUp result else ClientRelays (relay_start ()))"
| decides_forward: "await_reply rx n = (w, m1) \<Longrightarrow> connect_result timed_out w = Some result \<Longrightarrow>
     tunnel_session RelayTcp rx result m1 = (kind, m) \<Longrightarrow>
     client_step render mdu sid rx target (n, Awaiting) []
       (m, if kind = None then GaveUp result else ClientRelays (relay_start ()))"
| relays: "relay_bidirectional_tcp sid rx (n, r) (m, r') \<Longrightarrow> hands_over n new m \<Longrightarrow>
     client_step render mdu sid rx target (n, ClientRelays r) new (m, ClientRelays r')"
| others: "foreign sid {rx} x \<Longrightarrow> snd (mux_step mdu x n) = m \<Longrightarrow> hands_over n new m \<Longrightarrow>
     client_step render mdu sid rx target (n, t) new (m, t)"

text \<open>
  The event loop takes an event of another link when it has done with the last one, and goes on
  with the frames of another link. The multiplexers of other links belong to their tasks and
  link senders.
\<close>

inductive exit_step ::
  "(target_addr \<Rightarrow> target_addr option) \<Rightarrow> (socket_addr \<Rightarrow> bytes + 's) \<Rightarrow> filter_config \<Rightarrow> nat \<Rightarrow> u32
     \<Rightarrow> 'l \<Rightarrow> nat \<Rightarrow> 'l server \<times> 's exit_task \<Rightarrow> frame list \<Rightarrow> 'l server \<times> 's exit_task \<Rightarrow> bool"
  for resolve :: "target_addr \<Rightarrow> target_addr option" and connect :: "socket_addr \<Rightarrow> bytes + 's"
    and cfg :: filter_config and mdu :: nat and sid :: u32 and l :: 'l and h :: nat where
  handles_event: "\<not> about_link l (e :: ('l, unit) proxy_event) \<Longrightarrow> server_event e x = Some x' \<Longrightarrow>
     exit_step resolve connect cfg mdu sid l h (x, t) [] (x', t)"
| resumes_other: "backlog x = (k, f) # rest \<Longrightarrow> k \<noteq> h \<Longrightarrow> server_resume x = Some x' \<Longrightarrow>
     exit_step resolve connect cfg mdu sid l h (x, t) [] (x', t)"
| other_links: "k \<noteq> h \<Longrightarrow>
     exit_step resolve connect cfg mdu sid l h (x, t) []
       (update_mux k (snd (mux_step mdu op (muxes x ! k))) x, t)"
| handles_session: "SessionTcp h sid addr c \<in> set (tasks x) \<Longrightarrow>
     handle_server_session_tcp resolve connect sid addr c cfg (muxes x ! h) = Some (out, m) \<Longrightarrow>
     hands_over (muxes x ! h) new m \<Longrightarrow>
     exit_step resolve connect cfg mdu sid l h (x, NotRun) new
       (update_mux h m x, case out of Some stream \<Rightarrow> ExitRelays c stream (relay_start ()) | None \<Rightarrow> Refused)"
| relays: "relay_bidirectional_tcp sid c (muxes x ! h, r) (m, r') \<Longrightarrow> hands_over (muxes x ! h) new m \<Longrightarrow>
     exit_step resolve connect cfg mdu sid l h (x, ExitRelays c stream r) new
       (update_mux h m x, ExitRelays c stream r')"
| others: "foreign sid (exit_channels sid h x) op \<Longrightarrow> snd (mux_step mdu op (muxes x ! h)) = m \<Longrightarrow>
     hands_over (muxes x ! h) new m \<Longrightarrow>
     exit_step resolve connect cfg mdu sid l h (x, t) new (update_mux h m x, t)"

section \<open>The steps of both ends and the link\<close>

inductive connection_step ::
  "(target_addr \<Rightarrow> target_addr option) \<Rightarrow> (socket_addr \<Rightarrow> bytes + 's) \<Rightarrow> filter_config
     \<Rightarrow> (target_addr \<Rightarrow> bytes \<times> u16) \<Rightarrow> nat \<Rightarrow> u32 \<Rightarrow> nat \<Rightarrow> 'l \<Rightarrow> nat \<Rightarrow> target_addr
     \<Rightarrow> ('l, 's) connection \<Rightarrow> ('l, 's) connection \<Rightarrow> bool"
  for resolve :: "target_addr \<Rightarrow> target_addr option" and connect :: "socket_addr \<Rightarrow> bytes + 's"
    and cfg :: filter_config and render :: "target_addr \<Rightarrow> bytes \<times> u16" and mdu :: nat and sid :: u32
    and rx :: nat and l :: 'l and h :: nat and target :: target_addr where
  client: "client_step render mdu sid rx target (client_mux s, client_task s) new (m, t) \<Longrightarrow>
     connection_step resolve connect cfg render mdu sid rx l h target s
       (s\<lparr>client_mux := m, up_acc := up_acc s @ new, client_task := t\<rparr>)"
| client_takes: "sender (client_mux s) = None \<Longrightarrow> data_q (client_mux s) \<noteq> [] \<Longrightarrow>
     connection_step resolve connect cfg render mdu sid rx l h target s
       (s\<lparr>client_mux := sender_recv mdu (client_mux s)\<rparr>)"
| client_chunk: "sender (client_mux s) \<noteq> None \<Longrightarrow>
     sender_chunk wire_send (up_wire s, client_mux s) = (w, m) \<Longrightarrow>
     connection_step resolve connect cfg render mdu sid rx l h target s (s\<lparr>client_mux := m, up_wire := w\<rparr>)"
| client_data: "down_wire s = d # w \<Longrightarrow> receive_data d (client_mux s) = (fs, m) \<Longrightarrow>
     connection_step resolve connect cfg render mdu sid rx l h target s
       (s\<lparr>client_mux := fold dispatch fs m, down_wire := w, down_del := down_del s @ fs\<rparr>)"
| exit: "exit_step resolve connect cfg mdu sid l h (exit_node s, exit_task s) new (x, t) \<Longrightarrow>
     connection_step resolve connect cfg render mdu sid rx l h target s
       (s\<lparr>exit_node := x, down_acc := down_acc s @ new, exit_task := t\<rparr>)"
| exit_takes: "sender (exit_mux h s) = None \<Longrightarrow> data_q (exit_mux h s) \<noteq> [] \<Longrightarrow>
     connection_step resolve connect cfg render mdu sid rx l h target s
       (s\<lparr>exit_node := update_mux h (sender_recv mdu (exit_mux h s)) (exit_node s)\<rparr>)"
| exit_chunk: "sender (exit_mux h s) \<noteq> None \<Longrightarrow>
     sender_chunk wire_send (down_wire s, exit_mux h s) = (w, m) \<Longrightarrow>
     connection_step resolve connect cfg render mdu sid rx l h target s
       (s\<lparr>exit_node := update_mux h m (exit_node s), down_wire := w\<rparr>)"
| exit_data: "up_wire s = d # w \<Longrightarrow> receive_data d (exit_mux h s) = (fs, m) \<Longrightarrow>
     server_event (LinkData l d :: ('l, unit) proxy_event) (exit_node s) = Some x \<Longrightarrow>
     connection_step resolve connect cfg render mdu sid rx l h target s
       (s\<lparr>exit_node := x, up_wire := w, up_del := up_del s @ fs\<rparr>)"
| exit_resumes: "backlog (exit_node s) = (h, f) # rest \<Longrightarrow> server_resume (exit_node s) = Some x \<Longrightarrow>
     hands_over (exit_mux h s) new (muxes x ! h) \<Longrightarrow>
     connection_step resolve connect cfg render mdu sid rx l h target s
       (s\<lparr>exit_node := x, up_done := up_done s @ [f], down_acc := down_acc s @ new\<rparr>)"

text \<open>The steps that name a state of the tasks.\<close>

lemma connects:
  assumes "client_task s = Opening" "connect_tcp_server_side render sid target (client_mux s) = Some m"
    and "hands_over (client_mux s) new m"
  shows "connection_step resolve connect cfg render mdu sid rx l h target s
    (s\<lparr>client_mux := m, up_acc := up_acc s @ new, client_task := Awaiting\<rparr>)"
  by (rule client) (use asks [OF assms(2,3)] assms(1) in simp)

lemma client_decides:
  assumes "client_task s = Awaiting" "await_reply rx (client_mux s) = (w, m1)" "connect_result timed_out w = Some result"
    and "handle_socks5_session sid rx (Requested TCPConnect) result bind_ok reply_ok m1 = Some (kind, reply, m)"
    and "hands_over (client_mux s) new m"
  shows "connection_step resolve connect cfg render mdu sid rx l h target s
    (s\<lparr>client_mux := m, up_acc := up_acc s @ new,
       client_task := (if kind = None then GaveUp result else ClientRelays (relay_start ()))\<rparr>)"
  by (rule client) (use decides [OF assms(2-5)] assms(1) in simp)

lemma client_relay:
  assumes "client_task s = ClientRelays r" "relay_bidirectional_tcp sid rx (client_mux s, r) (m, r')"
    and "hands_over (client_mux s) new m"
  shows "connection_step resolve connect cfg render mdu sid rx l h target s
    (s\<lparr>client_mux := m, up_acc := up_acc s @ new, client_task := ClientRelays r'\<rparr>)"
  by (rule client) (use client_step.relays [OF assms(2,3)] assms(1) in simp)

lemma exit_handler:
  assumes "exit_task s = NotRun" "SessionTcp h sid addr c \<in> set (tasks (exit_node s))"
    and "handle_server_session_tcp resolve connect sid addr c cfg (exit_mux h s) = Some (out, m)"
    and "hands_over (exit_mux h s) new m"
  shows "connection_step resolve connect cfg render mdu sid rx l h target s
    (s\<lparr>exit_node := update_mux h m (exit_node s), down_acc := down_acc s @ new,
       exit_task := (case out of Some stream \<Rightarrow> ExitRelays c stream (relay_start ()) | None \<Rightarrow> Refused)\<rparr>)"
  by (rule exit) (use handles_session [OF assms(2-4)] assms(1) in simp)

lemma exit_relay:
  assumes "exit_task s = ExitRelays c stream r" "relay_bidirectional_tcp sid c (exit_mux h s, r) (m, r')"
    and "hands_over (exit_mux h s) new m"
  shows "connection_step resolve connect cfg render mdu sid rx l h target s
    (s\<lparr>exit_node := update_mux h m (exit_node s), down_acc := down_acc s @ new, exit_task := ExitRelays c stream r'\<rparr>)"
  by (rule exit) (use exit_step.relays [OF assms(2,3)] assms(1) in simp)

text \<open>
  The start: the accept loop has registered the session with a fresh id, the link is in use by
  other sessions, the event loop anywhere in their frames, and neither end has anything of this
  one.
\<close>

definition up_tun :: "nat \<Rightarrow> ('l, 's) connection \<Rightarrow> 'l tunnel" where
  "up_tun h s =
     \<lparr>near = client_mux s, wire = up_wire s, far = exit_mux h s, accepted = up_acc s,
      delivered = up_del s, taken = []\<rparr>"

definition down_tun :: "nat \<Rightarrow> ('l, 's) connection \<Rightarrow> 'l tunnel" where
  "down_tun h s =
     \<lparr>near = exit_mux h s, wire = down_wire s, far = client_mux s, accepted = down_acc s,
      delivered = down_del s, taken = []\<rparr>"

definition connection_start :: "u32 \<Rightarrow> nat \<Rightarrow> 'l \<Rightarrow> nat \<Rightarrow> ('l, 's) connection \<Rightarrow> bool" where
  "connection_start sid rx l h s \<longleftrightarrow>
     client_task s = Opening \<and> exit_task s = NotRun \<and>
     mux_inv (client_mux s) \<and> sessions (client_mux s) sid = Some rx \<and> mailbox (client_mux s) sid = Some [] \<and>
     server_inv (exit_node s) \<and> link_muxes (exit_node s) l = Some h \<and>
     exit_channels sid h (exit_node s) = {} \<and>
     tunnel_inv (up_tun h s) \<and> tunnel_inv (down_tun h s) \<and>
     up_done s @ own_backlog h (exit_node s) = up_del s \<and>
     of_session sid (up_acc s) = [] \<and> of_session sid (down_acc s) = []"


section \<open>What an end hands over\<close>

definition quiet :: "'l mux \<Rightarrow> 'l mux \<Rightarrow> bool" where
  "quiet m m' \<longleftrightarrow> sender m' = sender m \<and> link_id m' = link_id m \<and> recv_buf m' = recv_buf m"

lemma map_encode_inj: "frames_wf fs \<Longrightarrow> frames_wf gs \<Longrightarrow> map encode fs = map encode gs \<Longrightarrow> fs = gs"
proof (induction fs arbitrary: gs)
  case (Cons f fs)
  then obtain g gs' where gs: "gs = g # gs'" "encode f = encode g" "map encode fs = map encode gs'" by auto
  from gs(1) Cons.prems(1,2) have wf: "frame_wf f" "frame_wf g" "frames_wf fs" "frames_wf gs'" by simp_all
  from frames.enc_prefix_free [OF wf(1,2), of "[]" "[]"] gs(2) have "f = g" by simp
  with Cons.IH [OF wf(3,4) gs(3)] gs(1) show ?case by simp
qed simp

lemma hands_over_unique: "hands_over m new m' \<Longrightarrow> hands_over m new' m' \<Longrightarrow> new = new'"
  unfolding hands_over_def by (metis map_encode_inj same_append_eq)

lemma hands_over_nothing: "hands_over m new m' \<Longrightarrow> data_q m' = data_q m \<Longrightarrow> new = []"
  by (simp add: hands_over_def)

text \<open>Both directions of the link under a step of the client, and of the exit node.\<close>

lemma tun_simps [simp]:
  "near (up_tun h s) = client_mux s" "far (up_tun h s) = exit_mux h s" "wire (up_tun h s) = up_wire s"
  "accepted (up_tun h s) = up_acc s" "delivered (up_tun h s) = up_del s"
  "near (down_tun h s) = exit_mux h s" "far (down_tun h s) = client_mux s" "wire (down_tun h s) = down_wire s"
  "accepted (down_tun h s) = down_acc s" "delivered (down_tun h s) = down_del s"
  by (simp_all add: up_tun_def down_tun_def)

lemma links_client:
  assumes "tunnel_inv (up_tun h s)" "tunnel_inv (down_tun h s)" "hands_over (client_mux s) new m" "quiet (client_mux s) m"
  shows "tunnel_inv ((up_tun h s)\<lparr>near := m, accepted := up_acc s @ new\<rparr>)" "tunnel_inv ((down_tun h s)\<lparr>far := m\<rparr>)"
proof -
  from assms(3,4) have m: "data_q m = data_q (client_mux s) @ map encode new" "frames_wf new"
    "sender m = sender (client_mux s)" "link_id m = link_id (client_mux s)" "recv_buf m = recv_buf (client_mux s)"
    by (simp_all add: hands_over_def quiet_def)
  from tunnel_inv_near [OF assms(1), of m new] m show "tunnel_inv ((up_tun h s)\<lparr>near := m, accepted := up_acc s @ new\<rparr>)"
    by simp
  from tunnel_inv_far [OF assms(2), of m] m(5) show "tunnel_inv ((down_tun h s)\<lparr>far := m\<rparr>)" by simp
qed

lemma links_exit:
  assumes "tunnel_inv (up_tun h s)" "tunnel_inv (down_tun h s)" "hands_over (exit_mux h s) new m" "quiet (exit_mux h s) m"
  shows "tunnel_inv ((down_tun h s)\<lparr>near := m, accepted := down_acc s @ new\<rparr>)" "tunnel_inv ((up_tun h s)\<lparr>far := m\<rparr>)"
proof -
  from assms(3,4) have m: "data_q m = data_q (exit_mux h s) @ map encode new" "frames_wf new"
    "sender m = sender (exit_mux h s)" "link_id m = link_id (exit_mux h s)" "recv_buf m = recv_buf (exit_mux h s)"
    by (simp_all add: hands_over_def quiet_def)
  from tunnel_inv_near [OF assms(2), of m new] m show "tunnel_inv ((down_tun h s)\<lparr>near := m, accepted := down_acc s @ new\<rparr>)"
    by simp
  from tunnel_inv_far [OF assms(1), of m] m(5) show "tunnel_inv ((up_tun h s)\<lparr>far := m\<rparr>)" by simp
qed

section \<open>What the operations hand over\<close>

lemma foreign_step:
  assumes "foreign sid cs x" "mux_inv m" and m'_def: "snd (mux_step mdu x m) = m'"
  shows "quiet m m'" "mux_inv m'" "\<exists>new. hands_over m new m' \<and> of_session sid new = []"
    and "c \<in> cs \<Longrightarrow> \<not> concerns sid c x"
proof -
  show "mux_inv m'" unfolding m'_def [symmetric] by (rule mux_step_inv [OF assms(2)])
  show "quiet m m'" using assms(1) unfolding m'_def [symmetric] quiet_def
    by (cases x) (auto simp: foreign_def next_session_id_def register_session_def drop_session_def send_def
        send_frame_def dispatch_def recv_def drop_receiver_def Let_def split: option.split list.split)
  show "c \<in> cs \<Longrightarrow> \<not> concerns sid c x" using assms(1)
    by (cases x) (auto simp: foreign_def concerns_def)
  show "\<exists>new. hands_over m new m' \<and> of_session sid new = []"
  proof (cases "\<exists>t i p. x = OpSend t i p")
    case True
    then obtain t i p where x: "x = OpSend t i p" by blast
    with assms(1) have "i \<noteq> sid" "frame_wf (frame_new t i p)" by (simp_all add: foreign_def frame_wf_def)
    with x show ?thesis unfolding m'_def [symmetric]
      by (cases "length (data_q m) < SENDER_CAPACITY")
        (auto simp: hands_over_def send_def send_frame_def intro: exI [of _ "[frame_new t i p]"] exI [of _ "[]"])
  next
    case False
    then have "data_q m' = data_q m" using assms(1) unfolding m'_def [symmetric]
      by (cases x) (auto simp: foreign_def next_session_id_def register_session_def drop_session_def
          dispatch_def recv_def drop_receiver_def Let_def split: option.split list.split)
    then show ?thesis by (intro exI [of _ "[]"]) (simp add: hands_over_def)
  qed
qed

lemma relay_hands_over:
  assumes "relay_bidirectional_tcp sid c (m, r) (m', r')" "near_ok sid (tcp_frame sid) r"
  shows "quiet m m'" "hands_over m (drop (length (sent r)) (sent r')) m'"
    and "sent r' = sent r @ drop (length (sent r)) (sent r')"
    and "of_session sid (drop (length (sent r)) (sent r')) = drop (length (sent r)) (sent r')"
proof -
  note step = assms(1) [unfolded relay_bidirectional_tcp_def]
  from relay_step_mux [OF step] obtain new where new: "sent r' = sent r @ new" "data_q m' = data_q m @ map encode new"
    "sender m' = sender m" "link_id m' = link_id m" "recv_buf m' = recv_buf m" by blast
  then have drop: "drop (length (sent r)) (sent r') = new" by simp
  from near_ok_step [OF step tcp_makes_frames assms(2)] new(1)
  have "frames_wf new" "of_session sid new = new" by (auto simp: near_ok_def filter_id_conv)
  with new drop show "quiet m m'" "hands_over m (drop (length (sent r)) (sent r')) m'"
    "sent r' = sent r @ drop (length (sent r)) (sent r')"
    "of_session sid (drop (length (sent r)) (sent r')) = drop (length (sent r)) (sent r')"
    by (simp_all add: quiet_def hands_over_def)
qed

section \<open>The event loop of the exit node and the session\<close>

definition session_frames :: "frame \<Rightarrow> frame list \<Rightarrow> bool" where
  "session_frames con fs \<longleftrightarrow>
     (case fs of [] \<Rightarrow> True | f # gs \<Rightarrow> f = con \<and> (\<forall>g\<in>set gs. is_data g \<or> is_close g))"

lemma session_frames_prefix: "session_frames con fs \<Longrightarrow> prefix gs fs \<Longrightarrow> session_frames con gs"
  by (auto simp: session_frames_def prefix_def split: list.splits)

definition opens_tcp :: "u32 \<Rightarrow> target_addr \<Rightarrow> frame \<Rightarrow> bool" where
  "opens_tcp sid addr con \<longleftrightarrow>
     frame_type con = Connect \<and> session_id con = sid \<and>
     (\<exists>host port. addr = Domain host port \<and> decode_connect_payload (payload con) = Some (host, port, False))"

text \<open>What the tasks of the exit node hear of the session, \<open>d\<close> being the frames that arrived.\<close>

definition exit_pending ::
  "u32 \<Rightarrow> nat \<Rightarrow> target_addr \<Rightarrow> frame \<Rightarrow> frame list \<Rightarrow> 'l server \<Rightarrow> bool" where
  "exit_pending sid h addr con d x \<longleftrightarrow>
     (\<exists>c rest. d = con # rest \<and> (\<forall>a k. SessionTcp h sid a k \<in> set (tasks x) \<longleftrightarrow> a = addr \<and> k = c) \<and>
        far_ok sid c rest (muxes x ! h) (relay_start () :: tcp_relay))"

fun exit_hears ::
  "u32 \<Rightarrow> nat \<Rightarrow> target_addr \<Rightarrow> frame \<Rightarrow> 's exit_task \<Rightarrow> frame list \<Rightarrow> 'l server \<Rightarrow> bool" where
  "exit_hears sid h addr con NotRun d x \<longleftrightarrow>
     d = [] \<and> exit_channels sid h x = {} \<or> exit_pending sid h addr con d x"
| "exit_hears sid h addr con (ExitRelays c stream r) d x \<longleftrightarrow>
     SessionTcp h sid addr c \<in> set (tasks x) \<and> (\<exists>rest. d = con # rest \<and> far_ok sid c rest (muxes x ! h) r)"
| "exit_hears sid h addr con Refused d x \<longleftrightarrow> (\<exists>rest. d = con # rest)"

lemma server_frame_other:
  assumes "server_frame h f x = Some x'" "h < length (muxes x)" "session_id f = sid \<Longrightarrow> is_data f \<or> is_close f"
  shows "handles mdu sid c [f] (muxes x ! h) (muxes x' ! h)"
    and "SessionTcp h sid a k \<in> set (tasks x') \<longleftrightarrow> SessionTcp h sid a k \<in> set (tasks x)"
proof -
  let ?m = "muxes x ! h"
  have other: "handles mdu sid c [f] ?m m'" if "session_id f \<noteq> sid" "\<not> concerns sid c y" "\<forall>d. y \<noteq> OpReceive d"
    "snd (mux_step mdu y ?m) = m'" for y m'
    using other_frame [OF that(1-3), of mdu "[]" ?m m'] that(4) by (simp add: no_frame)
  have disp: "handles mdu sid c [f] ?m (dispatch f ?m)" by (intro dispatched no_frame)
  have idle: "handles mdu sid c [f] ?m ?m" if "session_id f \<noteq> sid"
    by (rule other [OF that, of OpIsConnected]) (simp_all add: concerns_def)
  have reg: "handles mdu sid c [f] ?m (snd (register_session (session_id f) ?m))" if "session_id f \<noteq> sid"
    by (rule other [OF that, of "OpRegister (session_id f)"]) (simp_all add: concerns_def that case_prod_beta)
  have err: "handles mdu sid c [f] ?m m'" if "session_id f \<noteq> sid" "send ConnectErr (session_id f) p ?m = Some m'" for p m'
    by (rule other [OF that(1), of "OpSend ConnectErr (session_id f) p"]) (simp_all add: concerns_def that)
  show "handles mdu sid c [f] (muxes x ! h) (muxes x' ! h)"
    using assms disp idle reg err
    by (cases "session_id f = sid")
      (auto simp: server_frame_def Let_def is_data_def is_close_def case_prod_beta split: frame_type.splits option.splits)
  show "SessionTcp h sid a k \<in> set (tasks x') \<longleftrightarrow> SessionTcp h sid a k \<in> set (tasks x)"
    using assms(1,3)
    by (auto simp: server_frame_def Let_def is_data_def is_close_def case_prod_beta
        split: frame_type.splits option.splits if_splits)
qed

lemma handles_trans: "handles mdu sid c fs m m1 \<Longrightarrow> handles mdu sid c gs m1 m' \<Longrightarrow> handles mdu sid c (fs @ gs) m m'"
  by (induction rule: handles.induct) (auto intro: handles.intros)

lemma server_frames_other:
  assumes "server_frames h fs x = Some x'" "h < length (muxes x)"
    and "\<forall>f\<in>set fs. session_id f = sid \<longrightarrow> is_data f \<or> is_close f"
  shows "handles mdu sid c fs (muxes x ! h) (muxes x' ! h)"
    and "SessionTcp h sid a k \<in> set (tasks x') \<longleftrightarrow> SessionTcp h sid a k \<in> set (tasks x)"
proof -
  have "handles mdu sid c fs (muxes x ! h) (muxes x' ! h) \<and>
      (SessionTcp h sid a k \<in> set (tasks x') \<longleftrightarrow> SessionTcp h sid a k \<in> set (tasks x))"
    using assms
  proof (induction fs arbitrary: x)
    case (Cons f fs)
    then obtain x1 where x1: "server_frame h f x = Some x1" "server_frames h fs x1 = Some x'"
      by (auto split: option.splits)
    have len: "h < length (muxes x1)" using server_frame_only_mux [OF x1(1)] Cons.prems(2) by (simp add: only_mux_def)
    from server_frame_other [OF x1(1) Cons.prems(2), of sid] Cons.prems(3)
      Cons.IH [OF x1(2) len] handles_trans [of mdu sid c "[f]" "muxes x ! h" "muxes x1 ! h" fs "muxes x' ! h"]
    show ?case by simp
  qed (simp add: no_frame)
  then show "handles mdu sid c fs (muxes x ! h) (muxes x' ! h)"
    "SessionTcp h sid a k \<in> set (tasks x') \<longleftrightarrow> SessionTcp h sid a k \<in> set (tasks x)" by simp_all
qed

lemma server_frames_one: "server_frames h [f] x = server_frame h f x"
  by (simp split: option.split)

lemma server_frames_append:
  "server_frames h (fs @ gs) x = Some x' \<longleftrightarrow> (\<exists>y. server_frames h fs x = Some y \<and> server_frames h gs y = Some x')"
  by (induction fs arbitrary: x) (auto split: option.split)


text \<open>What the event loop itself sends: the answers to CONNECT frames it cannot read.\<close>

lemma server_frames_quiet:
  assumes "server_frames h fs x = Some x'" "h < length (muxes x)"
  shows "quiet (muxes x ! h) (muxes x' ! h)"
    and "\<exists>new. hands_over (muxes x ! h) new (muxes x' ! h) \<and>
      (\<forall>g\<in>set new. \<exists>f\<in>set fs. session_id g = session_id f \<and> frame_type f = Connect \<and>
        decode_connect_payload (payload f) = None)"
proof -
  let ?told = "\<lambda>fs new. \<forall>g\<in>set new. \<exists>f\<in>set fs. session_id g = session_id f \<and> frame_type f = Connect \<and>
    decode_connect_payload (payload f) = None"
  have "quiet (muxes x ! h) (muxes x' ! h) \<and> (\<exists>new. hands_over (muxes x ! h) new (muxes x' ! h) \<and> ?told fs new)"
    using assms
  proof (induction fs arbitrary: x)
    case Nil
    then show ?case by (auto simp: quiet_def hands_over_def intro: exI [of _ "[]"])
  next
    case (Cons f fs)
    then obtain x1 where x1: "server_frame h f x = Some x1" "server_frames h fs x1 = Some x'"
      by (auto split: option.splits)
    have len: "h < length (muxes x1)" using server_frame_only_mux [OF x1(1)] Cons.prems(2) by (simp add: only_mux_def)
    have q: "quiet (muxes x ! h) (muxes x1 ! h)"
      using x1(1) Cons.prems(2)
      by (auto simp: server_frame_def Let_def case_prod_beta quiet_def register_session_def dispatch_def
          send_def send_frame_def split: frame_type.splits option.splits if_splits)
    have "\<exists>new. hands_over (muxes x ! h) new (muxes x1 ! h) \<and> ?told [f] new"
    proof (cases "frame_type f = Connect \<and> decode_connect_payload (payload f) = None")
      case True
      let ?g = "frame_new ConnectErr (session_id f) (str_bytes ''invalid payload'')"
      from True x1(1) obtain m where m: "send ConnectErr (session_id f) (str_bytes ''invalid payload'') (muxes x ! h) = Some m"
        "x1 = update_mux h m x" by (auto simp: server_frame_def Let_def split: option.splits)
      have "frame_wf ?g" by (simp add: frame_wf_def str_bytes_def)
      with True m Cons.prems(2) show ?thesis
        by (intro exI [of _ "[?g]"]) (simp add: hands_over_def send_queue)
    next
      case False
      with x1(1) Cons.prems(2) have "data_q (muxes x1 ! h) = data_q (muxes x ! h)"
        by (auto simp: server_frame_def Let_def case_prod_beta register_session_def dispatch_def
            split: frame_type.splits option.splits)
      then show ?thesis by (intro exI [of _ "[]"]) (simp add: hands_over_def)
    qed
    then obtain n1 where n1: "hands_over (muxes x ! h) n1 (muxes x1 ! h)" "?told [f] n1" by blast
    from Cons.IH [OF x1(2) len] obtain n2 where n2: "hands_over (muxes x1 ! h) n2 (muxes x' ! h)" "?told fs n2"
      and q2: "quiet (muxes x1 ! h) (muxes x' ! h)" by blast
    have "hands_over (muxes x ! h) (n1 @ n2) (muxes x' ! h)" using n1(1) n2(1) by (auto simp: hands_over_def)
    moreover have "?told (f # fs) (n1 @ n2)" using n1(2) n2(2) by auto
    moreover have "quiet (muxes x ! h) (muxes x' ! h)" using q q2 by (simp add: quiet_def)
    ultimately show ?case by blast
  qed
  then show "quiet (muxes x ! h) (muxes x' ! h)"
    "\<exists>new. hands_over (muxes x ! h) new (muxes x' ! h) \<and> ?told fs new" by simp_all
qed

section \<open>The frames that arrive\<close>

text \<open>A session that is open: its frames reach its channel.\<close>

lemma exit_hears_open:
  assumes "server_frames h fs x = Some x'" "h < length (muxes x)"
    and "\<forall>f\<in>set fs. session_id f = sid \<longrightarrow> is_data f \<or> is_close f"
    and "exit_hears sid h addr con task d x" "d \<noteq> []"
  shows "exit_hears sid h addr con task (d @ of_session sid fs) x'"
proof -
  note ok = server_frames_other [OF assms(1-3)]
  note far = far_ok_handles [OF ok(1) [of 1]]
  show ?thesis
  proof (cases task)
    case NotRun
    with assms(4,5) have "exit_pending sid h addr con d x" by simp
    then obtain c rest where "d = con # rest" "\<forall>a k. SessionTcp h sid a k \<in> set (tasks x) \<longleftrightarrow> a = addr \<and> k = c"
      "far_ok sid c rest (muxes x ! h) (relay_start () :: tcp_relay)" by (auto simp: exit_pending_def)
    with ok(2) far [OF this(3)] have "exit_pending sid h addr con (d @ of_session sid fs) x'"
      unfolding exit_pending_def by (intro exI [of _ c] exI [of _ "rest @ of_session sid fs"]) simp
    with NotRun show ?thesis by simp
  next
    case (ExitRelays c stream r)
    with assms(4) obtain rest where rest: "d = con # rest" "far_ok sid c rest (muxes x ! h) r"
      "SessionTcp h sid addr c \<in> set (tasks x)" by auto
    from far [OF rest(2)] rest(1,3) ok(2) ExitRelays show ?thesis by simp
  next
    case Refused
    with assms(4) show ?thesis by auto
  qed
qed

text \<open>A session that is not: until its CONNECT nothing of it arrives, then it is open.\<close>

lemma exit_hears_closed:
  assumes "server_frames h fs x = Some x'" "h < length (muxes x)" "mux_inv (muxes x ! h)"
    and "session_frames con (of_session sid fs)" "opens_tcp sid addr con" "exit_channels sid h x = {}"
  shows "exit_hears sid h addr con NotRun (of_session sid fs) x'"
proof (cases "of_session sid fs")
  case Nil
  then have "\<forall>f\<in>set fs. session_id f = sid \<longrightarrow> is_data f \<or> is_close f" by (auto simp: filter_empty_conv)
  from server_frames_other(2) [OF assms(1,2) this] assms(6) Nil show ?thesis
    by (simp add: exit_channels_def)
next
  case (Cons f rest)
  with assms(4) have rest: "of_session sid fs = con # rest" "\<forall>g\<in>set rest. is_data g \<or> is_close g"
    by (simp_all add: session_frames_def)
  from rest(1) obtain pre post where fs: "fs = pre @ con # post" "\<forall>g\<in>set pre. session_id g \<noteq> sid"
    "rest = of_session sid post" by (auto simp: filter_eq_Cons_iff)
  from assms(5) obtain host port where con: "frame_type con = Connect" "session_id con = sid" "addr = Domain host port"
    "decode_connect_payload (payload con) = Some (host, port, False)" by (auto simp: opens_tcp_def)
  from assms(1) fs(1) obtain x1 x2 where x: "server_frames h pre x = Some x1" "server_frame h con x1 = Some x2"
    "server_frames h post x2 = Some x'" by (auto simp: server_frames_append split: option.splits)
  have pre: "\<forall>f\<in>set pre. session_id f = sid \<longrightarrow> is_data f \<or> is_close f" using fs(2) by blast
  have post: "\<forall>f\<in>set post. session_id f = sid \<longrightarrow> is_data f \<or> is_close f" using rest(2) fs(3) by auto
  have len1: "h < length (muxes x1)" using server_frames_only_mux [OF x(1)] assms(2) by (simp add: only_mux_def)
  have inv1: "mux_inv (muxes x1 ! h)" by (rule server_frames_mux_inv [OF x(1) assms(3)])
  have none: "SessionTcp h sid a k \<notin> set (tasks x1)" for a k
    using server_frames_other(2) [OF x(1) assms(2) pre] assms(6) by (auto simp: exit_channels_def)
  let ?m = "register sid (muxes x1 ! h)" and ?c = "length (chans (muxes x1 ! h))"
  from server_frame_connect [OF con(1,4), of h x1] x(2) con(2,3)
  have x2: "muxes x2 = (muxes x1)[h := ?m]" "tasks x2 = tasks x1 @ [SessionTcp h sid addr ?c]" by auto
  have "sessions ?m sid = Some ?c" by (simp add: register_def register_session_def)
  with inv1 have "far_ok sid ?c [] ?m (relay_start () :: tcp_relay)"
    by (intro far_ok_begin) (simp_all add: table.inv_register table.mailbox_register)
  with x2 none len1 have "exit_pending sid h addr con [con] x2" by (auto simp: exit_pending_def)
  then have "exit_hears sid h addr con NotRun [con] x2" by simp
  from exit_hears_open [OF x(3) _ post this] x2(1) len1 rest(1) fs(3) show ?thesis by simp
qed

end
