(* ===== verification/Lifecycle_Client.thy ===== *)
theory Lifecycle_Client
  imports Lifecycle
begin

text \<open>
  The client's end of a TCP session on its own: what its task has handed over and what it has
  heard, while the link is up and after \<open>reset\<close> has closed the session's channel.
\<close>

section \<open>A relay between its steps\<close>

definition tcp_ok :: "u32 \<Rightarrow> tcp_relay \<Rightarrow> bool" where
  "tcp_ok sid r \<longleftrightarrow> near_ok sid (tcp_frame sid) r \<and> tcp_inv sid r"

lemma tcp_ok_start: "tcp_ok sid (relay_start ())"
  by (simp add: tcp_ok_def near_ok_start tcp_inv_start)

lemma tcp_ok_step:
  assumes "relay_bidirectional_tcp sid c (m, r) (m', r')" "tcp_ok sid r"
  shows "tcp_ok sid r'"
  using assms(2) tcp_inv_step [OF assms(1)]
    near_ok_step [OF assms(1) [unfolded relay_bidirectional_tcp_def] tcp_makes_frames]
  by (simp add: tcp_ok_def)

lemma tcp_okD:
  assumes "tcp_ok sid r"
  shows "own_frames sid r" "tcp_written r" "stage r = Relaying \<Longrightarrow> down r"
    and "down r \<Longrightarrow> \<forall>f\<in>set (handled r). \<not> is_close f"
    and "down r \<Longrightarrow> written r = map payload (filter is_data (handled r))"
  using assms by (auto simp: tcp_ok_def dest: tcp_invD)

section \<open>What a task hears\<close>

text \<open>After \<open>reset\<close> the channel has no sender: what is queued is a front part of what came.\<close>

definition far_cut :: "u32 \<Rightarrow> nat \<Rightarrow> frame list \<Rightarrow> 'l mux \<Rightarrow> tcp_relay \<Rightarrow> bool" where
  "far_cut sid c d m r \<longleftrightarrow>
     mux_inv m \<and> prefix (handled r @ failed r) d \<and>
     (down r \<longrightarrow> failed r = [] \<and> feeds m sid c \<and> \<not> tx_alive (chans m ! c) \<and>
        prefix (handled r @ cq (chans m ! c)) d)"

definition hears :: "bool \<Rightarrow> u32 \<Rightarrow> nat \<Rightarrow> frame list \<Rightarrow> 'l mux \<Rightarrow> tcp_relay \<Rightarrow> bool" where
  "hears lost sid c d m r \<longleftrightarrow> (if lost then far_cut sid c d m r else far_ok sid c d m r)"

lemma hears_up [simp]: "hears False sid c d m r = far_ok sid c d m r"
  by (simp add: hears_def)

lemma far_cutD:
  assumes "far_cut sid c d m r"
  shows "mux_inv m" "prefix (handled r @ failed r) d"
    and "down r \<Longrightarrow> feeds m sid c" "down r \<Longrightarrow> \<not> tx_alive (chans m ! c)"
    and "down r \<Longrightarrow> prefix (handled r @ cq (chans m ! c)) d" "down r \<Longrightarrow> failed r = []"
  using assms by (simp_all add: far_cut_def)

lemma far_cut_keep:
  assumes "far_cut sid c d m r" "mux_inv m'" "feeds m sid c \<Longrightarrow> feeds m' sid c"
    and "feeds m sid c \<Longrightarrow> \<not> tx_alive (chans m ! c) \<Longrightarrow> chans m' ! c = chans m ! c"
    and "handled r' = handled r" "failed r' = failed r" "down r' = down r"
  shows "far_cut sid c d m' r'"
  using assms by (simp add: far_cut_def)

lemma far_cut_ended:
  "mux_inv m \<Longrightarrow> prefix (handled r @ failed r) d \<Longrightarrow> \<not> down r \<Longrightarrow> far_cut sid c d m r"
  by (simp add: far_cut_def)

lemma far_cut_took:
  assumes "far_cut sid c d m r" "down r" "recv c m = (Got f, m')"
  shows "prefix (handled r @ [f]) d"
    and "handled r' = handled r @ [f] \<Longrightarrow> failed r' = failed r \<Longrightarrow> down r' = down r \<Longrightarrow> far_cut sid c d m' r'"
proof -
  from assms(3) obtain q where q: "cq (chans m ! c) = f # q"
    "m' = m\<lparr>chans := (chans m)[c := (chans m ! c)\<lparr>cq := q\<rparr>]\<rparr>" by (auto simp: recv_Got)
  note ok = far_cutD [OF assms(1)]
  from ok(5) [OF assms(2)] q(1) show "prefix (handled r @ [f]) d" by (auto simp: prefix_def)
  moreover have "mux_inv m'" using mux_inv_recv [OF ok(1), of c] assms(3) by simp
  moreover have "c < length (chans m)" using ok(3) [OF assms(2)] by (simp add: feeds_def)
  ultimately show "handled r' = handled r @ [f] \<Longrightarrow> failed r' = failed r \<Longrightarrow> down r' = down r \<Longrightarrow> far_cut sid c d m' r'"
    using assms(1,2) q by (auto simp: far_cut_def feeds_def)
qed

lemma far_cut_relay_step:
  assumes "relay_bidirectional_tcp sid c (m, r) (m', r')" "far_cut sid c d m r"
  shows "far_cut sid c d m' r'"
proof -
  note ok = far_cutD [OF assms(2)]
  note step = assms(1) [unfolded relay_bidirectional_tcp_def]
  from mux_inv_step [OF step ok(1)] have inv': "mux_inv m'" .
  have same: "sessions m' = sessions m \<and> chans m' = chans m" if "send_frame f m = Some m'" for f
    using that by (auto simp: send_frame_def split: if_splits)
  from step show ?thesis
  proof cases
    case (down_skip f)
    from far_cut_took(2) [OF assms(2) down_skip(2,4), of r'] down_skip(1) show ?thesis by simp
  next
    case (down_write f out)
    from far_cut_took(2) [OF assms(2) down_write(2,4), of r'] down_write(1) show ?thesis by simp
  next
    case (down_write_error f m1 out n)
    then have "\<not> down r'" "handled r' = handled r" "failed r' = failed r @ [f]" by (simp_all add: end_down_def)
    with inv' far_cut_took(1) [OF assms(2) down_write_error(2,4)] ok(6) [OF down_write_error(2)]
    show ?thesis by (intro far_cut_ended) simp_all
  next
    case (down_break f m1)
    then have "\<not> down r'" "handled r' = handled r @ [f]" "failed r' = failed r" by (simp_all add: end_down_def)
    with inv' far_cut_took(1) [OF assms(2) down_break(2,3)] ok(6) [OF down_break(2)]
    show ?thesis by (intro far_cut_ended) simp_all
  next
    case (down_closed m1)
    with inv' ok(2) show ?thesis by (intro far_cut_ended) (simp_all add: end_down_def)
  next
    case aborted_down
    with inv' ok(2) show ?thesis by (intro far_cut_ended) simp_all
  next
    case close_sent
    with same [of "frame_new Close sid []"] inv' show ?thesis
      by (intro far_cut_keep [OF assms(2)]) (auto simp: feeds_def send_def)
  next
    case session_dropped
    from feeds_step [OF ok(1), of sid c 1 "OpDrop sid"] session_chan_step [OF ok(1), of sid c 1 "OpDrop sid"] session_dropped(1,2) inv'
    show ?thesis by (intro far_cut_keep [OF assms(2)]) (simp_all add: concerns_def chan_step_def close_tx_closed)
  next
    case (send_done f)
    with same [of f] inv' show ?thesis by (intro far_cut_keep [OF assms(2)]) (auto simp: feeds_def)
  qed (use inv' in \<open>auto simp: end_task_simps intro!: far_cut_keep [OF assms(2)] split: if_splits\<close>)
qed

text \<open>Anything but taking from the channel or leaving it keeps what is queued there.\<close>

lemma far_cut_other:
  assumes "far_cut sid c d m r" "x \<noteq> OpRecv c" "x \<noteq> OpLeave c"
  shows "far_cut sid c d (snd (mux_step mdu x m)) r"
proof -
  note ok = far_cutD [OF assms(1)]
  have same: "chan_step x ch = ch" if "concerns sid c x" "\<not> tx_alive ch" for ch
    using that assms(2,3) by (cases x) (simp_all add: concerns_def chan_step_def close_tx_closed)
  have "feeds (snd (mux_step mdu x m)) sid c" "\<not> tx_alive (chans m ! c) \<Longrightarrow> chans (snd (mux_step mdu x m)) ! c = chans m ! c"
    if "feeds m sid c"
    using feeds_step [OF ok(1) that] session_chan_step [OF ok(1) that, of mdu x] same by simp_all
  with ok mux_step_inv [OF ok(1)] show ?thesis by (intro far_cut_keep [OF assms(1)]) auto
qed

lemma far_cut_dispatch_all: "far_cut sid c d m r \<Longrightarrow> far_cut sid c d (fold dispatch fs m) r"
proof (induction fs arbitrary: m)
  case (Cons f fs)
  from far_cut_other [OF Cons.prems, of "OpDispatch f" 1] Cons.IH show ?case by simp
qed simp

text \<open>The reset of a link that was up.\<close>

lemma far_cut_reset:
  assumes "far_ok sid c d m r"
  shows "far_cut sid c d (reset m) r"
proof -
  note ok = far_okD [OF assms]
  have "feeds (reset m) sid c" "chans (reset m) ! c = close_tx (chans m ! c)" if "down r"
    using feeds_step [OF ok(1) ok(3) [OF that], of 1 OpReset] session_chan_step [OF ok(1) ok(3) [OF that], of 1 OpReset]
    by (simp_all add: concerns_def chan_step_def)
  with ok mux_step_inv [OF ok(1), of 1 OpReset] show ?thesis by (simp add: far_cut_def close_tx_def)
qed

lemma far_ok_same:
  assumes "far_ok sid c d m r" "mux_inv m'" "sessions m' = sessions m" "chans m' = chans m"
  shows "far_ok sid c d m' r"
  using assms by (intro far_ok_keep [OF assms(1,2)]) (auto simp: feeds_def assms(3,4))

lemma hears_relay_step:
  "relay_bidirectional_tcp sid c (m, r) (m', r') \<Longrightarrow> hears lost sid c d m r \<Longrightarrow> hears lost sid c d m' r'"
  using far_cut_relay_step far_ok_relay_step unfolding hears_def relay_bidirectional_tcp_def by metis

lemma hears_other:
  "hears lost sid c d m r \<Longrightarrow> \<not> concerns sid c x \<Longrightarrow> hears lost sid c d (snd (mux_step mdu x m)) r"
  using far_cut_other [of sid c d m r x mdu] far_ok_other [of sid c d m r x mdu]
  by (cases "x = OpRecv c \<or> x = OpLeave c") (auto simp: hears_def concerns_def)

lemma hears_same:
  assumes "hears lost sid c d m r" "mux_inv m'" "sessions m' = sessions m" "chans m' = chans m"
  shows "hears lost sid c d m' r"
proof (cases lost)
  case True
  with assms(1) have "far_cut sid c d m' r"
    by (intro far_cut_keep [of sid c d m r, OF _ assms(2)]) (auto simp: hears_def feeds_def assms(3,4))
  with True show ?thesis by (simp add: hears_def)
qed (use assms far_ok_same in simp)

lemma sender_fields:
  "chans (sender_recv mdu m) = chans m" "sessions (sender_recv mdu m) = sessions m"
  "recv_buf (sender_recv mdu m) = recv_buf m"
  by (simp_all add: sender_recv_def split: option.split list.split)

lemma sender_chunk_keeps:
  assumes "sender_chunk wire_send (w, m) = (w', m')"
  shows "chans m' = chans m" "sessions m' = sessions m" "recv_buf m' = recv_buf m"
  using assms by (auto simp: sender_chunk_def wire_send_def split: option.splits list.splits prod.splits)

section \<open>The client\<close>

fun client_said :: "u32 \<Rightarrow> frame \<Rightarrow> client_task \<Rightarrow> frame list \<Rightarrow> bool" where
  "client_said sid con Opening out \<longleftrightarrow> out = []"
| "client_said sid con Awaiting out \<longleftrightarrow> out = [con]"
| "client_said sid con (ClientRelays r) out \<longleftrightarrow> out = con # sent r \<and> tcp_ok sid r"
| "client_said sid con (GaveUp result) out \<longleftrightarrow> out = [con] \<or> result = Inr () \<and> out = [con, frame_new Close sid []]"

fun client_hears :: "bool \<Rightarrow> u32 \<Rightarrow> nat \<Rightarrow> bytes + 's \<Rightarrow> client_task \<Rightarrow> frame list \<Rightarrow> 'l mux \<Rightarrow> bool" where
  "client_hears lost sid rx v (ClientRelays r) d m \<longleftrightarrow>
     (\<exists>stream rest. v = Inr stream \<and> d = verdict_frame sid v # rest \<and> hears lost sid rx rest m r)"
| "client_hears lost sid rx v (GaveUp result) d m \<longleftrightarrow>
     result = Inl (str_bytes ''Timeout'') \<or> result = verdict_result v \<and> d \<noteq> [] \<or>
     lost \<and> result = Inl (str_bytes ''channel closed'')"
| "client_hears lost sid rx v task d m \<longleftrightarrow> hears lost sid rx d m (relay_start ())"

definition client_inv ::
  "bool \<Rightarrow> u32 \<Rightarrow> nat \<Rightarrow> frame \<Rightarrow> bytes + 's \<Rightarrow> frame list \<Rightarrow> 'l mux \<Rightarrow> client_task \<Rightarrow> frame list \<Rightarrow> bool" where
  "client_inv lost sid rx con v d m task out \<longleftrightarrow>
     mux_inv m \<and> client_said sid con task (of_session sid out) \<and> client_hears lost sid rx v task d m"

text \<open>What the exit node may have sent so far.\<close>

definition told :: "u32 \<Rightarrow> bytes + 's \<Rightarrow> frame list \<Rightarrow> bool" where
  "told sid v d \<longleftrightarrow> d = [] \<or> (\<exists>rest. d = verdict_frame sid v # rest)"

lemma client_hears_mono:
  assumes "client_hears lost sid rx v task d m"
    and "\<And>e r. hears lost sid rx e m r \<Longrightarrow> hears lost sid rx (e @ new) m' r"
  shows "client_hears lost sid rx v task (d @ new) m'"
  using assms by (cases task) fastforce+

section \<open>Its steps\<close>

text \<open>The wait: pending, over because the channel is closed, or decided by the verdict.\<close>

lemma hears_await:
  assumes "hears lost sid rx d n (relay_start ())" "told sid v d" "verdict_ok v" "await_reply rx n = (w, m)"
  shows "quiet n m \<and> mux_inv m \<and> data_q m = data_q n \<and>
    (w = Waiting \<and> m = n \<and> d = [] \<or> lost \<and> w = Decided (Inl (str_bytes ''channel closed'')) \<or>
     (\<exists>rest. d = verdict_frame sid v # rest \<and> w = Decided (verdict_result v) \<and> hears lost sid rx rest m (relay_start ())))"
proof -
  let ?ch = "chans n ! rx"
  have start: "down (relay_start () :: tcp_relay)" "stage (relay_start () :: tcp_relay) = Relaying"
    "handled (relay_start () :: tcp_relay) = []" by (simp_all add: relay_start_def)
  have ok: "mux_inv n" "rx < length (chans n)" "prefix (cq ?ch) d" "lost \<longleftrightarrow> \<not> tx_alive ?ch" "\<not> lost \<Longrightarrow> cq ?ch = d"
    using assms(1) start by (auto simp: hears_def far_cut_def far_ok_def feeds_def split: if_splits)
  from assms(4) have same: "data_q m = data_q n" "sender m = sender n" "link_id m = link_id n" "recv_buf m = recv_buf n"
    by (auto simp: await_reply_def Let_def split: prod.splits)
  show ?thesis
  proof (cases "cq ?ch")
    case Nil
    then have "(chans n)[rx := ?ch\<lparr>cq := []\<rparr>] = chans n" by (metis chan.surjective chan.update_convs(1) list_update_id)
    with assms(4) Nil ok(4) have "w = (if lost then Decided (Inl (str_bytes ''channel closed'')) else Waiting)" "m = n"
      by (auto simp: await_reply_def)
    with Nil ok(1,5) show ?thesis by (auto simp: quiet_def)
  next
    case (Cons f q)
    with ok(3) assms(2) obtain rest where d: "d = verdict_frame sid v # rest" and f: "f = verdict_frame sid v"
      and q: "prefix q rest" by (auto simp: told_def prefix_Cons)
    with assms(4) await_verdict [OF assms(3)] Cons have m: "w = Decided (verdict_result v)"
      "m = n\<lparr>chans := (chans n)[rx := ?ch\<lparr>cq := q\<rparr>]\<rparr>" by (simp_all add: await_reply_def)
    have "recv rx n = (Got f, m)" using Cons m(2) by (simp add: recv_def)
    with mux_inv_recv [OF ok(1), of rx] have inv: "mux_inv m" by simp
    from assms(1) inv m(2) Cons d q ok(2,4,5) have "hears lost sid rx rest m (relay_start ())"
      by (auto simp: hears_def far_cut_def far_ok_def feeds_def relay_start_def)
    with d m(1) inv same show ?thesis by (simp add: quiet_def)
  qed
qed

lemma frame_wf_close [simp]: "frame_wf (frame_new Close sid [])"
  by (simp add: frame_wf_def)

lemma socks5_decides:
  assumes "handle_socks5_session sid rx (Requested TCPConnect) result bind_ok reply_ok m1 = Some (kind, reply, m)"
    and "mux_inv m1"
  shows "quiet m1 m \<and> mux_inv m \<and>
    (kind \<noteq> None \<and> result = Inr () \<and> m = m1 \<or>
     kind = None \<and> (\<exists>new. hands_over m1 new m \<and> (new = [] \<or> result = Inr () \<and> new = [frame_new Close sid []])))"
proof (cases result)
  case (Inl err)
  with assms have "kind = None" "m = drop_receiver rx m1"
    by (auto simp: handle_tcp_connect_def end_session_def)
  with assms(2) show ?thesis
    by (simp add: mux_inv_drop_receiver) (auto simp: quiet_def hands_over_def drop_receiver_def intro: exI [of _ "[]"])
next
  case (Inr u)
  show ?thesis
  proof (cases reply_ok)
    case True
    with Inr assms show ?thesis by (auto simp: handle_tcp_connect_def end_session_def quiet_def)
  next
    case False
    with Inr assms obtain m2 where m2: "send Close sid [] m1 = Some m2" "kind = None"
      "m = drop_receiver rx (drop_session sid m2)"
      by (auto simp: handle_tcp_connect_def end_session_def close_session_def split: option.splits)
    have "frame_wf (frame_new Close sid [])" by (simp add: frame_wf_def)
    moreover have "mux_inv m" using m2 assms(2)
      by (simp add: mux_inv_send mux_inv_drop_session mux_inv_drop_receiver)
    moreover note send_SomeD [OF m2(1)]
    ultimately show ?thesis using m2(2,3) Inr
      by (auto simp: quiet_def hands_over_def drop_receiver_def drop_session_def
          intro!: exI [of _ "[frame_new Close sid []]"])
  qed
qed


definition connect_frame :: "u32 \<Rightarrow> bytes \<Rightarrow> u16 \<Rightarrow> frame" where
  "connect_frame sid host port = frame_new Connect sid (encode_connect_payload host port False)"

text \<open>A wait that is over: the relay starts on what came behind CONN_OK, or the task ends.\<close>

lemma await_decides:
  assumes "client_inv lost sid rx con v d n Awaiting out" "told sid v d" "verdict_ok v"
    and "await_reply rx n = (w, m)" "connect_result timed_out w = Some result"
  shows "quiet n m" "mux_inv m" "data_q m = data_q n" "of_session sid out = [con]"
    and "client_hears lost sid rx v (GaveUp result) d m'"
    and "result = Inr () \<Longrightarrow> client_hears lost sid rx v (ClientRelays (relay_start ())) d m"
proof -
  from assms(1) have inv: "hears lost sid rx d n (relay_start ())" "of_session sid out = [con]" by (simp_all add: client_inv_def)
  note a = hears_await [OF inv(1) assms(2-4)]
  with inv(2) show "quiet n m" "mux_inv m" "data_q m = data_q n" "of_session sid out = [con]" by simp_all
  from a assms(5) show "client_hears lost sid rx v (GaveUp result) d m'"
    by (auto simp: connect_result_def split: if_splits)
  from a assms(5) show "result = Inr () \<Longrightarrow> client_hears lost sid rx v (ClientRelays (relay_start ())) d m"
    by (auto simp: connect_result_def verdict_result_def split: sum.splits if_splits)
qed

lemma decided_inv:
  assumes "client_inv lost sid rx con v d n Awaiting out" "told sid v d" "verdict_ok v"
    and "await_reply rx n = (w, m1)" "connect_result timed_out w = Some result"
    and "quiet m1 m" "mux_inv m" "hands_over n new m" "kind \<noteq> None \<Longrightarrow> result = Inr () \<and> m = m1"
    and "hands_over m1 new' m" "kind = None \<Longrightarrow> new' = [] \<or> result = Inr () \<and> new' = [frame_new Close sid []]"
  shows "quiet n m \<and> client_inv lost sid rx con v d m (if kind = None then GaveUp result else ClientRelays (relay_start ())) (out @ new)"
proof -
  note a = await_decides [OF assms(1-5)]
  from a(1) assms(6) have "quiet n m" by (simp add: quiet_def)
  moreover from a(3) assms(10) have "hands_over n new' m" by (simp add: hands_over_def)
  with assms(8) have new: "new = new'" by (rule hands_over_unique)
  moreover have "new' = []" if "kind \<noteq> None"
    using assms(9) [OF that] assms(10) by (intro hands_over_nothing [OF assms(10)]) simp
  ultimately show ?thesis using a(4-6) assms(7,9,11) tcp_ok_start by (auto simp: client_inv_def relay_start_def)
qed

lemma client_inv_step:
  assumes "client_step render mdu sid rx target (n, t) new (m, t')" "client_inv lost sid rx con v d n t out"
    and "told sid v d" "verdict_ok v" "render target = (host, port)" "con = connect_frame sid host port" "frame_wf con"
  shows "quiet n m \<and> hands_over n new m \<and> client_inv lost sid rx con v d m t' (out @ new)"
  using assms(1)
proof cases
  case asks
  from asks(3) assms(5) have s: "send Connect sid (encode_connect_payload host port False) n = Some m"
    by (simp add: connect_tcp_server_side_def)
  with assms(6,7) have "hands_over n [con] m" by (simp add: hands_over_def send_queue connect_frame_def)
  with asks(4) have new: "new = [con]" by (rule hands_over_unique)
  from send_SomeD [OF s] have same: "sessions m = sessions n" "chans m = chans n" "quiet n m" by (simp_all add: quiet_def)
  from assms(2) asks(1) have inv: "mux_inv n" "of_session sid out = []" "hears lost sid rx d n (relay_start ())"
    by (simp_all add: client_inv_def)
  have "mux_inv m" using mux_inv_send [OF s] inv(1) by simp
  with hears_same [OF inv(3) this same(1,2)] same(3) asks inv(2) new assms(6) show ?thesis
    by (simp add: client_inv_def connect_frame_def)
next
  case awaits
  from assms(2) awaits have "hears lost sid rx d n (relay_start ())" by (simp add: client_inv_def)
  from hears_await [OF this assms(3,4) awaits(4)] assms(2) awaits show ?thesis by (auto simp: hands_over_def)
next
  case (decides w m1 timed_out result bind_ok reply_ok kind reply)
  note inv = assms(2) [unfolded decides(1)]
  note d = socks5_decides [OF decides(5) await_decides(2) [OF inv assms(3,4) decides(3,4)]]
  then obtain new' where n: "hands_over m1 new' m" "kind = None \<longrightarrow> new' = [] \<or> result = Inr () \<and> new' = [frame_new Close sid []]"
    by (auto simp: hands_over_def)
  from d have q: "quiet m1 m" "mux_inv m" "kind \<noteq> None \<Longrightarrow> result = Inr () \<and> m = m1" by auto
  from n(2) have "kind = None \<Longrightarrow> new' = [] \<or> result = Inr () \<and> new' = [frame_new Close sid []]" by simp
  note decided_inv [OF inv assms(3,4) decides(3,4) q(1,2) decides(6) _ n(1), of kind, OF q(3) this]
  with decides(2,6) show ?thesis by simp
next
  case (decides_forward w m1 timed_out result kind)
  note inv = assms(2) [unfolded decides_forward(1)]
  note a = await_decides [OF inv assms(3,4) decides_forward(4,5)]
  from decides_forward(6) a(2) have d: "quiet m1 m" "mux_inv m" "hands_over m1 [] m" "kind \<noteq> None \<Longrightarrow> result = Inr () \<and> m = m1"
    by (auto simp: tunnel_session_def quiet_def hands_over_def drop_receiver_def mux_inv_drop_receiver [unfolded drop_receiver_def]
        split: sum.splits)
  from d(3) a(3) have "hands_over n [] m" by (simp add: hands_over_def)
  note decided_inv [OF inv assms(3,4) decides_forward(4,5) d(1,2) this _ d(3), of kind, OF d(4)]
  with \<open>hands_over n [] m\<close> decides_forward(2,3) show ?thesis by simp
next
  case (relays r r')
  from assms(2) relays(1) have inv: "of_session sid out = con # sent r" "tcp_ok sid r" "mux_inv n"
    "client_hears lost sid rx v (ClientRelays r) d n" by (simp_all add: client_inv_def)
  then have "near_ok sid (tcp_frame sid) r" by (simp add: tcp_ok_def)
  note h = relay_hands_over [OF relays(3) this]
  from relays(4) h(2) have "new = drop (length (sent r)) (sent r')" by (rule hands_over_unique)
  with h(3,4) inv(1) tcp_ok_step [OF relays(3) inv(2)] have "client_said sid con t' (of_session sid (out @ new))"
    using relays(2) by simp
  moreover have "mux_inv m" by (rule mux_inv_step [OF relays(3) [unfolded relay_bidirectional_tcp_def] inv(3)])
  moreover from inv(4) hears_relay_step [OF relays(3)] relays(2) have "client_hears lost sid rx v t' d m" by auto
  ultimately show ?thesis using h(1) relays(4) by (simp add: client_inv_def)
next
  case (others x)
  from assms(2) have inv: "mux_inv n" "client_said sid con t (of_session sid out)" "client_hears lost sid rx v t d n"
    by (simp_all add: client_inv_def)
  note f = foreign_step [OF others(2) inv(1) others(3)]
  from f(3) others(4) have new: "of_session sid new = []" using hands_over_unique by blast
  have "hears lost sid rx e m r" if "hears lost sid rx e n r" for e r
    using hears_other [OF that f(4) [of rx], of mdu] others(3) by simp
  then have "client_hears lost sid rx v t (d @ []) m" by (intro client_hears_mono [OF inv(3)]) simp
  with f(1,2) new inv(2) others show ?thesis by (simp add: client_inv_def)
qed

end
