(* ===== verification/Lifecycle_Exit.thy ===== *)
theory Lifecycle_Exit
  imports Lifecycle_Client
begin

text \<open>
  The exit node's end of a TCP session on its own, whether its event loop still knows the link
  or not: what its task has handed over and heard, and what its event loop makes of frames.
\<close>

section \<open>The state of the exit node\<close>

fun exit_said :: "u32 \<Rightarrow> bytes + 's \<Rightarrow> 's exit_task \<Rightarrow> frame list \<Rightarrow> bool" where
  "exit_said sid v NotRun out \<longleftrightarrow> out = []"
| "exit_said sid v (ExitRelays c stream r) out \<longleftrightarrow>
     v = Inr stream \<and> out = verdict_frame sid v # sent r \<and> tcp_ok sid r"
| "exit_said sid v Refused out \<longleftrightarrow> (\<exists>err. v = Inl err) \<and> out = [verdict_frame sid v]"

lemma exit_said_told: "exit_said sid v task out \<Longrightarrow> prefix d out \<Longrightarrow> told sid v d"
  by (cases task) (auto simp: told_def prefix_Cons)

text \<open>The multiplexer \<open>h\<close> belongs to no link but \<open>l\<close>.\<close>

definition exit_inv ::
  "u32 \<Rightarrow> 'l \<Rightarrow> nat \<Rightarrow> target_addr \<Rightarrow> frame \<Rightarrow> bytes + 's \<Rightarrow> frame list \<Rightarrow> 'l server \<Rightarrow> 's exit_task
     \<Rightarrow> frame list \<Rightarrow> bool" where
  "exit_inv sid l h addr con v d x task out \<longleftrightarrow>
     server_inv x \<and> h < length (muxes x) \<and> (\<forall>k. link_muxes x k = Some h \<longrightarrow> k = l) \<and>
     exit_said sid v task (of_session sid out) \<and> exit_hears sid h addr con task d x"

lemma inv_exit_mux:
  assumes "server_inv x" "link_muxes x l = Some h"
  shows "h < length (muxes x)" "mux_inv (muxes x ! h)"
  using assms by (auto simp: server_inv_def)

lemma server_inv_update:
  assumes "server_inv x" "mux_inv m" "h < length (muxes x)"
  shows "server_inv (update_mux h m x)"
  by (rule only_mux_inv [OF only_mux_update assms(1)]) (use assms(2,3) in simp_all)

lemma server_inv_mux: "server_inv x \<Longrightarrow> h < length (muxes x) \<Longrightarrow> mux_inv (muxes x ! h)"
  by (simp add: server_inv_def)

lemma exit_hears_mono:
  assumes "exit_hears sid h addr con task d x"
    and "\<And>c e (r :: tcp_relay). c \<in> exit_channels sid h x \<Longrightarrow>
      far_ok sid c e (muxes x ! h) r \<Longrightarrow> far_ok sid c e (muxes x' ! h) r"
    and "\<And>a k. SessionTcp h sid a k \<in> set (tasks x') \<longleftrightarrow> SessionTcp h sid a k \<in> set (tasks x)"
  shows "exit_hears sid h addr con task d x'"
proof (cases task)
  case NotRun
  have "exit_pending sid h addr con d x'" if pending: "exit_pending sid h addr con d x"
  proof -
    from pending obtain c rest where p: "d = con # rest" "\<forall>a k. SessionTcp h sid a k \<in> set (tasks x) \<longleftrightarrow> a = addr \<and> k = c"
      "far_ok sid c rest (muxes x ! h) (relay_start () :: tcp_relay)" by (auto simp: exit_pending_def)
    then have "c \<in> exit_channels sid h x" by (auto simp: exit_channels_def)
    from p(1,2) assms(2) [OF this p(3)] assms(3) show ?thesis
      unfolding exit_pending_def by (intro exI [of _ c] exI [of _ rest]) simp
  qed
  with NotRun assms(1,3) show ?thesis by (auto simp: exit_channels_def)
next
  case (ExitRelays c stream r)
  with assms(1) obtain rest where "d = con # rest" "far_ok sid c rest (muxes x ! h) r"
    "SessionTcp h sid addr c \<in> set (tasks x)" by auto
  moreover from this(3) have "c \<in> exit_channels sid h x" by (auto simp: exit_channels_def)
  ultimately show ?thesis using ExitRelays assms(2,3) by auto
qed (use assms(1) in simp)



section \<open>Its steps\<close>

lemma exit_moves_inv:
  assumes "exit_inv sid l h addr con v d x t out" "mux_inv m"
    and "exit_said sid v t' (of_session sid (out @ new))" "exit_hears sid h addr con t' d (update_mux h m x)"
  shows "exit_inv sid l h addr con v d (update_mux h m x) t' (out @ new)"
  using assms server_inv_update by (auto simp: exit_inv_def)

text \<open>What the exit node does for other links: the session's multiplexer and tasks stay as they are.\<close>

definition elsewhere :: "u32 \<Rightarrow> nat \<Rightarrow> 'l server \<Rightarrow> 'l server \<Rightarrow> bool" where
  "elsewhere sid h x x' \<longleftrightarrow>
     server_inv x' \<and> muxes x' ! h = muxes x ! h \<and> h < length (muxes x') \<and> own_backlog h x' = own_backlog h x \<and>
     (\<forall>k. link_muxes x' k = Some h \<longleftrightarrow> link_muxes x k = Some h) \<and>
     (\<forall>a c. SessionTcp h sid a c \<in> set (tasks x') \<longleftrightarrow> SessionTcp h sid a c \<in> set (tasks x))"

lemma own_backlog_Cons:
  "backlog x = (k, f) # rest \<Longrightarrow> backlog x' = rest \<Longrightarrow>
     own_backlog h x = (if k = h then f # own_backlog h x' else own_backlog h x')"
  by (simp add: own_backlog_def)

lemma own_backlog_pairs [simp]: "own_backlog h (x\<lparr>backlog := map (Pair k) fs\<rparr>) = (if k = h then fs else [])"
  by (simp add: own_backlog_def filter_map comp_def)

lemma own_backlog_idle: "backlog x = [] \<Longrightarrow> own_backlog h x = []"
  by (simp add: own_backlog_def)

lemma own_backlog_update [simp]: "own_backlog h (update_mux k m x) = own_backlog h x"
  by (simp add: own_backlog_def)

lemma only_mux_tasks:
  assumes "only_mux k x x'" "k \<noteq> h"
  shows "SessionTcp h sid a c \<in> set (tasks x') \<longleftrightarrow> SessionTcp h sid a c \<in> set (tasks x)"
  using assms by (fastforce simp: only_mux_def)

lemma other_link_event:
  assumes "server_inv y" "h < length (muxes y)" "\<forall>k. link_muxes y k = Some h \<longrightarrow> k = l"
    and "\<not> about_link l e" "server_event e y = Some x"
  shows "elsewhere sid h y x"
proof -
  from assms(5) have idle: "backlog y = []" "x = server_takes e y" by (simp_all add: server_event_def split: if_splits)
  note inv = server_inv_event [OF assms(5,1)]
  show ?thesis
  proof (cases e)
    case (LinkData l' d)
    show ?thesis
    proof (cases "link_muxes y l'")
      case None
      with LinkData idle assms(1,2) show ?thesis by (simp add: elsewhere_def)
    next
      case (Some k)
      with assms(3,4) LinkData have k: "k \<noteq> h" by auto
      obtain fs m where r: "receive_data d (muxes y ! k) = (fs, m)" by fastforce
      with idle Some LinkData have x: "x = (update_mux k m y)\<lparr>backlog := map (Pair k) fs\<rparr>" by simp
      from own_backlog_idle [OF idle(1), of h] x k inv assms(2) show ?thesis by (simp add: elsewhere_def)
    qed
  next
    case (LinkClosed l' reason)
    with assms(1-4) inv idle show ?thesis by (auto simp: elsewhere_def own_backlog_def)
  next
    case (LinkEstablished l' rtt i)
    with assms(1-4) inv idle show ?thesis by (auto simp: elsewhere_def own_backlog_def nth_append)
  qed (use assms idle in \<open>simp add: elsewhere_def\<close>)
qed

lemma other_link_resume:
  assumes "server_inv y" "h < length (muxes y)" "backlog y = (k, f) # rest" "k \<noteq> h" "server_resume y = Some x"
  shows "elsewhere sid h y x"
proof -
  from assms(5) obtain k' f' rest' where r: "backlog y = (k', f') # rest'" "backlog x = rest'" "only_mux k' y x"
    by (rule server_resumeD)
  with assms(3) have k: "backlog x = rest" "only_mux k y x" by simp_all
  from own_backlog_Cons [OF assms(3) k(1)] only_mux_tasks [OF k(2) assms(4)] server_inv_resume [OF assms(5,1)] k(2) assms(2,4)
  show ?thesis by (simp add: elsewhere_def only_mux_def)
qed

lemma other_link_mux:
  assumes "server_inv y" "h < length (muxes y)" "k \<noteq> h"
  shows "elsewhere sid h y (update_mux k (snd (mux_step mdu op (muxes y ! k))) y)"
proof (cases "k < length (muxes y)")
  case True
  from server_inv_update [OF assms(1) mux_step_inv [OF server_inv_mux [OF assms(1) True]] True] assms(2,3)
  show ?thesis by (simp add: elsewhere_def)
next
  case False
  then show ?thesis using assms by (simp add: elsewhere_def update_mux_def list_update_beyond)
qed

lemma exit_inv_elsewhere:
  assumes "exit_inv sid l h addr con v d x t out" "elsewhere sid h x x'"
  shows "exit_inv sid l h addr con v d x' t out"
proof -
  from assms(1) have "exit_hears sid h addr con t d x" by (simp add: exit_inv_def)
  then have "exit_hears sid h addr con t d x'"
    by (rule exit_hears_mono) (use assms(2) in \<open>simp_all add: elsewhere_def\<close>)
  with assms show ?thesis by (simp add: exit_inv_def elsewhere_def)
qed

lemma handler_keeps:
  assumes "handle_server_session_tcp resolve connect sid a c cfg n = Some (out, m)" "mux_inv n"
  shows "quiet n m" "mux_inv m" "out = Some stream \<Longrightarrow> sessions m = sessions n" "out = Some stream \<Longrightarrow> chans m = chans n"
proof -
  have "quiet n m \<and> mux_inv m \<and> (\<forall>stream. out = Some stream \<longrightarrow> sessions m = sessions n \<and> chans m = chans n)"
  proof (cases out)
    case None
    from handle_tcp_failD [OF assms(1) [unfolded None]] obtain reason where
      "fail_session sid c reason n = Some m" by blast
    then obtain m1 where m1: "send ConnectErr sid reason n = Some m1" "m = drop_receiver c (drop_session sid m1)"
      by (auto simp: fail_session_def split: option.splits)
    from mux_inv_send [OF m1(1)] assms(2) have "mux_inv m"
      unfolding m1(2) by (simp add: mux_inv_drop_receiver mux_inv_drop_session)
    moreover from send_SomeD [OF m1(1)] have "quiet n m"
      unfolding m1(2) by (simp add: quiet_def drop_receiver_def drop_session_def)
    ultimately show ?thesis using None by simp
  next
    case (Some stream)
    from handle_tcp_relayD [OF assms(1) [unfolded Some]] have m: "send ConnectOk sid [] n = Some m" by blast
    from mux_inv_send [OF m] assms(2) send_SomeD [OF m] show ?thesis by (simp add: quiet_def)
  qed
  then show "quiet n m" "mux_inv m" "out = Some stream \<Longrightarrow> sessions m = sessions n" "out = Some stream \<Longrightarrow> chans m = chans n"
    by simp_all
qed

lemma exit_inv_step:
  assumes "exit_step resolve connect cfg mdu sid l h (x, t) new (x', t')" "exit_inv sid l h addr con v d x t out"
    and "verdict_ok v" "v = exit_verdict resolve connect addr cfg"
  shows "quiet (muxes x ! h) (muxes x' ! h) \<and> hands_over (muxes x ! h) new (muxes x' ! h) \<and>
    (\<forall>k. link_muxes x' k = Some h \<longleftrightarrow> link_muxes x k = Some h) \<and> own_backlog h x' = own_backlog h x \<and>
    exit_inv sid l h addr con v d x' t' (out @ new)"
proof -
  from assms(2) have inv: "server_inv x" "h < length (muxes x)" "\<forall>k. link_muxes x k = Some h \<longrightarrow> k = l"
    "exit_said sid v t (of_session sid out)" "exit_hears sid h addr con t d x" by (simp_all add: exit_inv_def)
  note mx = server_inv_mux [OF inv(1,2)] inv(2)
  have other: ?thesis if "elsewhere sid h x x'" "t' = t" "new = []"
    using exit_inv_elsewhere [OF assms(2) that(1)] that by (simp add: elsewhere_def quiet_def hands_over_def)
  from assms(1) show ?thesis
  proof cases
    case (handles_event e)
    from other [OF other_link_event [OF inv(1-3) handles_event(3,4)]] handles_event(1,2) show ?thesis by simp
  next
    case (resumes_other k f rest)
    from other [OF other_link_resume [OF inv(1,2) resumes_other(3-5)]] resumes_other(1,2) show ?thesis by simp
  next
    case (other_links k op)
    from other [OF other_link_mux [OF inv(1,2) other_links(4), of sid mdu op, folded other_links(2)]] other_links(1,3)
    show ?thesis by simp
  next
    case (handles_session a c o' m)
    from handles_session(4) have "exit_channels sid h x \<noteq> {}" by (auto simp: exit_channels_def)
    with inv(5) handles_session(1) have "exit_pending sid h addr con d x" by auto
    with handles_session(4) obtain rest where rest: "a = addr" "d = con # rest"
      "far_ok sid c rest (muxes x ! h) (relay_start () :: tcp_relay)" by (auto simp: exit_pending_def)
    from tcp_handler_verdict [OF handles_session(5)] rest(1) assms(4)
    have v: "data_q m = data_q (muxes x ! h) @ [encode (verdict_frame sid v)]"
      "o' = (case v of Inr stream \<Rightarrow> Some stream | Inl err \<Rightarrow> None)" by blast+
    with verdict_frame_wf [OF assms(3), of sid] have "hands_over (muxes x ! h) [verdict_frame sid v] m"
      by (simp add: hands_over_def)
    with handles_session(6) have new: "new = [verdict_frame sid v]" by (rule hands_over_unique)
    have "session_id (verdict_frame sid v) = sid" by (simp add: verdict_frame_def split: sum.split)
    with new inv(4) handles_session(1,3) v(2) tcp_ok_start have said: "exit_said sid v t' (of_session sid (out @ new))"
      by (simp add: relay_start_def split: sum.split)
    note keeps = handler_keeps [OF handles_session(5) mx(1)]
    have "exit_hears sid h addr con t' d (update_mux h m x)"
      using handles_session(3,4) rest far_ok_same [OF rest(3) keeps(2)] keeps(3,4) mx(2)
      by (cases o') simp_all
    from exit_moves_inv [OF assms(2) keeps(2) said this] handles_session(2,6) keeps(1) mx(2) show ?thesis by simp
  next
    case (relays c r m r' stream)
    from inv(4) relays(1) have "near_ok sid (tcp_frame sid) r" by (simp add: tcp_ok_def)
    note hand = relay_hands_over [OF relays(4) this]
    from relays(5) hand(2) have "new = drop (length (sent r)) (sent r')" by (rule hands_over_unique)
    with hand(3,4) inv(4) relays(1,3) tcp_ok_step [OF relays(4)] have said: "exit_said sid v t' (of_session sid (out @ new))"
      by simp
    note step = relays(4) [unfolded relay_bidirectional_tcp_def]
    have "exit_hears sid h addr con t' d (update_mux h m x)"
      using inv(5) relays(1,3) far_ok_relay_step [OF step] mx(2) by auto
    from exit_moves_inv [OF assms(2) mux_inv_step [OF step mx(1)] said this] relays(2,5) hand(1) mx(2) show ?thesis by simp
  next
    case (others op m)
    note f = foreign_step [OF others(3) mx(1) others(4)]
    from f(3) others(5) have new: "of_session sid new = []" using hands_over_unique by blast
    have "far_ok sid c e m r" if "c \<in> exit_channels sid h x" "far_ok sid c e (muxes x ! h) r"
      for c e and r :: tcp_relay
      using far_ok_other [OF that(2) f(4) [OF that(1)], of mdu] others(4) by simp
    then have "exit_hears sid h addr con t d (update_mux h m x)"
      using mx(2) by (intro exit_hears_mono [OF inv(5)]) simp_all
    from exit_moves_inv [OF assms(2) f(2) _ this, of new] new inv(4) others(1,2,5) f(1) mx(2) show ?thesis by simp
  qed
qed

section \<open>Frames for the exit node\<close>

lemma session_frames_set: "session_frames con fs \<Longrightarrow> f \<in> set fs \<Longrightarrow> f = con \<or> is_data f \<or> is_close f"
  by (cases fs) (auto simp: session_frames_def)

lemma own_frames_kinds: "own_frames sid r \<Longrightarrow> f \<in> set (sent r) \<Longrightarrow> is_data f \<or> is_close f"
  unfolding own_frames_def using is_close_new(1) by metis

lemma client_said_frames: "client_said sid con task out \<Longrightarrow> session_frames con out"
  by (cases task) (auto simp: session_frames_def dest: own_frames_kinds tcp_okD(1))

lemma exit_hears_frames:
  assumes "server_frames h fs x = Some x'" "h < length (muxes x)" "mux_inv (muxes x ! h)" "opens_tcp sid addr con"
    and "session_frames con (d @ of_session sid fs)" "exit_hears sid h addr con task d x"
  shows "exit_hears sid h addr con task (d @ of_session sid fs) x'"
proof (cases "d = []")
  case True
  with assms(6) have "task = NotRun" "exit_channels sid h x = {}"
    by (cases task; auto simp: exit_pending_def)+
  with exit_hears_closed [OF assms(1-3) _ assms(4)] assms(5) True show ?thesis by simp
next
  case False
  then have "\<forall>f\<in>set fs. session_id f = sid \<longrightarrow> is_data f \<or> is_close f"
    using assms(5) by (cases d) (auto simp: session_frames_def)
  from exit_hears_open [OF assms(1,2) this assms(6) False] show ?thesis .
qed

end
