(* ===== verification/Lifecycle_Invariant.thy ===== *)
theory Lifecycle_Invariant
  imports Lifecycle_Exit
begin

text \<open>
  The invariant of \<open>connection_step\<close> and its preservation: both ends as in Lifecycle_Client and
  Lifecycle_Exit, each hearing a front part of what the other end sent, and both directions of
  the link carrying what was accepted.
\<close>

section \<open>The invariant\<close>

definition connection_inv ::
  "u32 \<Rightarrow> nat \<Rightarrow> 'l \<Rightarrow> nat \<Rightarrow> target_addr \<Rightarrow> frame \<Rightarrow> bytes + 's \<Rightarrow> ('l, 's) connection \<Rightarrow> bool" where
  "connection_inv sid rx l h addr con v s \<longleftrightarrow>
     mux_inv (client_mux s) \<and> server_inv (exit_node s) \<and> link_muxes (exit_node s) l = Some h \<and>
     tunnel_inv (up_tun h s) \<and> tunnel_inv (down_tun h s) \<and>
     client_said sid con (client_task s) (of_session sid (up_acc s)) \<and>
     exit_said sid v (exit_task s) (of_session sid (down_acc s)) \<and>
     client_hears False sid rx v (client_task s) (of_session sid (down_del s)) (client_mux s) \<and>
     up_done s @ own_backlog h (exit_node s) = up_del s \<and>
     exit_hears sid h addr con (exit_task s) (of_session sid (up_done s)) (exit_node s)"

lemma connection_inv_ends:
  "connection_inv sid rx l h addr con v s \<longleftrightarrow>
     client_inv False sid rx con v (of_session sid (down_del s)) (client_mux s) (client_task s) (up_acc s) \<and>
     exit_inv sid l h addr con v (of_session sid (up_done s)) (exit_node s) (exit_task s) (down_acc s) \<and>
     up_done s @ own_backlog h (exit_node s) = up_del s \<and>
     link_muxes (exit_node s) l = Some h \<and> tunnel_inv (up_tun h s) \<and> tunnel_inv (down_tun h s)"
  using inv_exit_mux(1)
  by (auto simp: connection_inv_def client_inv_def exit_inv_def server_inv_def own_handles_def)

lemma delivered_prefix:
  assumes "connection_inv sid rx l h addr con v s"
  shows "prefix (of_session sid (up_done s)) (of_session sid (up_acc s))"
    and "prefix (of_session sid (down_del s)) (of_session sid (down_acc s))"
proof -
  from assms have up: "up_del s = up_done s @ own_backlog h (exit_node s)" "tunnel_inv (up_tun h s)"
    by (simp_all add: connection_inv_def)
  then have "prefix (up_done s) (up_acc s)" by (auto simp: tunnel_inv_def)
  then show "prefix (of_session sid (up_done s)) (of_session sid (up_acc s))" by (rule prefix_filter)
qed (use assms in \<open>auto simp: connection_inv_def tunnel_inv_def\<close>)

lemma connection_start_inv:
  assumes "connection_start sid rx l h s"
  shows "connection_inv sid rx l h addr con v s"
proof -
  from assms have "far_ok sid rx [] (client_mux s) (relay_start () :: tcp_relay)"
    by (intro far_ok_begin) (simp_all add: connection_start_def)
  moreover from assms have hist: "up_del s = up_done s @ own_backlog h (exit_node s)" by (simp add: connection_start_def)
  from assms have "tunnel_inv (up_tun h s)" "prefix (down_del s) (down_acc s)"
    by (auto simp: connection_start_def tunnel_inv_def)
  with hist have "prefix (up_done s) (up_acc s)" "prefix (down_del s) (down_acc s)" by (auto simp: tunnel_inv_def)
  then have "prefix (of_session sid (up_done s)) (of_session sid (up_acc s))"
    "prefix (of_session sid (down_del s)) (of_session sid (down_acc s))" by (simp_all add: prefix_filter)
  ultimately show ?thesis using assms by (simp add: connection_start_def connection_inv_def)
qed

section \<open>Steps of one end\<close>

lemma client_moves:
  assumes "connection_inv sid rx l h addr con v s" "quiet (client_mux s) m" "hands_over (client_mux s) new m"
    and "client_inv False sid rx con v (of_session sid (down_del s)) m task (up_acc s @ new)"
  shows "connection_inv sid rx l h addr con v (s\<lparr>client_mux := m, up_acc := up_acc s @ new, client_task := task\<rparr>)"
proof -
  from assms(1) have "tunnel_inv (up_tun h s)" "tunnel_inv (down_tun h s)" by (simp_all add: connection_inv_def)
  note links = links_client [OF this assms(3,2)]
  have "up_tun h (s\<lparr>client_mux := m, up_acc := up_acc s @ new, client_task := task\<rparr>) =
      (up_tun h s)\<lparr>near := m, accepted := up_acc s @ new\<rparr>"
    "down_tun h (s\<lparr>client_mux := m, up_acc := up_acc s @ new, client_task := task\<rparr>) = (down_tun h s)\<lparr>far := m\<rparr>"
    by (simp_all add: up_tun_def down_tun_def)
  with links assms show ?thesis by (simp add: connection_inv_ends)
qed

lemma exit_moves:
  assumes "connection_inv sid rx l h addr con v s" "quiet (exit_mux h s) (muxes x ! h)" "hands_over (exit_mux h s) new (muxes x ! h)"
    and "exit_inv sid l h addr con v (of_session sid (up_done s)) x task (down_acc s @ new)" "link_muxes x l = Some h"
    and "own_backlog h x = own_backlog h (exit_node s)"
  shows "connection_inv sid rx l h addr con v
    (s\<lparr>exit_node := x, down_acc := down_acc s @ new, exit_task := task\<rparr>)" (is "connection_inv _ _ _ _ _ _ _ ?s")
proof -
  from assms(1) have "tunnel_inv (up_tun h s)" "tunnel_inv (down_tun h s)" by (simp_all add: connection_inv_def)
  note links = links_exit [OF this assms(3,2)]
  have "up_tun h ?s = (up_tun h s)\<lparr>far := muxes x ! h\<rparr>"
    "down_tun h ?s = (down_tun h s)\<lparr>near := muxes x ! h, accepted := down_acc s @ new\<rparr>"
    by (simp_all add: up_tun_def down_tun_def)
  with links assms show ?thesis by (simp add: connection_inv_ends)
qed

section \<open>Steps of the link\<close>

lemma client_link_moves:
  assumes "connection_inv sid rx l h addr con v s" "mux_inv m" "chans m = chans (client_mux s)"
    and "sessions m = sessions (client_mux s)" "recv_buf m = recv_buf (client_mux s)"
    and "tunnel_inv ((up_tun h s)\<lparr>near := m, wire := w\<rparr>)"
  shows "connection_inv sid rx l h addr con v (s\<lparr>client_mux := m, up_wire := w\<rparr>)"
proof -
  from assms(1) have inv: "tunnel_inv (down_tun h s)"
    "client_hears False sid rx v (client_task s) (of_session sid (down_del s)) (client_mux s)" by (simp_all add: connection_inv_def)
  from tunnel_inv_far [OF inv(1), of m] assms(5) have "tunnel_inv ((down_tun h s)\<lparr>far := m\<rparr>)" by simp
  moreover have "client_hears False sid rx v (client_task s) (of_session sid (down_del s) @ []) m"
    by (rule client_hears_mono [OF inv(2)]) (use far_ok_same [OF _ assms(2,4,3)] in simp)
  moreover have "up_tun h (s\<lparr>client_mux := m, up_wire := w\<rparr>) = (up_tun h s)\<lparr>near := m, wire := w\<rparr>"
    "down_tun h (s\<lparr>client_mux := m, up_wire := w\<rparr>) = (down_tun h s)\<lparr>far := m\<rparr>"
    by (simp_all add: up_tun_def down_tun_def)
  ultimately show ?thesis using assms(1,2,6) by (simp add: connection_inv_def)
qed

lemma exit_link_moves:
  assumes "connection_inv sid rx l h addr con v s" "mux_inv m" "chans m = chans (exit_mux h s)"
    and "sessions m = sessions (exit_mux h s)" "recv_buf m = recv_buf (exit_mux h s)"
    and "tunnel_inv ((down_tun h s)\<lparr>near := m, wire := w\<rparr>)"
  shows "connection_inv sid rx l h addr con v (s\<lparr>exit_node := update_mux h m (exit_node s), down_wire := w\<rparr>)"
    (is "connection_inv _ _ _ _ _ _ _ ?s")
proof -
  from assms(1) have inv: "tunnel_inv (up_tun h s)" "server_inv (exit_node s)" "link_muxes (exit_node s) l = Some h"
    "exit_hears sid h addr con (exit_task s) (of_session sid (up_done s)) (exit_node s)" by (simp_all add: connection_inv_def)
  note len = inv_exit_mux(1) [OF inv(2,3)]
  from tunnel_inv_far [OF inv(1), of m] assms(5) have "tunnel_inv ((up_tun h s)\<lparr>far := m\<rparr>)" by simp
  moreover have "exit_hears sid h addr con (exit_task s) (of_session sid (up_done s)) (update_mux h m (exit_node s))"
    by (rule exit_hears_mono [OF inv(4)]) (use far_ok_same [OF _ assms(2,4,3)] len in simp_all)
  moreover have "down_tun h ?s = (down_tun h s)\<lparr>near := m, wire := w\<rparr>" "up_tun h ?s = (up_tun h s)\<lparr>far := m\<rparr>"
    using len by (simp_all add: up_tun_def down_tun_def)
  ultimately show ?thesis using assms(1,6) server_inv_update [OF inv(2) assms(2) len] by (simp add: connection_inv_def)
qed

lemma client_link_inv:
  assumes "connection_inv sid rx l h addr con v s" "0 < mdu"
  shows "sender (client_mux s) = None \<Longrightarrow> data_q (client_mux s) \<noteq> [] \<Longrightarrow>
      connection_inv sid rx l h addr con v (s\<lparr>client_mux := sender_recv mdu (client_mux s)\<rparr>)"
    and "sender (client_mux s) \<noteq> None \<Longrightarrow> sender_chunk wire_send (up_wire s, client_mux s) = (w, m) \<Longrightarrow>
      connection_inv sid rx l h addr con v (s\<lparr>client_mux := m, up_wire := w\<rparr>)"
proof -
  from assms(1) have inv: "tunnel_inv (up_tun h s)" "mux_inv (client_mux s)" "is_connected (client_mux s)"
    by (simp_all add: connection_inv_def tunnel_inv_def)
  {
    assume s: "sender (client_mux s) = None" "data_q (client_mux s) \<noteq> []"
    have "tunnel_step mdu sid (up_tun h s) ((up_tun h s)\<lparr>near := sender_recv mdu (client_mux s)\<rparr>)"
      using tunnel_step.take_up [of "up_tun h s" mdu sid] s inv(3) by simp
    from tunnel_inv_step [OF this inv(1) assms(2)]
    have "tunnel_inv ((up_tun h s)\<lparr>near := sender_recv mdu (client_mux s), wire := up_wire s\<rparr>)"
      by (simp add: up_tun_def)
    with client_link_moves [OF assms(1), of "sender_recv mdu (client_mux s)" "up_wire s"] inv(2)
    show "connection_inv sid rx l h addr con v (s\<lparr>client_mux := sender_recv mdu (client_mux s)\<rparr>)"
      by (simp add: mux_inv_sender_recv sender_fields)
  next
    assume s: "sender (client_mux s) \<noteq> None" "sender_chunk wire_send (up_wire s, client_mux s) = (w, m)"
    have "tunnel_step mdu sid (up_tun h s) ((up_tun h s)\<lparr>near := m, wire := w\<rparr>)"
      using tunnel_step.transmit [of "up_tun h s" w m mdu sid] s by simp
    note t = tunnel_inv_step [OF this inv(1) assms(2)]
    from mux_inv_sender_chunk [of wire_send "up_wire s" "client_mux s"] s(2) inv(2) have "mux_inv m" by simp
    from client_link_moves [OF assms(1) this sender_chunk_keeps [OF s(2)] t]
    show "connection_inv sid rx l h addr con v (s\<lparr>client_mux := m, up_wire := w\<rparr>)" .
  }
qed

lemma client_data_inv:
  fixes s :: "('l, 's) connection"
  assumes "connection_inv sid rx l h addr con v s"
    and "down_wire s = d # w" "receive_data d (client_mux s) = (fs, m)"
  shows "connection_inv sid rx l h addr con v
    (s\<lparr>client_mux := fold dispatch fs m, down_wire := w, down_del := down_del s @ fs\<rparr>)"
    (is "connection_inv _ _ _ _ _ _ _ ?s")
proof -
  let ?m = "fold dispatch fs m"
  from assms(1) have inv: "tunnel_inv (up_tun h s)" "tunnel_inv (down_tun h s)" "mux_inv (client_mux s)"
    "client_hears False sid rx v (client_task s) (of_session sid (down_del s)) (client_mux s)" by (simp_all add: connection_inv_def)
  have "tunnel_step 1 sid (down_tun h s) (down_tun h ?s)"
    using tunnel_step.arrive [of "down_tun h s" d w fs m 1 sid] assms(2,3) by (simp add: down_tun_def)
  note down = tunnel_inv_step [OF this inv(2)]
  from assms(3) have f: "data_q m = data_q (client_mux s)" "sender m = sender (client_mux s)"
    "link_id m = link_id (client_mux s)" by (auto simp: receive_data_def split: prod.splits)
  have g: "data_q (fold dispatch fs m) = data_q m" "sender (fold dispatch fs m) = sender m"
    "link_id (fold dispatch fs m) = link_id m" for m :: "'l mux"
    by (induction fs arbitrary: m) (simp_all add: dispatch_def split: option.split)
  from tunnel_inv_near [OF inv(1), of ?m "[]"] f g have "tunnel_inv ((up_tun h s)\<lparr>near := ?m, accepted := up_acc s\<rparr>)" by simp
  moreover have "up_tun h ?s = (up_tun h s)\<lparr>near := ?m, accepted := up_acc s\<rparr>" by (simp add: up_tun_def)
  moreover have "mux_inv ?m" using mux_inv_receive_data [OF assms(3)] inv(3) by (simp add: table.inv_deliver_all)
  moreover have "client_hears False sid rx v (client_task s) (of_session sid (down_del s) @ of_session sid fs) ?m"
    by (rule client_hears_mono [OF inv(4)])
      (simp add: far_ok_handles [OF handles_dispatch_all far_ok_receive_data [OF assms(3)]])
  ultimately show ?thesis using assms(1) down by (simp add: connection_inv_def)
qed

lemma exit_link_inv:
  assumes "connection_inv sid rx l h addr con v s" "0 < mdu"
  shows "sender (exit_mux h s) = None \<Longrightarrow> data_q (exit_mux h s) \<noteq> [] \<Longrightarrow>
      connection_inv sid rx l h addr con v (s\<lparr>exit_node := update_mux h (sender_recv mdu (exit_mux h s)) (exit_node s)\<rparr>)"
    and "sender (exit_mux h s) \<noteq> None \<Longrightarrow> sender_chunk wire_send (down_wire s, exit_mux h s) = (w, m) \<Longrightarrow>
      connection_inv sid rx l h addr con v (s\<lparr>exit_node := update_mux h m (exit_node s), down_wire := w\<rparr>)"
proof -
  from assms(1) have srv: "server_inv (exit_node s)" "link_muxes (exit_node s) l = Some h"
    and inv: "tunnel_inv (down_tun h s)" "is_connected (exit_mux h s)"
    by (simp_all add: connection_inv_def tunnel_inv_def)
  note mx = inv_exit_mux [OF srv]
  {
    assume s: "sender (exit_mux h s) = None" "data_q (exit_mux h s) \<noteq> []"
    have "tunnel_step mdu sid (down_tun h s) ((down_tun h s)\<lparr>near := sender_recv mdu (exit_mux h s)\<rparr>)"
      using tunnel_step.take_up [of "down_tun h s" mdu sid] s inv(2) by simp
    from tunnel_inv_step [OF this inv(1) assms(2)]
    have "tunnel_inv ((down_tun h s)\<lparr>near := sender_recv mdu (exit_mux h s), wire := down_wire s\<rparr>)"
      by (simp add: down_tun_def)
    with exit_link_moves [OF assms(1), of "sender_recv mdu (exit_mux h s)" "down_wire s"] mx(2)
    show "connection_inv sid rx l h addr con v (s\<lparr>exit_node := update_mux h (sender_recv mdu (exit_mux h s)) (exit_node s)\<rparr>)"
      by (simp add: mux_inv_sender_recv sender_fields)
  next
    assume s: "sender (exit_mux h s) \<noteq> None" "sender_chunk wire_send (down_wire s, exit_mux h s) = (w, m)"
    have "tunnel_step mdu sid (down_tun h s) ((down_tun h s)\<lparr>near := m, wire := w\<rparr>)"
      using tunnel_step.transmit [of "down_tun h s" w m mdu sid] s by simp
    note t = tunnel_inv_step [OF this inv(1) assms(2)]
    from mux_inv_sender_chunk [of wire_send "down_wire s" "exit_mux h s"] s(2) mx(2) have "mux_inv m" by simp
    from exit_link_moves [OF assms(1) this sender_chunk_keeps [OF s(2)] t]
    show "connection_inv sid rx l h addr con v (s\<lparr>exit_node := update_mux h m (exit_node s), down_wire := w\<rparr>)" .
  }
qed

text \<open>Data for the exit node, and what its event loop makes of a frame.\<close>

lemma exit_takes_data:
  assumes "server_event (LinkData l d) x = Some x'" "link_muxes x l = Some h" "receive_data d (muxes x ! h) = (fs, m)"
  shows "backlog x = []" "x' = (update_mux h m x)\<lparr>backlog := map (Pair h) fs\<rparr>"
  using assms by (simp_all add: server_event_def split: if_splits)

lemma exit_data_links:
  assumes "tunnel_inv (up_tun h s)" "tunnel_inv (down_tun h s)" "h < length (muxes (exit_node s))"
    and "up_wire s = d # w" "receive_data d (exit_mux h s) = (fs, m)" "muxes x ! h = m"
  defines "s' \<equiv> s\<lparr>exit_node := x, up_wire := w, up_del := up_del s @ fs\<rparr>"
  shows "tunnel_inv (up_tun h s')" "tunnel_inv (down_tun h s')"
proof -
  have "tunnel_step 1 sid (up_tun h s) ((up_tun h s)\<lparr>wire := w, far := fold dispatch fs m, delivered := up_del s @ fs\<rparr>)" for sid
    using tunnel_step.arrive [of "up_tun h s" d w fs m 1 sid] assms(4,5) by simp
  from tunnel_inv_step [OF this assms(1)] assms(6) show "tunnel_inv (up_tun h s')"
    by (simp add: s'_def tunnel_inv_def in_flight_def up_tun_def recv_buf_dispatch_all)
  from assms(5) have "data_q m = data_q (exit_mux h s)" "sender m = sender (exit_mux h s)"
    "link_id m = link_id (exit_mux h s)" by (auto simp: receive_data_def split: prod.splits)
  with tunnel_inv_near [OF assms(2), of m "[]"] assms(6) have
    "tunnel_inv ((down_tun h s)\<lparr>near := m, accepted := down_acc s\<rparr>)" by simp
  then show "tunnel_inv (down_tun h s')" using assms(6) by (simp add: s'_def down_tun_def)
qed

lemma exit_data_inv:
  assumes "connection_inv sid rx l h addr con v s"
    and "up_wire s = d # w" "receive_data d (exit_mux h s) = (fs, m)"
    and "server_event (LinkData l d) (exit_node s) = Some x"
  shows "connection_inv sid rx l h addr con v (s\<lparr>exit_node := x, up_wire := w, up_del := up_del s @ fs\<rparr>)"
proof -
  from assms(1) have srv: "server_inv (exit_node s)" "link_muxes (exit_node s) l = Some h"
    and inv: "tunnel_inv (up_tun h s)" "tunnel_inv (down_tun h s)"
      "exit_hears sid h addr con (exit_task s) (of_session sid (up_done s)) (exit_node s)"
      "up_done s @ own_backlog h (exit_node s) = up_del s"
    by (simp_all add: connection_inv_def)
  note mx = inv_exit_mux [OF srv]
  note x = exit_takes_data [OF assms(4) srv(2) assms(3)]
  then have m: "muxes x ! h = m" "own_backlog h x = fs" using mx(1) by simp_all
  note links = exit_data_links [OF inv(1,2) mx(1) assms(2,3) m(1)]
  have "exit_hears sid h addr con (exit_task s) (of_session sid (up_done s)) x"
    using far_ok_receive_data [OF assms(3)] m(1) x(2) by (intro exit_hears_mono [OF inv(3)]) simp_all
  with assms(1) links server_inv_event [OF assms(4) srv(1)] x inv(4) m(2) own_backlog_idle [OF x(1), of h] show ?thesis
    by (simp add: connection_inv_def)
qed

text \<open>One frame: both directions of the link, and what the exit node hears.\<close>

lemma exit_resumes_frame:
  assumes "server_inv x" "opens_tcp sid addr con" "exit_hears sid h addr con task d x" "session_frames con (d @ of_session sid [f])"
    and "backlog x = (h, f) # rest" "server_resume x = Some x'" "hands_over (muxes x ! h) new (muxes x' ! h)"
  shows "server_inv x'" "h < length (muxes x')" "quiet (muxes x ! h) (muxes x' ! h)" "link_muxes x' = link_muxes x"
    and "of_session sid new = []" "own_backlog h x = f # own_backlog h x'"
    and "exit_hears sid h addr con task (d @ of_session sid [f]) x'"
proof -
  from assms(6) obtain k g rest' where r: "backlog x = (k, g) # rest'" "server_frame k g (x\<lparr>backlog := rest'\<rparr>) = Some x'"
    "backlog x' = rest'" "only_mux k x x'" by (rule server_resumeD)
  with assms(5) have r: "server_frames h [f] (x\<lparr>backlog := rest\<rparr>) = Some x'" "backlog x' = rest" "only_mux h x x'"
    by (simp_all add: server_frames_one)
  from assms(1,5) have len: "h < length (muxes (x\<lparr>backlog := rest\<rparr>))" by (auto simp: server_inv_def)
  from assms(1) len have inv: "mux_inv (muxes (x\<lparr>backlog := rest\<rparr>) ! h)" by (simp add: server_inv_mux)
  from server_inv_resume [OF assms(6,1)] show "server_inv x'" .
  from r(3) len show "h < length (muxes x')" "link_muxes x' = link_muxes x" by (simp_all add: only_mux_def)
  from server_frames_quiet [OF r(1) len] obtain new' where q: "quiet (muxes x ! h) (muxes x' ! h)"
    "hands_over (muxes x ! h) new' (muxes x' ! h)"
    "\<forall>g\<in>set new'. session_id g = session_id f \<and> frame_type f = Connect \<and> decode_connect_payload (payload f) = None"
    by auto
  from q(1) show "quiet (muxes x ! h) (muxes x' ! h)" .
  have "session_id g \<noteq> sid" if "g \<in> set new" for g
  proof
    assume "session_id g = sid"
    with q(2,3) that hands_over_unique [OF assms(7)] have f: "session_id f = sid" "frame_type f = Connect"
      "decode_connect_payload (payload f) = None" by fastforce+
    then have "f = con \<or> is_data f \<or> is_close f" by (intro session_frames_set [OF assms(4)]) simp
    with f(2,3) assms(2) show False by (auto simp: opens_tcp_def is_data_def is_close_def)
  qed
  then show "of_session sid new = []" by (simp add: filter_empty_conv)
  from own_backlog_Cons [OF assms(5) r(2), of h] show "own_backlog h x = f # own_backlog h x'" by simp
  have "exit_hears sid h addr con task d (x\<lparr>backlog := rest\<rparr>)" by (rule exit_hears_mono [OF assms(3)]) simp_all
  from exit_hears_frames [OF r(1) len inv assms(2,4) this]
  show "exit_hears sid h addr con task (d @ of_session sid [f]) x'" .
qed

lemma exit_resume_inv:
  assumes "connection_inv sid rx l h addr con v s" "opens_tcp sid addr con"
    and "backlog (exit_node s) = (h, f) # rest" "server_resume (exit_node s) = Some x" "hands_over (exit_mux h s) new (muxes x ! h)"
  shows "connection_inv sid rx l h addr con v
    (s\<lparr>exit_node := x, up_done := up_done s @ [f], down_acc := down_acc s @ new\<rparr>)" (is "connection_inv _ _ _ _ _ _ _ ?s")
    and "of_session sid new = []"
proof -
  from assms(1) have srv: "server_inv (exit_node s)" "link_muxes (exit_node s) l = Some h"
    and inv: "tunnel_inv (up_tun h s)" "tunnel_inv (down_tun h s)"
      "client_said sid con (client_task s) (of_session sid (up_acc s))"
      "exit_hears sid h addr con (exit_task s) (of_session sid (up_done s)) (exit_node s)"
      "up_done s @ own_backlog h (exit_node s) = up_del s"
    by (simp_all add: connection_inv_def)
  from own_backlog_Cons [OF assms(3), of "(exit_node s)\<lparr>backlog := rest\<rparr>" h] inv(1) inv(5) [symmetric]
  have "prefix (of_session sid (up_done s @ [f])) (of_session sid (up_acc s))"
    by (auto simp: tunnel_inv_def intro: prefix_filter)
  with client_said_frames [OF inv(3)] have sf: "session_frames con (of_session sid (up_done s) @ of_session sid [f])"
    by (auto intro: session_frames_prefix)
  note r = exit_resumes_frame [OF srv(1) assms(2) inv(4) sf assms(3-5)]
  note links = links_exit [OF inv(1,2) assms(5) r(3)]
  have "up_tun h ?s = (up_tun h s)\<lparr>far := muxes x ! h\<rparr>"
    "down_tun h ?s = (down_tun h s)\<lparr>near := muxes x ! h, accepted := down_acc s @ new\<rparr>"
    by (simp_all add: up_tun_def down_tun_def)
  with links assms(1) r(1,4-7) srv(2) inv(5) show "connection_inv sid rx l h addr con v ?s" by (simp add: connection_inv_def)
  show "of_session sid new = []" by (rule r(5))
qed

section \<open>Every run\<close>

lemma connection_told:
  assumes "connection_inv sid rx l h addr con v s"
  shows "told sid v (of_session sid (down_del s))"
  using exit_said_told delivered_prefix(2) [OF assms] assms unfolding connection_inv_def by metis

lemma connection_inv_step:
  assumes "connection_step resolve connect cfg render mdu sid rx l h target s s'"
    and "connection_inv sid rx l h addr con v s" "0 < mdu" "render target = (host, port)"
    and "con = connect_frame sid host port" "frame_wf con" "opens_tcp sid addr con"
    and "v = exit_verdict resolve connect addr cfg" "verdict_ok v"
  shows "connection_inv sid rx l h addr con v s'"
  using assms(1)
proof cases
  case (client new m t)
  from assms(2) have "client_inv False sid rx con v (of_session sid (down_del s)) (client_mux s) (client_task s) (up_acc s)"
    by (simp add: connection_inv_ends)
  from client_inv_step [OF client(2) this connection_told [OF assms(2)] assms(9,4-6)] client(1) client_moves [OF assms(2)]
  show ?thesis by simp
next
  case client_takes
  from client_link_inv(1) [OF assms(2,3) client_takes(2,3)] client_takes(1) show ?thesis by simp
next
  case (client_chunk w m)
  from client_link_inv(2) [OF assms(2,3) client_chunk(2,3)] client_chunk(1) show ?thesis by simp
next
  case (client_data d w fs m)
  from client_data_inv [OF assms(2) client_data(2,3)] client_data(1) show ?thesis by simp
next
  case (exit new x t)
  from assms(2) have "exit_inv sid l h addr con v (of_session sid (up_done s)) (exit_node s) (exit_task s) (down_acc s)"
    and l: "link_muxes (exit_node s) l = Some h" by (simp_all add: connection_inv_ends)
  from exit_inv_step [OF exit(2) this(1) assms(9,8)] l exit(1) exit_moves [OF assms(2)] show ?thesis by simp
next
  case exit_takes
  from exit_link_inv(1) [OF assms(2,3) exit_takes(2,3)] exit_takes(1) show ?thesis by simp
next
  case (exit_chunk w m)
  from exit_link_inv(2) [OF assms(2,3) exit_chunk(2,3)] exit_chunk(1) show ?thesis by simp
next
  case (exit_data d w fs m x)
  from exit_data_inv [OF assms(2) exit_data(2-4)] exit_data(1) show ?thesis by simp
next
  case (exit_resumes f rest x new)
  from exit_resume_inv(1) [OF assms(2,7) exit_resumes(2-4)] exit_resumes(1) show ?thesis by simp
qed

text \<open>The session as the client asks for it: its frame, and what the exit node reads in it.\<close>

lemma connect_frame_opens:
  assumes "utf8_valid host" "length host < 256"
  shows "opens_tcp sid (Domain host port) (connect_frame sid host port)" "frame_wf (connect_frame sid host port)"
  using connect_payload_decodes [of host port False "[]"] assms
  by (simp_all add: opens_tcp_def connect_frame_def frame_wf_def length_encode_connect_payload)

lemma connection_run_inv:
  assumes "connection_start sid rx l h s0" "(connection_step resolve connect cfg render mdu sid rx l h target)\<^sup>*\<^sup>* s0 s"
    and "0 < mdu" "render target = (host, port)" "utf8_valid host" "length host < 256"
    and "verdict_ok (exit_verdict resolve connect (Domain host port) cfg)"
  shows "connection_inv sid rx l h (Domain host port) (connect_frame sid host port)
    (exit_verdict resolve connect (Domain host port) cfg) s"
  using assms(2)
proof (induction rule: rtranclp_induct)
  case base
  show ?case by (rule connection_start_inv [OF assms(1)])
next
  case (step s1 s2)
  from connection_inv_step [OF step.hyps(2) step.IH assms(3,4) refl connect_frame_opens(2) [OF assms(5,6)]
      connect_frame_opens(1) [OF assms(5,6)] refl assms(7)] show ?case .
qed

section \<open>What the sockets are given\<close>

text \<open>One direction: what one relay has written is a front part of what the other has read.\<close>

lemma carried_stream:
  assumes "tcp_ok sid r" "tcp_ok sid r'" "prefix (handled r' @ failed r') (sent r)"
  shows "prefix (concat (written r')) (concat (map read_bytes (reads r)))"
proof -
  from written_carried [OF assms(3) tcp_okD(2) [OF assms(2)]]
  have "prefix (concat (written r')) (concat (map payload (filter is_data (sent r))))" .
  moreover from assms(1) have "prefix (map payload (filter is_data (sent r))) (map read_bytes (reads r))"
    unfolding tcp_ok_def tcp_inv_def tcp_transparent_def by (metis prefixI)
  from prefix_concat_map [OF this, of "\<lambda>x. x"]
  have "prefix (concat (map payload (filter is_data (sent r)))) (concat (map read_bytes (reads r)))" by simp
  ultimately show ?thesis by (rule prefix_order.trans)
qed

text \<open>
  Both ends, whatever became of the link: what each has heard, with what its event loop still
  holds, is a front part of what the other handed over.
\<close>

definition ends_inv ::
  "bool \<Rightarrow> u32 \<Rightarrow> nat \<Rightarrow> 'l \<Rightarrow> nat \<Rightarrow> target_addr \<Rightarrow> frame \<Rightarrow> bytes + 's \<Rightarrow> ('l, 's) connection \<Rightarrow> bool" where
  "ends_inv lost sid rx l h addr con v s \<longleftrightarrow>
     client_inv lost sid rx con v (of_session sid (down_del s)) (client_mux s) (client_task s) (up_acc s) \<and>
     exit_inv sid l h addr con v (of_session sid (up_done s)) (exit_node s) (exit_task s) (down_acc s) \<and>
     prefix (of_session sid (up_done s @ own_backlog h (exit_node s))) (of_session sid (up_acc s)) \<and>
     prefix (of_session sid (down_del s)) (of_session sid (down_acc s))"

lemma ends_heard:
  assumes "ends_inv lost sid rx l h addr con v s"
  shows "prefix (of_session sid (up_done s)) (of_session sid (up_acc s))"
  using assms by (auto simp: ends_inv_def dest: append_prefixD)

lemma connection_inv_ends_inv: "connection_inv sid rx l h addr con v s \<Longrightarrow> ends_inv False sid rx l h addr con v s"
proof -
  assume inv: "connection_inv sid rx l h addr con v s"
  then have "prefix (up_done s @ own_backlog h (exit_node s)) (up_acc s)"
    by (auto simp: connection_inv_def tunnel_inv_def)
  then have "prefix (of_session sid (up_done s @ own_backlog h (exit_node s))) (of_session sid (up_acc s))"
    by (rule prefix_filter)
  with inv delivered_prefix(2) [OF inv] show ?thesis by (simp add: ends_inv_def connection_inv_ends)
qed

lemma hears_handled: "hears lost sid c d m r \<Longrightarrow> prefix (handled r @ failed r) d"
  by (simp add: hears_def far_cut_def far_ok_def split: if_splits)

lemma ends_relays:
  assumes "ends_inv lost sid rx l h addr con v s" "exit_task s = ExitRelays c stream r'" "client_task s = ClientRelays r"
  shows "tcp_ok sid r" "tcp_ok sid r'" "prefix (handled r' @ failed r') (sent r)" "prefix (handled r @ failed r) (sent r')"
proof -
  from assms have inv: "client_inv lost sid rx con v (of_session sid (down_del s)) (client_mux s) (ClientRelays r) (up_acc s)"
    "exit_inv sid l h addr con v (of_session sid (up_done s)) (exit_node s) (ExitRelays c stream r') (down_acc s)"
    "prefix (of_session sid (up_done s)) (of_session sid (up_acc s))"
    "prefix (of_session sid (down_del s)) (of_session sid (down_acc s))" using ends_heard [OF assms(1)] by (simp_all add: ends_inv_def)
  then show "tcp_ok sid r" "tcp_ok sid r'" by (simp_all add: client_inv_def exit_inv_def)
  from inv(1,2) obtain rest where "of_session sid (up_done s) = con # rest" "far_ok sid c rest (exit_mux h s) r'"
    "of_session sid (up_acc s) = con # sent r" by (auto simp: client_inv_def exit_inv_def)
  with inv(3) have "prefix rest (sent r)" "prefix (handled r' @ failed r') rest" by (simp_all add: far_okD(2))
  then show "prefix (handled r' @ failed r') (sent r)" by (rule prefix_order.trans [rotated])
  from inv(1,2) obtain rest where "of_session sid (down_del s) = verdict_frame sid v # rest"
    "hears lost sid rx rest (client_mux s) r" "of_session sid (down_acc s) = verdict_frame sid v # sent r'"
    by (auto simp: client_inv_def exit_inv_def)
  with inv(4) have "prefix rest (sent r')" "prefix (handled r @ failed r) rest" by (simp_all add: hears_handled)
  then show "prefix (handled r @ failed r) (sent r')" by (rule prefix_order.trans [rotated])
qed

lemmas connection_relays = ends_relays [OF connection_inv_ends_inv]

text \<open>A client that relays has been told so by an exit node that relays.\<close>

lemma client_relays_exit:
  assumes "ends_inv lost sid rx l h addr con v s" "client_task s = ClientRelays r"
  obtains c stream r' where "exit_task s = ExitRelays c stream r'" "v = Inr stream"
proof -
  from assms obtain stream rest where v: "v = Inr stream" "of_session sid (down_del s) = verdict_frame sid v # rest"
    by (auto simp: ends_inv_def client_inv_def)
  with assms(1) have "of_session sid (down_acc s) \<noteq> []" by (auto simp: ends_inv_def)
  with assms(1) v(1) show thesis by (cases "exit_task s") (auto simp: ends_inv_def exit_inv_def intro: that)
qed

text \<open>Without a relay at the client the exit node writes nothing to its stream.\<close>

lemma exit_writes_nothing:
  assumes "ends_inv lost sid rx l h addr con v s" "exit_task s = ExitRelays c stream r'"
    and "\<forall>r. client_task s \<noteq> ClientRelays r"
  shows "written r' = []"
proof -
  from assms(1,2) obtain rest where rest: "of_session sid (up_done s) = con # rest" "prefix (handled r' @ failed r') rest" "tcp_ok sid r'"
    by (auto simp: ends_inv_def exit_inv_def far_okD(2))
  from assms(1,3) have "\<exists>fs. of_session sid (up_acc s) = con # fs \<and> filter is_data fs = [] \<or> of_session sid (up_acc s) = []"
    by (cases "client_task s") (auto simp: ends_inv_def client_inv_def)
  with assms(1) rest(1) obtain fs where "prefix rest fs" "filter is_data fs = []"
    using ends_heard [OF assms(1)] by auto
  then have data: "filter is_data (handled r' @ failed r') = []"
    using rest(2) by (metis prefix_filter prefix_order.trans prefix_Nil)
  note w = tcp_okD(2) [OF rest(3)]
  with data have "failed r' = []" by (cases "failed r'") (auto simp: tcp_written_def)
  with w data show ?thesis by (simp add: tcp_written_def)
qed

text \<open>Why a client gave up.\<close>

lemma gave_up_reason:
  assumes "ends_inv lost sid rx l h addr con v s" "client_task s = GaveUp result"
  shows "result = Inl (str_bytes ''Timeout'') \<or> lost \<and> result = Inl (str_bytes ''channel closed'') \<or>
    result = verdict_result v \<and> exit_task s \<noteq> NotRun"
proof -
  from assms have "result = Inl (str_bytes ''Timeout'') \<or> lost \<and> result = Inl (str_bytes ''channel closed'') \<or>
      result = verdict_result v \<and> of_session sid (down_del s) \<noteq> []"
    by (auto simp: ends_inv_def client_inv_def)
  moreover have "exit_task s \<noteq> NotRun" if "of_session sid (down_del s) \<noteq> []"
    using that assms(1) by (auto simp: ends_inv_def exit_inv_def)
  ultimately show ?thesis by blast
qed

lemma exit_verdict_connected:
  "exit_verdict resolve connect addr cfg = Inr stream \<Longrightarrow>
     \<exists>sock. resolve addr = Some (Ip sock) \<and> allowed_ip sock cfg Tcp \<and> connect sock = Inr stream"
  by (auto simp: exit_verdict_def filter_and_convert_Some_iff split: option.splits)

end
