(* ===== verification/Lifecycle_Liveness.thy ===== *)
theory Lifecycle_Liveness
  imports Lifecycle_Invariant
begin

text \<open>
  A session is really opened: from a start on an idle link there is a run of the client task,
  the exit node and the link alone in which both relays begin, or the client learns why not.
\<close>

section \<open>What does not change\<close>

text \<open>While the frames of one direction are brought over, and while the event loop goes on.\<close>

definition same_tasks :: "u32 \<Rightarrow> ('l, 's) connection \<Rightarrow> ('l, 's) connection \<Rightarrow> bool" where
  "same_tasks sid s s' \<longleftrightarrow>
     client_task s' = client_task s \<and> exit_task s' = exit_task s \<and>
     up_acc s' = up_acc s \<and> of_session sid (down_acc s') = of_session sid (down_acc s)"

definition loop_only :: "u32 \<Rightarrow> ('l, 's) connection \<Rightarrow> ('l, 's) connection \<Rightarrow> bool" where
  "loop_only sid s s' \<longleftrightarrow>
     same_tasks sid s s' \<and> client_mux s' = client_mux s \<and> up_wire s' = up_wire s \<and> up_del s' = up_del s \<and>
     down_del s' = down_del s"

lemma same_tasks_refl [simp]: "same_tasks sid s s"
  by (simp add: same_tasks_def)

lemma same_tasks_trans: "same_tasks sid s s' \<Longrightarrow> same_tasks sid s' s'' \<Longrightarrow> same_tasks sid s s''"
  by (simp add: same_tasks_def)

lemma loop_only_refl [simp]: "loop_only sid s s"
  by (simp add: loop_only_def)

lemma loop_only_trans: "loop_only sid s s' \<Longrightarrow> loop_only sid s' s'' \<Longrightarrow> loop_only sid s s''"
  by (auto simp: loop_only_def intro: same_tasks_trans)

text \<open>What a run assumes of the session: the request can be read, the answer be sent.\<close>

definition served ::
  "(target_addr \<Rightarrow> target_addr option) \<Rightarrow> (socket_addr \<Rightarrow> bytes + 's) \<Rightarrow> filter_config
     \<Rightarrow> (target_addr \<Rightarrow> bytes \<times> u16) \<Rightarrow> nat \<Rightarrow> target_addr \<Rightarrow> bytes \<Rightarrow> u16 \<Rightarrow> bool" where
  "served resolve connect cfg render mdu target host port \<longleftrightarrow>
     0 < mdu \<and> render target = (host, port) \<and> utf8_valid host \<and> length host < 256 \<and>
     verdict_ok (exit_verdict resolve connect (Domain host port) cfg)"

lemma served_step:
  assumes "served resolve connect cfg render mdu target host port"
    and "connection_inv sid rx l h (Domain host port) (connect_frame sid host port)
      (exit_verdict resolve connect (Domain host port) cfg) s"
    and "connection_step resolve connect cfg render mdu sid rx l h target s s'"
  shows "connection_inv sid rx l h (Domain host port) (connect_frame sid host port)
      (exit_verdict resolve connect (Domain host port) cfg) s'"
  using assms(1) connection_inv_step [OF assms(3,2) _ _ refl _ _ refl] connect_frame_opens [of host sid port]
  by (simp add: served_def)

lemma served_more:
  assumes "served resolve connect cfg render mdu target host port"
    and "(connection_step resolve connect cfg render mdu sid rx l h target)\<^sup>*\<^sup>* s s'"
    and "connection_inv sid rx l h (Domain host port) (connect_frame sid host port)
      (exit_verdict resolve connect (Domain host port) cfg) s"
  shows "connection_inv sid rx l h (Domain host port) (connect_frame sid host port)
      (exit_verdict resolve connect (Domain host port) cfg) s'"
  using assms(2,3) by (induction rule: rtranclp_induct) (auto intro: served_step [OF assms(1)])

lemma served_run:
  assumes "served resolve connect cfg render mdu target host port" "connection_start sid rx l h s0"
    and "(connection_step resolve connect cfg render mdu sid rx l h target)\<^sup>*\<^sup>* s0 s"
  shows "connection_inv sid rx l h (Domain host port) (connect_frame sid host port)
      (exit_verdict resolve connect (Domain host port) cfg) s"
  using connection_run_inv [OF assms(2,3)] assms(1) by (simp add: served_def)

section \<open>The link senders make room\<close>

lemma sender_recv_busy: "sender m \<noteq> None \<or> data_q m = [] \<Longrightarrow> sender_recv mdu m = m"
  by (auto simp: sender_recv_def split: option.split list.split)

lemma update_mux_twice [simp]: "update_mux h m (update_mux h m' x) = update_mux h m x"
  by (simp add: update_mux_def)

lemma update_mux_same [simp]: "update_mux h (muxes x ! h) x = x"
  by (simp add: update_mux_def)

lemma client_sends_run:
  assumes "(sender_task wire_send mdu)\<^sup>*\<^sup>* (up_wire s, client_mux s) (w, m)"
  shows "(connection_step resolve connect cfg render mdu sid rx l h target)\<^sup>*\<^sup>* s (s\<lparr>client_mux := m, up_wire := w\<rparr>)"
  using assms
proof (induction rule: rtranclp_induct2)
  case (step w1 m1 w2 m2)
  let ?R = "connection_step resolve connect cfg render mdu sid rx l h target"
  let ?s = "s\<lparr>client_mux := m1, up_wire := w1\<rparr>"
  from step.hyps(2) have "?R\<^sup>*\<^sup>* ?s (s\<lparr>client_mux := m2, up_wire := w2\<rparr>)"
  proof cases
    case takes
    show ?thesis
    proof (cases "sender m1 \<noteq> None \<or> data_q m1 = []")
      case False
      then have "sender m1 = None" "data_q m1 \<noteq> []" by (cases "sender m1"; simp)+
      then have "?R ?s (?s\<lparr>client_mux := sender_recv mdu (client_mux ?s)\<rparr>)" by (intro client_takes) simp_all
      moreover from takes have "s\<lparr>client_mux := m2, up_wire := w2\<rparr> = ?s\<lparr>client_mux := sender_recv mdu (client_mux ?s)\<rparr>" by simp
      ultimately show ?thesis by (metis r_into_rtranclp)
    next
      case True
      from sender_recv_busy [OF this, of mdu] takes show ?thesis by simp
    qed
  next
    case chunk
    with client_chunk [of ?s w2 m2 resolve connect cfg render mdu sid rx l h target] sender_chunk_idle [of m1 wire_send w1]
    show ?thesis by (cases "sender m1") (auto intro: r_into_rtranclp)
  qed
  with step.IH show ?case by (rule rtranclp_trans)
qed simp

lemma exit_sends_run:
  assumes "(sender_task wire_send mdu)\<^sup>*\<^sup>* (down_wire s, exit_mux h s) (w, m)" "h < length (muxes (exit_node s))"
  shows "(connection_step resolve connect cfg render mdu sid rx l h target)\<^sup>*\<^sup>* s
    (s\<lparr>exit_node := update_mux h m (exit_node s), down_wire := w\<rparr>)"
  using assms(1)
proof (induction rule: rtranclp_induct2)
  case (step w1 m1 w2 m2)
  let ?R = "connection_step resolve connect cfg render mdu sid rx l h target"
  let ?s = "s\<lparr>exit_node := update_mux h m1 (exit_node s), down_wire := w1\<rparr>"
  from step.hyps(2) have "?R\<^sup>*\<^sup>* ?s (s\<lparr>exit_node := update_mux h m2 (exit_node s), down_wire := w2\<rparr>)"
  proof cases
    case takes
    show ?thesis
    proof (cases "sender m1 \<noteq> None \<or> data_q m1 = []")
      case False
      then have "sender m1 = None" "data_q m1 \<noteq> []" by (cases "sender m1"; simp)+
      then have "?R ?s (?s\<lparr>exit_node := update_mux h (sender_recv mdu (exit_mux h ?s)) (exit_node ?s)\<rparr>)"
        using assms(2) by (intro exit_takes) simp_all
      moreover from takes assms(2) have "s\<lparr>exit_node := update_mux h m2 (exit_node s), down_wire := w2\<rparr> =
          ?s\<lparr>exit_node := update_mux h (sender_recv mdu (exit_mux h ?s)) (exit_node ?s)\<rparr>" by simp
      ultimately show ?thesis by (metis r_into_rtranclp)
    next
      case True
      from sender_recv_busy [OF this, of mdu] takes show ?thesis by simp
    qed
  next
    case chunk
    with exit_chunk [of ?s h w2 m2 resolve connect cfg render mdu sid rx l target] sender_chunk_idle [of m1 wire_send w1] assms(2)
    show ?thesis by (cases "sender m1") (auto intro: r_into_rtranclp)
  qed
  with step.IH show ?case by (rule rtranclp_trans)
qed simp

text \<open>The link sender of another link, whatever becomes of its pieces.\<close>

lemma other_sends_run:
  assumes "(sender_task (noting_link True) mdu)\<^sup>*\<^sup>* (n, muxes (exit_node s) ! k) (n', m)" "k \<noteq> h" "k < length (muxes (exit_node s))"
  shows "(connection_step resolve connect cfg render mdu sid rx l h target)\<^sup>*\<^sup>* s (s\<lparr>exit_node := update_mux k m (exit_node s)\<rparr>)"
  using assms(1)
proof (induction rule: rtranclp_induct2)
  case (step n1 m1 n2 m2)
  let ?s = "s\<lparr>exit_node := update_mux k m1 (exit_node s)\<rparr>"
  have "\<exists>op. snd (mux_step mdu op m1) = m2" using step.hyps(2)
  proof cases
    case takes
    then show ?thesis by (intro exI [of _ OpTakeUp]) simp
  next
    case chunk
    then have "snd (sender_chunk (noting_link True) (None, m1)) = m2"
      by (auto simp: sender_chunk_def noting_link_def split: option.splits list.splits)
    then show ?thesis by (intro exI [of _ "OpChunk True"]) (simp add: case_prod_beta)
  qed
  then obtain op where op: "snd (mux_step mdu op (muxes (exit_node ?s) ! k)) = m2" using assms(3) by auto
  from exit [OF other_links [OF assms(2), of resolve connect cfg mdu sid l "exit_node ?s" "exit_task ?s" op], of render rx target] op
  have "connection_step resolve connect cfg render mdu sid rx l h target ?s (s\<lparr>exit_node := update_mux k m2 (exit_node s)\<rparr>)" by simp
  with step.IH show ?case by (rule rtranclp.rtrancl_into_rtrancl)
qed simp

section \<open>The event loop comes to the end of an arrival\<close>

lemma server_frame_room:
  assumes "length (data_q (muxes x ! h)) < SENDER_CAPACITY"
  shows "\<exists>x'. server_frame h f x = Some x'"
  using assms by (auto simp: server_frame_def Let_def case_prod_beta send_def send_frame_def
      split: frame_type.split option.split)

lemma loop_has_room:
  assumes "k < length (muxes (exit_node s))"
  shows "\<exists>s'. (connection_step resolve connect cfg render mdu sid rx l h target)\<^sup>*\<^sup>* s s' \<and> loop_only sid s s' \<and>
    backlog (exit_node s') = backlog (exit_node s) \<and> length (data_q (muxes (exit_node s') ! k)) < SENDER_CAPACITY"
proof (cases "k = h")
  case True
  from sender_makes_room [of wire_send mdu "down_wire s" "exit_mux h s"] obtain w m where
    m: "(sender_task wire_send mdu)\<^sup>*\<^sup>* (down_wire s, exit_mux h s) (w, m)" "length (data_q m) < SENDER_CAPACITY" by blast
  from assms True have "h < length (muxes (exit_node s))" by simp
  from exit_sends_run [OF m(1) this, of resolve connect cfg render sid rx l target] m(2) True assms show ?thesis
    by (intro exI conjI) (assumption, simp_all add: loop_only_def same_tasks_def)
next
  case False
  from sender_makes_room [of "noting_link True" mdu None "muxes (exit_node s) ! k"] obtain n m where
    m: "(sender_task (noting_link True) mdu)\<^sup>*\<^sup>* (None, muxes (exit_node s) ! k) (n, m)" "length (data_q m) < SENDER_CAPACITY" by blast
  from other_sends_run [OF m(1) False assms, of resolve connect cfg render sid rx l target] m(2) assms show ?thesis
    by (intro exI conjI) (assumption, simp_all add: loop_only_def same_tasks_def)
qed

lemma loop_resumes:
  assumes "connection_inv sid rx l h addr con v s" "opens_tcp sid addr con"
    and "backlog (exit_node s) = (k, f) # rest" "length (data_q (muxes (exit_node s) ! k)) < SENDER_CAPACITY"
  shows "\<exists>s'. connection_step resolve connect cfg render mdu sid rx l h target s s' \<and> loop_only sid s s' \<and>
    backlog (exit_node s') = rest"
proof -
  let ?x = "(exit_node s)\<lparr>backlog := rest\<rparr>"
  from server_frame_room [of ?x k f] assms(4) obtain x where x: "server_frame k f ?x = Some x" by auto
  with assms(3) have res: "server_resume (exit_node s) = Some x" by (simp add: server_resume_def)
  from server_frame_keeps_backlog [OF x] have b: "backlog x = rest" by simp
  show ?thesis
  proof (cases "k = h")
    case True
    note left = assms(3) [unfolded True]
    from assms(1) have "h < length (muxes ?x)" using inv_exit_mux(1) by (auto simp: connection_inv_def)
    from server_frames_quiet(2) [of h "[f]" ?x x] x True this obtain new where
      new: "hands_over (exit_mux h s) new (muxes x ! h)" by (auto simp: server_frames_one)
    from exit_resumes [OF left res new] exit_resume_inv(2) [OF assms(1,2) left res new] b show ?thesis
      by (intro exI conjI) (assumption, simp_all add: loop_only_def same_tasks_def)
  next
    case False
    from exit [OF resumes_other [OF assms(3) False res, of resolve connect cfg mdu sid l "exit_task s"], of render rx target] b
    show ?thesis by (intro exI conjI) (assumption, simp_all add: loop_only_def same_tasks_def)
  qed
qed

lemma loop_finishes:
  assumes "served resolve connect cfg render mdu target host port"
    and "connection_inv sid rx l h (Domain host port) (connect_frame sid host port)
      (exit_verdict resolve connect (Domain host port) cfg) s"
  shows "\<exists>s'. (connection_step resolve connect cfg render mdu sid rx l h target)\<^sup>*\<^sup>* s s' \<and> loop_only sid s s' \<and>
    backlog (exit_node s') = []"
  using assms(2)
proof (induction "length (backlog (exit_node s))" arbitrary: s)
  case 0
  then show ?case by (intro exI [of _ s]) simp
next
  case (Suc n)
  from assms(1) have opens: "opens_tcp sid (Domain host port) (connect_frame sid host port)"
    using connect_frame_opens(1) by (simp add: served_def)
  from Suc.hyps(2) obtain k f rest where left: "backlog (exit_node s) = (k, f) # rest" by (metis length_Suc_conv surj_pair)
  with Suc.prems have "k < length (muxes (exit_node s))" by (auto simp: connection_inv_def server_inv_def)
  from loop_has_room [OF this, of resolve connect cfg render mdu sid rx l h target] obtain s1 where
    s1: "(connection_step resolve connect cfg render mdu sid rx l h target)\<^sup>*\<^sup>* s s1" "loop_only sid s s1"
      "backlog (exit_node s1) = (k, f) # rest" "length (data_q (muxes (exit_node s1) ! k)) < SENDER_CAPACITY" using left by auto
  note inv1 = served_more [OF assms(1) s1(1) Suc.prems]
  from loop_resumes [OF inv1 opens s1(3,4), of resolve connect cfg render mdu target] obtain s2 where
    s2: "connection_step resolve connect cfg render mdu sid rx l h target s1 s2" "loop_only sid s1 s2" "backlog (exit_node s2) = rest" by blast
  with left Suc.hyps(2) have "n = length (backlog (exit_node s2))" by simp
  from Suc.hyps(1) [OF this served_step [OF assms(1) inv1 s2(1)]] obtain s3 where
    s3: "(connection_step resolve connect cfg render mdu sid rx l h target)\<^sup>*\<^sup>* s2 s3" "loop_only sid s2 s3"
      "backlog (exit_node s3) = []" by blast
  from rtranclp_trans [OF s1(1) converse_rtranclp_into_rtranclp [OF s2(1) s3(1)]]
    loop_only_trans [OF s1(2) loop_only_trans [OF s2(2) s3(2)]] s3(3) show ?case by blast
qed

section \<open>The link brings the frames over\<close>

lemma up_progress:
  fixes s :: "('l, 's) connection"
  assumes "connection_inv sid rx l h addr con v s" "tunnel_work mdu (up_tun h s) \<noteq> 0" "backlog (exit_node s) = []"
  shows "\<exists>s'. connection_step resolve connect cfg render mdu sid rx l h target s s' \<and>
    tunnel_work mdu (up_tun h s') < tunnel_work mdu (up_tun h s) \<and> same_tasks sid s s' \<and>
    down_del s' = down_del s \<and> sessions (client_mux s') = sessions (client_mux s)"
proof -
  from assms(1) have inv: "tunnel_inv (up_tun h s)" "server_inv (exit_node s)" "link_muxes (exit_node s) l = Some h"
    by (simp_all add: connection_inv_def)
  from tunnel_progress [OF inv(1) assms(2)] obtain t where t: "tunnel_step mdu sid (up_tun h s) t"
    "tunnel_work mdu t < tunnel_work mdu (up_tun h s)" "accepted t = accepted (up_tun h s)" by blast
  from t(1) show ?thesis
  proof cases
    case take_up
    let ?s = "s\<lparr>client_mux := sender_recv mdu (client_mux s)\<rparr>"
    have "up_tun h ?s = t" using take_up(1) by (simp add: up_tun_def)
    with client_takes [of s resolve connect cfg render mdu sid rx l h target] take_up(2,3) t(2)
    show ?thesis by (intro exI [of _ ?s]) (simp add: same_tasks_def sender_fields)
  next
    case (transmit w m)
    let ?s = "s\<lparr>client_mux := m, up_wire := w\<rparr>"
    have "up_tun h ?s = t" using transmit(1) by (simp add: up_tun_def)
    with client_chunk [of s w m resolve connect cfg render mdu sid rx l h target] transmit(2,3) t(2)
    show ?thesis by (intro exI [of _ ?s]) (simp add: same_tasks_def sender_chunk_keeps [OF transmit(3)])
  next
    case (arrive d w fs m)
    then have d: "up_wire s = d # w" "receive_data d (exit_mux h s) = (fs, m)" by simp_all
    from assms(3) obtain x where ev: "server_event (LinkData l d :: ('l, unit) proxy_event) (exit_node s) = Some x"
      by (simp add: server_event_def)
    let ?s = "s\<lparr>exit_node := x, up_wire := w, up_del := up_del s @ fs\<rparr>"
    have "tunnel_work mdu (up_tun h ?s) < tunnel_work mdu (up_tun h s)"
      using t(2) arrive(1) by (simp add: tunnel_work_def)
    with exit_data [OF d ev, of resolve connect cfg render mdu sid rx target] show ?thesis
      by (intro exI [of _ ?s]) (simp add: same_tasks_def)
  qed (use t(2,3) in \<open>auto simp: tunnel_work_def\<close>)
qed

lemma down_progress:
  assumes "connection_inv sid rx l h addr con v s" "tunnel_work mdu (down_tun h s) \<noteq> 0"
  shows "\<exists>s'. connection_step resolve connect cfg render mdu sid rx l h target s s' \<and>
    tunnel_work mdu (down_tun h s') < tunnel_work mdu (down_tun h s) \<and> same_tasks sid s s' \<and>
    up_done s' = up_done s \<and> sessions (exit_mux h s') = sessions (exit_mux h s)"
proof -
  from assms(1) have inv: "tunnel_inv (down_tun h s)" "server_inv (exit_node s)" "link_muxes (exit_node s) l = Some h"
    by (simp_all add: connection_inv_def)
  note mx = inv_exit_mux [OF inv(2,3)]
  from tunnel_progress [OF inv(1) assms(2)] obtain t where t: "tunnel_step mdu sid (down_tun h s) t"
    "tunnel_work mdu t < tunnel_work mdu (down_tun h s)" "accepted t = accepted (down_tun h s)" by blast
  from t(1) show ?thesis
  proof cases
    case take_up
    let ?s = "s\<lparr>exit_node := update_mux h (sender_recv mdu (exit_mux h s)) (exit_node s)\<rparr>"
    have "down_tun h ?s = t" using take_up(1) mx(1) by (simp add: down_tun_def)
    with exit_takes [of s h resolve connect cfg render mdu sid rx l target] take_up(2,3) t(2)
    show ?thesis by (intro exI [of _ ?s]) (simp add: same_tasks_def sender_fields mx(1))
  next
    case (transmit w m)
    let ?s = "s\<lparr>exit_node := update_mux h m (exit_node s), down_wire := w\<rparr>"
    have "down_tun h ?s = t" using transmit(1) mx(1) by (simp add: down_tun_def)
    with exit_chunk [of s h w m resolve connect cfg render mdu sid rx l target] transmit(2,3) t(2)
    show ?thesis by (intro exI [of _ ?s]) (simp add: same_tasks_def mx(1) sender_chunk_keeps [OF transmit(3)])
  next
    case (arrive d w fs m)
    then have d: "down_wire s = d # w" "receive_data d (client_mux s) = (fs, m)" by simp_all
    let ?s = "s\<lparr>client_mux := fold dispatch fs m, down_wire := w, down_del := down_del s @ fs\<rparr>"
    have "tunnel_work mdu (down_tun h ?s) < tunnel_work mdu (down_tun h s)"
      using t(2) arrive(1) by (simp add: tunnel_work_def)
    with client_data [OF d, of resolve connect cfg render mdu sid rx l h target] show ?thesis
      by (intro exI [of _ ?s]) (simp add: same_tasks_def)
  qed (use t(2,3) in \<open>auto simp: tunnel_work_def\<close>)
qed

lemma up_drains:
  assumes "served resolve connect cfg render mdu target host port"
    and "connection_inv sid rx l h (Domain host port) (connect_frame sid host port)
      (exit_verdict resolve connect (Domain host port) cfg) s"
  shows "\<exists>s'. (connection_step resolve connect cfg render mdu sid rx l h target)\<^sup>*\<^sup>* s s' \<and> same_tasks sid s s' \<and>
    up_done s' = up_acc s' \<and> down_del s' = down_del s \<and> sessions (client_mux s') = sessions (client_mux s)"
  using assms(2)
proof (induction "tunnel_work mdu (up_tun h s)" arbitrary: s rule: less_induct)
  case less
  let ?R = "connection_step resolve connect cfg render mdu sid rx l h target"
  from loop_finishes [OF assms(1) less.prems] obtain s1 where s1: "?R\<^sup>*\<^sup>* s s1" "loop_only sid s s1"
    "backlog (exit_node s1) = []" by blast
  note inv1 = served_more [OF assms(1) s1(1) less.prems]
  have work: "tunnel_work mdu (up_tun h s1) = tunnel_work mdu (up_tun h s)"
    using s1(2) by (simp add: tunnel_work_def loop_only_def)
  show ?case
  proof (cases "tunnel_work mdu (up_tun h s1) = 0")
    case True
    from inv1 have "tunnel_inv (up_tun h s1)" "up_done s1 @ own_backlog h (exit_node s1) = up_del s1"
      by (simp_all add: connection_inv_def)
    with tunnel_drained [OF this(1) True] own_backlog_idle [OF s1(3)] s1 show ?thesis
      by (intro exI [of _ s1]) (simp add: loop_only_def)
  next
    case False
    from up_progress [OF inv1 False s1(3)] obtain s2 where s2: "?R s1 s2"
      "tunnel_work mdu (up_tun h s2) < tunnel_work mdu (up_tun h s)" "same_tasks sid s1 s2"
      "down_del s2 = down_del s1" "sessions (client_mux s2) = sessions (client_mux s1)" unfolding work by blast
    from less.hyps [OF s2(2) served_step [OF assms(1) inv1 s2(1)]] obtain s' where s': "?R\<^sup>*\<^sup>* s2 s'" "same_tasks sid s2 s'"
      "up_done s' = up_acc s'" "down_del s' = down_del s2" "sessions (client_mux s') = sessions (client_mux s2)" by blast
    from s1(2) have "same_tasks sid s s1" "client_mux s1 = client_mux s" "down_del s1 = down_del s" by (simp_all add: loop_only_def)
    with rtranclp_trans [OF s1(1) converse_rtranclp_into_rtranclp [OF s2(1) s'(1)]] same_tasks_trans s2(3-5) s'(2-5)
    show ?thesis by (metis (no_types, lifting))
  qed
qed

lemma down_drains:
  assumes "served resolve connect cfg render mdu target host port"
    and "connection_inv sid rx l h (Domain host port) (connect_frame sid host port)
      (exit_verdict resolve connect (Domain host port) cfg) s"
  shows "\<exists>s'. (connection_step resolve connect cfg render mdu sid rx l h target)\<^sup>*\<^sup>* s s' \<and> same_tasks sid s s' \<and>
    down_del s' = down_acc s' \<and>
    up_done s' = up_done s \<and> data_q (exit_mux h s') = [] \<and> sessions (exit_mux h s') = sessions (exit_mux h s)"
  using assms(2)
proof (induction "tunnel_work mdu (down_tun h s)" arbitrary: s rule: less_induct)
  case less
  show ?case
  proof (cases "tunnel_work mdu (down_tun h s) = 0")
    case True
    from less.prems have "tunnel_inv (down_tun h s)" by (simp add: connection_inv_def)
    from tunnel_drained [OF this True] True show ?thesis by (intro exI [of _ s]) (auto simp: tunnel_work_def sum_list_eq_0_iff)
  next
    case False
    from down_progress [OF less.prems False] obtain s1 where s1:
      "connection_step resolve connect cfg render mdu sid rx l h target s s1"
      "tunnel_work mdu (down_tun h s1) < tunnel_work mdu (down_tun h s)" "same_tasks sid s s1"
      "up_done s1 = up_done s" "sessions (exit_mux h s1) = sessions (exit_mux h s)" by blast
    from less.hyps [OF s1(2) served_step [OF assms(1) less.prems s1(1)]] obtain s' where
      "(connection_step resolve connect cfg render mdu sid rx l h target)\<^sup>*\<^sup>* s1 s'" "same_tasks sid s1 s'"
      "down_del s' = down_acc s'"
      "up_done s' = up_done s1" "data_q (exit_mux h s') = []" "sessions (exit_mux h s') = sessions (exit_mux h s1)" by blast
    with converse_rtranclp_into_rtranclp [OF s1(1) this(1)] same_tasks_trans [OF s1(3)] s1(4,5)
    show ?thesis by auto
  qed
qed

section \<open>The opening\<close>

text \<open>The link sender of both ends has nothing to do, and nothing is on the link.\<close>

definition link_idle :: "nat \<Rightarrow> ('l, 's) connection \<Rightarrow> bool" where
  "link_idle h s \<longleftrightarrow>
     up_wire s = [] \<and> data_q (client_mux s) = [] \<and> sender (client_mux s) = None \<and>
     down_wire s = [] \<and> data_q (exit_mux h s) = [] \<and> sender (exit_mux h s) = None"

lemma request_arrives:
  assumes "served resolve connect cfg render mdu target host port" "connection_start sid rx l h s0" "link_idle h s0"
  defines "v \<equiv> exit_verdict resolve connect (Domain host port) cfg"
  shows "\<exists>s c. (connection_step resolve connect cfg render mdu sid rx l h target)\<^sup>*\<^sup>* s0 s \<and>
    connection_inv sid rx l h (Domain host port) (connect_frame sid host port) v s \<and>
    client_task s = Awaiting \<and> exit_task s = NotRun \<and> data_q (exit_mux h s) = [] \<and>
    SessionTcp h sid (Domain host port) c \<in> set (tasks (exit_node s))"
proof -
  let ?con = "connect_frame sid host port"
  note opens = connect_frame_opens [of host sid port]
  from assms(1) have sv: "render target = (host, port)" "utf8_valid host" "length host < 256" by (simp_all add: served_def)
  from connection_start_inv [OF assms(2)] have inv0: "connection_inv sid rx l h (Domain host port) ?con v s0" .
  from assms(2) have start: "client_task s0 = Opening" "exit_task s0 = NotRun" "of_session sid (up_acc s0) = []"
    by (simp_all add: connection_start_def)
  from assms(3) obtain m where m: "send Connect sid (encode_connect_payload host port False) (client_mux s0) = Some m"
    by (simp add: send_def send_frame_def link_idle_def SENDER_CAPACITY_def)
  with sv(1) have "connect_tcp_server_side render sid target (client_mux s0) = Some m"
    by (simp add: connect_tcp_server_side_def)
  moreover have "hands_over (client_mux s0) [?con] m"
    using m opens(2) sv by (simp add: hands_over_def send_queue connect_frame_def)
  moreover define s1 where "s1 = s0\<lparr>client_mux := m, up_acc := up_acc s0 @ [?con], client_task := Awaiting\<rparr>"
  ultimately have step1: "connection_step resolve connect cfg render mdu sid rx l h target s0 s1"
    using connects [OF start(1)] by simp
  note inv1 = served_step [OF assms(1) inv0 [unfolded v_def] step1]
  from up_drains [OF assms(1) inv1] obtain s2 where s2:
    "(connection_step resolve connect cfg render mdu sid rx l h target)\<^sup>*\<^sup>* s1 s2" "same_tasks sid s1 s2"
    "up_done s2 = up_acc s2" by blast
  from down_drains [OF assms(1) served_more [OF assms(1) s2(1) inv1]] obtain s3 where s3:
    "(connection_step resolve connect cfg render mdu sid rx l h target)\<^sup>*\<^sup>* s2 s3" "same_tasks sid s2 s3"
    "up_done s3 = up_done s2" "data_q (exit_mux h s3) = []" by blast
  from rtranclp_trans [OF s2(1) s3(1)]
  have run: "(connection_step resolve connect cfg render mdu sid rx l h target)\<^sup>*\<^sup>* s1 s3" .
  from served_more [OF assms(1) run inv1] have inv3: "connection_inv sid rx l h (Domain host port) ?con v s3"
    unfolding v_def .
  have tasks: "client_task s3 = Awaiting" "exit_task s3 = NotRun" "up_done s3 = up_acc s0 @ [?con]"
    using s2(2,3) s3(2,3) start by (simp_all add: same_tasks_def s1_def)
  then have "of_session sid (up_done s3) = [?con]" using start(3) by (simp add: connect_frame_def)
  with inv3 tasks(2) have "exit_pending sid h (Domain host port) ?con [?con] (exit_node s3)"
    by (simp add: connection_inv_def)
  then obtain c where "SessionTcp h sid (Domain host port) c \<in> set (tasks (exit_node s3))"
    by (auto simp: exit_pending_def)
  then show ?thesis
    using converse_rtranclp_into_rtranclp [OF step1 run] inv3 tasks(1,2) s3(4) by blast
qed

text \<open>The state of the exit node's task after its verdict.\<close>

definition verdict_task :: "nat \<Rightarrow> bytes + 's \<Rightarrow> 's exit_task" where
  "verdict_task c v = (case v of Inr stream \<Rightarrow> ExitRelays c stream (relay_start ()) | Inl err \<Rightarrow> Refused)"

lemma handler_runs:
  assumes "connection_inv sid rx l h addr con v s" "verdict_ok v" "v = exit_verdict resolve connect addr cfg"
    and "exit_task s = NotRun" "data_q (exit_mux h s) = []" "SessionTcp h sid addr c \<in> set (tasks (exit_node s))"
  shows "\<exists>s'. connection_step resolve connect cfg render mdu sid rx l h target s s' \<and>
    client_task s' = client_task s \<and> exit_task s' = verdict_task c v"
proof -
  from assms(5) obtain out m where out: "handle_server_session_tcp resolve connect sid addr c cfg (exit_mux h s) = Some (out, m)"
    using handle_tcp_blocked [of resolve connect sid addr c cfg "exit_mux h s"] by (auto simp: SENDER_CAPACITY_def)
  note verdict = tcp_handler_verdict [OF out assms(3)]
  have "hands_over (exit_mux h s) [verdict_frame sid v] m"
    using verdict verdict_frame_wf [OF assms(2)] by (simp add: hands_over_def)
  from exit_handler [OF assms(4,6) out this, of render mdu rx l target] verdict
  show ?thesis by (intro exI conjI) (assumption, simp_all add: verdict_task_def split: sum.split)
qed

lemma verdict_waits:
  assumes "connection_inv sid rx l h addr con v s" "verdict_ok v" "client_task s = Awaiting"
    and "exit_task s = verdict_task c v" "down_del s = down_acc s"
  shows "\<exists>m. await_reply rx (client_mux s) = (Decided (verdict_result v), m) \<and> data_q m = data_q (client_mux s)"
proof -
  obtain w m where w: "await_reply rx (client_mux s) = (w, m)" by fastforce
  from assms(1,4,5) have "exit_said sid v (verdict_task c v) (of_session sid (down_del s))" by (simp add: connection_inv_def)
  then have "of_session sid (down_del s) \<noteq> []" by (auto simp: verdict_task_def split: sum.splits)
  moreover from assms(1,3) have "far_ok sid rx (of_session sid (down_del s)) (client_mux s) (relay_start () :: tcp_relay)"
    by (simp add: connection_inv_def)
  ultimately show ?thesis
    using hears_await [of False sid rx "of_session sid (down_del s)" "client_mux s" v w m] connection_told [OF assms(1)]
      assms(2) w by auto
qed

lemma wait_ends:
  assumes "client_task s = Awaiting" "await_reply rx (client_mux s) = (Decided (verdict_result v), m)"
    and "data_q m = data_q (client_mux s)"
  shows "\<exists>s'. connection_step resolve connect cfg render mdu sid rx l h target s s' \<and> exit_task s' = exit_task s \<and>
    client_task s' = (case v of Inr stream \<Rightarrow> ClientRelays (relay_start ()) | Inl err \<Rightarrow> GaveUp (Inl err))"
proof -
  have q: "connect_result False (Decided (verdict_result v)) = Some (verdict_result v)" by (simp add: connect_result_def)
  show ?thesis
  proof (cases v)
    case (Inr stream)
    then have "handle_socks5_session sid rx (Requested TCPConnect) (verdict_result v) True True m =
        Some (Some RelayTcp, SuccessReply, m)"
      by (simp add: verdict_result_def handle_tcp_connect_def end_session_def)
    from client_decides [OF assms(1,2) q this, of "[]"] assms(3) Inr show ?thesis
      by (intro exI conjI) (assumption | simp add: hands_over_def)+
  next
    case (Inl err)
    then have "handle_socks5_session sid rx (Requested TCPConnect) (verdict_result v) True True m =
        Some (None, NoReply, drop_receiver rx m)"
      by (simp add: verdict_result_def handle_tcp_connect_def end_session_def)
    from client_decides [OF assms(1,2) q this, of "[]"] assms(3) Inl show ?thesis
      by (intro exI conjI) (assumption | simp add: hands_over_def drop_receiver_def verdict_result_def)+
  qed
qed

lemma session_opens:
  assumes "served resolve connect cfg render mdu target host port" "connection_start sid rx l h s0" "link_idle h s0"
  shows "\<exists>s c. (connection_step resolve connect cfg render mdu sid rx l h target)\<^sup>*\<^sup>* s0 s \<and>
    (case exit_verdict resolve connect (Domain host port) cfg of
       Inr stream \<Rightarrow> client_task s = ClientRelays (relay_start ()) \<and> exit_task s = ExitRelays c stream (relay_start ())
     | Inl err \<Rightarrow> client_task s = GaveUp (Inl err) \<and> exit_task s = Refused)"
proof -
  let ?R = "connection_step resolve connect cfg render mdu sid rx l h target"
  let ?v = "exit_verdict resolve connect (Domain host port) cfg"
  let ?inv = "connection_inv sid rx l h (Domain host port) (connect_frame sid host port) ?v"
  have vok: "verdict_ok ?v" using assms(1) by (simp add: served_def)
  from request_arrives [OF assms] obtain s1 c where s1: "?R\<^sup>*\<^sup>* s0 s1" "?inv s1" "client_task s1 = Awaiting"
    "exit_task s1 = NotRun" "data_q (exit_mux h s1) = []" "SessionTcp h sid (Domain host port) c \<in> set (tasks (exit_node s1))"
    by blast
  from handler_runs [OF s1(2) vok refl s1(4,5,6)] obtain s2 where s2: "?R s1 s2" "client_task s2 = Awaiting"
    "exit_task s2 = verdict_task c ?v" using s1(3) by metis
  note inv2 = served_step [OF assms(1) s1(2) s2(1)]
  from down_drains [OF assms(1) inv2] obtain s3 where s3: "?R\<^sup>*\<^sup>* s2 s3" "same_tasks sid s2 s3" "down_del s3 = down_acc s3" by blast
  note inv3 = served_more [OF assms(1) s3(1) inv2]
  have tasks: "client_task s3 = Awaiting" "exit_task s3 = verdict_task c ?v"
    using s3(2) s2(2,3) by (simp_all add: same_tasks_def)
  from verdict_waits [OF inv3 vok tasks s3(3)] obtain m where "await_reply rx (client_mux s3) = (Decided (verdict_result ?v), m)"
    "data_q m = data_q (client_mux s3)" by blast
  from wait_ends [OF tasks(1) this] obtain s4 where s4: "?R s3 s4" "exit_task s4 = exit_task s3"
    "client_task s4 = (case ?v of Inr stream \<Rightarrow> ClientRelays (relay_start ()) | Inl err \<Rightarrow> GaveUp (Inl err))" by metis
  from s1(1) s2(1) s3(1) s4(1) have "?R\<^sup>*\<^sup>* s0 s4" by (meson rtranclp.rtrancl_into_rtrancl rtranclp_trans)
  with s4(2,3) tasks(2) show ?thesis
    by (intro exI [of _ s4] exI [of _ c]) (auto simp: verdict_task_def split: sum.split)
qed

section \<open>A start to point at\<close>

text \<open>A fresh link between a fresh client and a fresh exit node, and the first session.\<close>

definition connection_init :: "'l \<Rightarrow> ('l, 's) connection" where
  "connection_init l =
     \<lparr>client_mux = snd (accept_round Accepted (set_link_id l mux_new)), client_task = Opening,
      exit_node = \<lparr>muxes = [set_link_id l mux_new], link_muxes = [l \<mapsto> 0], tasks = [], backlog = []\<rparr>, exit_task = NotRun,
      up_wire = [], down_wire = [], up_acc = [], up_del = [], up_done = [], down_acc = [], down_del = []\<rparr>"

lemma connection_init_start:
  fixes l :: 'l
  defines "s \<equiv> connection_init l :: ('l, 's) connection"
  shows "connection_start 1 0 l 0 s" "link_idle 0 s"
proof -
  let ?m = "set_link_id l mux_new"
  have c: "client_mux s = register 1 (?m\<lparr>next_sid := 1\<rparr>)"
    by (simp add: s_def connection_init_def accept_round_def is_connected_def set_link_id_def next_session_id_def
        register_def mux_new_def case_prod_beta)
  have x: "exit_mux 0 s = ?m" by (simp add: s_def connection_init_def)
  have f: "data_q ?m = []" "sender ?m = None" "recv_buf ?m = []" "link_id ?m = Some l" "sessions ?m = Map.empty" "chans ?m = []"
    by (simp_all add: set_link_id_def mux_new_def)
  then have cf: "data_q (client_mux s) = []" "sender (client_mux s) = None"
    "recv_buf (client_mux s) = []" "link_id (client_mux s) = Some l"
    "sessions (client_mux s) 1 = Some 0"
    unfolding c by (simp_all add: register_def register_session_def)
  from f(1,2) x cf(1,2) show "link_idle 0 s"
    by (simp add: link_idle_def) (simp add: s_def connection_init_def)
  have inv: "mux_inv ?m" "mux_inv (?m\<lparr>next_sid := 1\<rparr>)"
    using mux_inv_new by (simp_all add: mux_inv_def set_link_id_def)
  then have "mux_inv (client_mux s)" "mailbox (client_mux s) 1 = Some []"
    unfolding c by (simp_all add: table.inv_register table.mailbox_register)
  moreover have "server_inv (exit_node s)"
    using inv(1) by (auto simp: s_def connection_init_def server_inv_def own_handles_def split: if_splits)
  moreover have "up_wire s = []" "down_wire s = []" "up_acc s = []"
    "up_del s = []" "up_done s = []" "backlog (exit_node s) = []" "down_acc s = []" "down_del s = []"
    by (simp_all add: s_def connection_init_def)
  moreover from this x f cf have "tunnel_inv (up_tun 0 s)" "tunnel_inv (down_tun 0 s)"
    by (simp_all add: tunnel_inv_def in_flight_def sending_def is_connected_def)
  ultimately show "connection_start 1 0 l 0 s"
    using cf(5) by (simp add: connection_start_def own_backlog_idle) (simp add: s_def connection_init_def exit_channels_def)
qed


text \<open>An exit node that connects to its own port 80 whatever it is asked for, if its filter lets it.\<close>

lemma demo_served:
  "served (\<lambda>a. Some (localhost_target 80)) (\<lambda>a. Inr (99 :: nat)) (server_filter_config block False)
     (\<lambda>t. (str_bytes ''host'', 80)) 431 target (str_bytes ''host'') 80"
  "exit_verdict (\<lambda>a. Some (localhost_target 80)) (\<lambda>a. Inr (99 :: nat)) a (server_filter_config block False) =
     (if block then Inl (str_bytes ''invalid ip address'') else Inr 99)"
proof -
  have loop: "is_loopback (ip_of (SocketV4 (ipv4 127 0 0 1) 80))"
    by (simp add: v4_is_loopback_def)
  show v: "exit_verdict (\<lambda>a. Some (localhost_target 80)) (\<lambda>a. Inr (99 :: nat)) a (server_filter_config block False) =
      (if block then Inl (str_bytes ''invalid ip address'') else Inr 99)" for a
    using loop by (simp add: exit_verdict_def filter_and_convert_def target_to_socket_def localhost_target_def
        allowed_ip_server split: option.split)
  have "utf8_valid (str_bytes ''host'')" "utf8_valid (str_bytes ''invalid ip address'')"
    by (rule utf8_valid_ascii, simp add: str_bytes_def)+
  then show "served (\<lambda>a. Some (localhost_target 80)) (\<lambda>a. Inr (99 :: nat)) (server_filter_config block False)
      (\<lambda>t. (str_bytes ''host'', 80)) 431 target (str_bytes ''host'') 80"
    by (simp add: served_def v verdict_ok_def) (simp add: str_bytes_def)
qed

text \<open>The client's relay takes its first read.\<close>

lemma client_reads:
  assumes "client_task s = ClientRelays r" "up r = Reading" "buf \<noteq> []" "length buf \<le> BUF_SIZE"
  shows "\<exists>r'. connection_step resolve connect cfg render mdu sid rx l h target s (s\<lparr>client_task := ClientRelays r'\<rparr>) \<and>
    reads r' = reads r @ [ReadOk buf]"
proof -
  let ?r = "r\<lparr>up := Sending (frame_new Data sid buf), cell := (), reads := reads r @ [ReadOk buf]\<rparr>"
  have "relay_bidirectional_tcp sid rx (client_mux s, r) (client_mux s, ?r)"
    unfolding relay_bidirectional_tcp_def using assms(2-4) by (intro read_frame) (simp_all add: tcp_to_rns_def fits_def)
  from client_relay [OF assms(1) this, of "[]"] show ?thesis
    by (intro exI [of _ ?r]) (simp add: hands_over_def)
qed

end
