(* ===== verification/Lifecycle_End.thy ===== *)
theory Lifecycle_End
  imports Lifecycle_Liveness
begin

text \<open>
  A session is really ended: once the relay of one end has left its \<open>select!\<close>, there is a run
  in which it sends its CLOSE, the other relay writes everything that was sent before it, and
  both ends drop the session.
\<close>

section \<open>Ended sessions are out of the tables\<close>

definition ended_dropped :: "u32 \<Rightarrow> nat \<Rightarrow> ('l, 's) connection \<Rightarrow> bool" where
  "ended_dropped sid h s \<longleftrightarrow>
     (\<forall>r. client_task s = ClientRelays r \<longrightarrow> stage r = Ended \<longrightarrow> sessions (client_mux s) sid = None) \<and>
     (\<forall>c stream r. exit_task s = ExitRelays c stream r \<longrightarrow> stage r = Ended \<longrightarrow> sessions (exit_mux h s) sid = None)"

lemma sessions_keep:
  assumes "\<not> concerns sid c x" "\<forall>d. x \<noteq> OpReceive d"
  shows "sessions (snd (mux_step mdu x m)) sid = sessions m sid"
  using assms
  by (cases x)
    (auto simp: concerns_def set_link_id_def clear_link_id_def next_session_id_def register_session_def
      drop_session_def send_def send_frame_def dispatch_def recv_def Let_def drop_receiver_def sender_fields
      sender_chunk_def noting_link_def split: option.split list.split prod.split)

lemma sessions_foreign:
  assumes "foreign sid cs x"
  shows "sessions (snd (mux_step mdu x m)) sid = sessions m sid"
  using assms
  by (cases x)
    (auto simp: foreign_def next_session_id_def register_session_def drop_session_def send_def send_frame_def
      dispatch_def recv_def Let_def drop_receiver_def split: option.split list.split)

lemma sessions_dispatch [simp]: "sessions (dispatch f m) = sessions m"
  by (simp add: dispatch_def split: option.split)

lemma sessions_dispatch_all: "sessions (fold dispatch fs m) = sessions m"
  by (induction fs arbitrary: m) simp_all

lemma sessions_handles: "handles mdu sid c fs m m' \<Longrightarrow> sessions m' sid = sessions m sid"
  by (induction rule: handles.induct) (simp_all add: sessions_keep)

lemma sessions_receive_data: "receive_data d m = (fs, m') \<Longrightarrow> sessions m' = sessions m"
  by (auto simp: receive_data_def split: prod.splits)

text \<open>A relay ends by dropping its session. A task that is still there does not bring it back.\<close>

lemma relay_ended:
  assumes "relay_bidirectional_tcp sid c (m, r) (m', r')" "stage r = Ended \<longrightarrow> sessions m sid = None" "stage r' = Ended"
  shows "sessions m' sid = None"
  using assms(1) unfolding relay_bidirectional_tcp_def
  by cases (use assms(2,3) in \<open>auto simp: drop_session_def drop_receiver_def send_def send_frame_def recv_def Let_def
      end_task_simps split: if_splits list.splits\<close>)

definition client_dropped :: "u32 \<Rightarrow> 'l mux \<Rightarrow> client_task \<Rightarrow> bool" where
  "client_dropped sid m t \<longleftrightarrow> (\<forall>r. t = ClientRelays r \<longrightarrow> stage r = Ended \<longrightarrow> sessions m sid = None)"

definition exit_dropped :: "u32 \<Rightarrow> 'l mux \<Rightarrow> 's exit_task \<Rightarrow> bool" where
  "exit_dropped sid m t \<longleftrightarrow> (\<forall>c stream r. t = ExitRelays c stream r \<longrightarrow> stage r = Ended \<longrightarrow> sessions m sid = None)"

lemma client_dropped_step:
  assumes "client_step render mdu sid rx target (n, t) new (m, t')" "client_dropped sid n t"
  shows "client_dropped sid m t'"
  using assms(1)
proof cases
  case (relays r r')
  from relay_ended [OF relays(3)] assms(2) relays(1,2) show ?thesis by (simp add: client_dropped_def)
next
  case (others x)
  with sessions_foreign [OF others(2), of mdu n] assms(2) show ?thesis by (simp add: client_dropped_def)
qed (auto simp: client_dropped_def relay_start_def)

lemma exit_dropped_step:
  assumes "exit_step resolve connect cfg mdu sid l h (x, t) new (x', t')" "exit_dropped sid (muxes x ! h) t"
    and "server_inv x" "h < length (muxes x)" "\<forall>k. link_muxes x k = Some h \<longrightarrow> k = l"
  shows "exit_dropped sid (muxes x' ! h) t'"
  using assms(1)
proof cases
  case (handles_event e)
  with other_link_event [OF assms(3-5) handles_event(3,4), of sid] assms(2) show ?thesis by (simp add: elsewhere_def)
next
  case (resumes_other k f rest)
  with other_link_resume [OF assms(3,4) resumes_other(3-5), of sid] assms(2) show ?thesis by (simp add: elsewhere_def)
next
  case (other_links k op)
  with assms(2) show ?thesis by simp
next
  case (handles_session a c out m)
  then show ?thesis by (auto simp: exit_dropped_def relay_start_def split: option.splits)
next
  case (relays c r m r' stream)
  from relay_ended [OF relays(4)] relays(1-3) assms(2,4) show ?thesis by (simp add: exit_dropped_def)
next
  case (others op m)
  with sessions_foreign [OF others(3), of mdu "muxes x ! h"] assms(2,4) show ?thesis by (simp add: exit_dropped_def)
qed

lemma ended_dropped_step:
  fixes s :: "('l, 's) connection"
  assumes "connection_step resolve connect cfg render mdu sid rx l h target s s'"
    and "connection_inv sid rx l h addr con v s" "ended_dropped sid h s" "opens_tcp sid addr con"
  shows "ended_dropped sid h s'"
proof -
  from assms(2) have srv: "server_inv (exit_node s)" "link_muxes (exit_node s) l = Some h" by (simp_all add: connection_inv_def)
  note mx = inv_exit_mux [OF srv]
  have two: "ended_dropped sid h u \<longleftrightarrow> client_dropped sid (client_mux u) (client_task u) \<and> exit_dropped sid (exit_mux h u) (exit_task u)"
    for u :: "('l, 's) connection" by (simp add: ended_dropped_def client_dropped_def exit_dropped_def)
  from assms(1) show ?thesis
  proof cases
    case (client new m t)
    from client_dropped_step [OF client(2)] assms(3) client(1) show ?thesis by (simp add: two)
  next
    case (client_chunk w m)
    with assms(3) sender_chunk_keeps(2) [OF client_chunk(3)] show ?thesis by (simp add: ended_dropped_def)
  next
    case (client_data d w fs m)
    with assms(3) show ?thesis
      by (simp add: ended_dropped_def sessions_dispatch_all sessions_receive_data [OF client_data(3)])
  next
    case (exit new x t)
    have "\<forall>k. link_muxes (exit_node s) k = Some h \<longrightarrow> k = l" using assms(2) by (simp add: connection_inv_ends exit_inv_def)
    then have "exit_dropped sid (muxes x ! h) t"
      using assms(3) by (intro exit_dropped_step [OF exit(2) _ srv(1) mx(1)]) (simp_all add: two)
    with assms(3) exit(1) show ?thesis by (simp add: two)
  next
    case (exit_data d w fs m x)
    from exit_takes_data [OF exit_data(4) srv(2) exit_data(3)] mx(1) have "muxes x ! h = m" by simp
    with assms(3) exit_data(1) sessions_receive_data [OF exit_data(3)] show ?thesis by (simp add: ended_dropped_def)
  next
    case (exit_resumes f rest x new)
    from exit_resumes(3) obtain y where y: "server_frames h [f] ((exit_node s)\<lparr>backlog := rest\<rparr>) = Some x"
      using exit_resumes(2) by (auto simp: server_frames_one elim: server_resumeD)
    have "sessions (muxes x ! h) sid = sessions (exit_mux h s) sid" if relays: "exit_task s = ExitRelays c stream r" for c stream r
    proof -
      have inv': "connection_inv sid rx l h addr con v s'"
        unfolding exit_resumes(1) by (rule exit_resume_inv(1) [OF assms(2,4) exit_resumes(2-4)])
      with exit_resumes(1) have "client_said sid con (client_task s) (of_session sid (up_acc s))"
        by (simp add: connection_inv_def)
      moreover from delivered_prefix(1) [OF inv'] exit_resumes(1) have "prefix (of_session sid (up_done s @ [f])) (of_session sid (up_acc s))"
        by simp
      ultimately have "session_frames con (of_session sid (up_done s) @ of_session sid [f])"
        using client_said_frames session_frames_prefix by fastforce
      moreover from assms(2) relays have "of_session sid (up_done s) \<noteq> []" by (auto simp: connection_inv_def)
      ultimately have "\<forall>g\<in>set [f]. session_id g = sid \<longrightarrow> is_data g \<or> is_close g"
        by (cases "of_session sid (up_done s)") (auto simp: session_frames_def)
      from sessions_handles [OF server_frames_other(1) [OF y _ this, of 1 c]] mx(1) show ?thesis by simp
    qed
    with assms(3) exit_resumes(1) show ?thesis by (simp add: ended_dropped_def)
  next
    case (exit_chunk w m)
    with assms(3) sender_chunk_keeps(2) [OF exit_chunk(3)] mx(1) show ?thesis by (simp add: ended_dropped_def)
  qed (use assms(3) mx(1) in \<open>auto simp: ended_dropped_def sender_fields\<close>)
qed


section \<open>Runs of a relay\<close>

lemma client_relay_lift:
  assumes "relay_bidirectional_tcp sid rx (client_mux s, r) (m, r')" "client_task s = ClientRelays r" "tcp_ok sid r"
  shows "connection_step resolve connect cfg render mdu sid rx l h target s
    (s\<lparr>client_mux := m, up_acc := up_acc s @ drop (length (sent r)) (sent r'), client_task := ClientRelays r'\<rparr>)"
  using client_relay [OF assms(2,1)] relay_hands_over(2) [OF assms(1)] assms(3) by (simp add: tcp_ok_def)

lemma exit_relay_lift:
  assumes "relay_bidirectional_tcp sid c (exit_mux h s, r) (m, r')" "exit_task s = ExitRelays c stream r" "tcp_ok sid r"
  shows "connection_step resolve connect cfg render mdu sid rx l h target s
    (s\<lparr>exit_node := update_mux h m (exit_node s), down_acc := down_acc s @ drop (length (sent r)) (sent r'),
       exit_task := ExitRelays c stream r'\<rparr>)"
  using exit_relay [OF assms(2,1)] relay_hands_over(2) [OF assms(1)] assms(3) by (simp add: tcp_ok_def)


lemma client_relay_run:
  assumes "(relay_bidirectional_tcp sid rx)\<^sup>*\<^sup>* (client_mux s, r) (m, r')" "client_task s = ClientRelays r" "tcp_ok sid r"
  shows "(connection_step resolve connect cfg render mdu sid rx l h target)\<^sup>*\<^sup>* s
    (s\<lparr>client_mux := m, up_acc := up_acc s @ drop (length (sent r)) (sent r'), client_task := ClientRelays r'\<rparr>) \<and>
    tcp_ok sid r' \<and> (\<exists>new. sent r' = sent r @ new)"
  using assms(1)
proof (induction rule: rtranclp_induct2)
  case refl
  from assms(2) have "s\<lparr>client_task := ClientRelays r\<rparr> = s" by simp
  with assms(3) show ?case by simp
next
  case (step m1 r1 m2 r2)
  let ?s = "s\<lparr>client_mux := m1, up_acc := up_acc s @ drop (length (sent r)) (sent r1), client_task := ClientRelays r1\<rparr>"
  from step.IH have ok: "tcp_ok sid r1" and IH: "(connection_step resolve connect cfg render mdu sid rx l h target)\<^sup>*\<^sup>* s ?s"
    by simp_all
  from step.IH relay_hands_over(3) [OF step.hyps(2)] ok obtain n1 n2 where
    n: "sent r1 = sent r @ n1" "sent r2 = sent r1 @ n2" by (auto simp: tcp_ok_def)
  from step.hyps(2) have "relay_bidirectional_tcp sid rx (client_mux ?s, r1) (m2, r2)" by simp
  from client_relay_lift [OF this _ ok, of resolve connect cfg render mdu l h target] n
  have "connection_step resolve connect cfg render mdu sid rx l h target ?s
      (s\<lparr>client_mux := m2, up_acc := up_acc s @ drop (length (sent r)) (sent r2), client_task := ClientRelays r2\<rparr>)" by simp
  with IH tcp_ok_step [OF step.hyps(2) ok] n show ?case by auto
qed

lemma exit_relay_run:
  assumes "(relay_bidirectional_tcp sid c)\<^sup>*\<^sup>* (exit_mux h s, r) (m, r')" "exit_task s = ExitRelays c stream r" "tcp_ok sid r"
    and "h < length (muxes (exit_node s))"
  shows "(connection_step resolve connect cfg render mdu sid rx l h target)\<^sup>*\<^sup>* s
    (s\<lparr>exit_node := update_mux h m (exit_node s), down_acc := down_acc s @ drop (length (sent r)) (sent r'),
       exit_task := ExitRelays c stream r'\<rparr>) \<and>
    tcp_ok sid r' \<and> (\<exists>new. sent r' = sent r @ new)"
  using assms(1)
proof (induction rule: rtranclp_induct2)
  case refl
  from assms(2) have "s\<lparr>exit_task := ExitRelays c stream r\<rparr> = s" by simp
  with assms(3) show ?case by simp
next
  case (step m1 r1 m2 r2)
  let ?s = "s\<lparr>exit_node := update_mux h m1 (exit_node s), down_acc := down_acc s @ drop (length (sent r)) (sent r1),
    exit_task := ExitRelays c stream r1\<rparr>"
  from step.IH have ok: "tcp_ok sid r1" and IH: "(connection_step resolve connect cfg render mdu sid rx l h target)\<^sup>*\<^sup>* s ?s"
    by simp_all
  from step.IH relay_hands_over(3) [OF step.hyps(2)] ok obtain n1 n2 where
    n: "sent r1 = sent r @ n1" "sent r2 = sent r1 @ n2" by (auto simp: tcp_ok_def)
  from step.hyps(2) assms(4) have "relay_bidirectional_tcp sid c (exit_mux h ?s, r1) (m2, r2)" by simp
  from exit_relay_lift [OF this _ ok, of stream resolve connect cfg render mdu rx l target] n
  have "connection_step resolve connect cfg render mdu sid rx l h target ?s
      (s\<lparr>exit_node := update_mux h m2 (exit_node s), down_acc := down_acc s @ drop (length (sent r)) (sent r2),
         exit_task := ExitRelays c stream r2\<rparr>)" by simp
  with IH tcp_ok_step [OF step.hyps(2) ok] n show ?case by auto
qed

section \<open>A relay that has left its \<open>select!\<close> ends\<close>

text \<open>
  \<open>r'\<close> is \<open>r\<close> at its end: its tasks are stopped, it sent its CLOSE unless it had, and nothing else.
\<close>

definition ended_from :: "u32 \<Rightarrow> tcp_relay \<Rightarrow> tcp_relay \<Rightarrow> bool" where
  "ended_from sid r r' \<longleftrightarrow>
     stage r' = Ended \<and> written r' = written r \<and>
     sent r' = sent r @ (if stage r = Closing then [frame_new Close sid []] else [])"

lemma relay_finishes:
  assumes "stage r \<noteq> Relaying" "length (data_q m) < SENDER_CAPACITY"
  obtains m' r' where "(relay_bidirectional_tcp sid c)\<^sup>*\<^sup>* (m, r) (m', r')" "ended_from sid r r'"
  by (rule tcp_relay.stops_and_ends [OF assms, of sid c]) (rule that, simp_all add: ended_from_def)

lemma client_finishes:
  assumes "connection_inv sid rx l h addr con v s" "client_task s = ClientRelays r" "stage r \<noteq> Relaying"
  shows "\<exists>s' r'. (connection_step resolve connect cfg render mdu sid rx l h target)\<^sup>*\<^sup>* s s' \<and>
    client_task s' = ClientRelays r' \<and> ended_from sid r r' \<and> exit_task s' = exit_task s"
proof -
  from assms(1,2) have ok: "tcp_ok sid r" by (simp add: connection_inv_def)
  from sender_makes_room [of wire_send mdu "up_wire s" "client_mux s"] obtain w m where
    m: "(sender_task wire_send mdu)\<^sup>*\<^sup>* (up_wire s, client_mux s) (w, m)" "length (data_q m) < SENDER_CAPACITY" by blast
  let ?s1 = "s\<lparr>client_mux := m, up_wire := w\<rparr>"
  from relay_finishes [OF assms(3) m(2), of sid rx] obtain m1 r1 where
    r1: "(relay_bidirectional_tcp sid rx)\<^sup>*\<^sup>* (client_mux ?s1, r) (m1, r1)" "ended_from sid r r1" by auto
  from client_relay_run [OF r1(1) _ ok, of resolve connect cfg render mdu l h target] assms(2)
    rtranclp_trans [OF client_sends_run [OF m(1)]] r1(2) show ?thesis
    by (intro exI [of _ "?s1\<lparr>client_mux := m1, up_acc := up_acc s @ drop (length (sent r)) (sent r1), client_task := ClientRelays r1\<rparr>"]
        exI [of _ r1]) simp
qed

lemma exit_finishes:
  assumes "connection_inv sid rx l h addr con v s" "exit_task s = ExitRelays c stream r" "stage r \<noteq> Relaying"
  shows "\<exists>s' r'. (connection_step resolve connect cfg render mdu sid rx l h target)\<^sup>*\<^sup>* s s' \<and>
    exit_task s' = ExitRelays c stream r' \<and> ended_from sid r r' \<and> client_task s' = client_task s"
proof -
  from assms(1,2) have ok: "tcp_ok sid r" "h < length (muxes (exit_node s))"
    using inv_exit_mux(1) by (auto simp: connection_inv_def)
  from sender_makes_room [of wire_send mdu "down_wire s" "exit_mux h s"] obtain w m where
    m: "(sender_task wire_send mdu)\<^sup>*\<^sup>* (down_wire s, exit_mux h s) (w, m)" "length (data_q m) < SENDER_CAPACITY" by blast
  let ?s1 = "s\<lparr>exit_node := update_mux h m (exit_node s), down_wire := w\<rparr>"
  from relay_finishes [OF assms(3) m(2), of sid c] ok(2) obtain m1 r1 where
    r1: "(relay_bidirectional_tcp sid c)\<^sup>*\<^sup>* (exit_mux h ?s1, r) (m1, r1)" "ended_from sid r r1" by auto
  from exit_relay_run [OF r1(1) _ ok(1), of stream resolve connect cfg render mdu rx l target] assms(2) ok(2)
    rtranclp_trans [OF exit_sends_run [OF m(1) ok(2)]] r1(2) show ?thesis
    by (intro exI [of _ "?s1\<lparr>exit_node := update_mux h m1 (exit_node s),
        down_acc := down_acc s @ drop (length (sent r)) (sent r1), exit_task := ExitRelays c stream r1\<rparr>"]
        exI [of _ r1]) simp
qed

section \<open>A relay that hears the CLOSE\<close>

text \<open>It writes the DATA before the CLOSE, and leaves its \<open>select!\<close> at it.\<close>

lemma relay_hears_close:
  assumes "cq (chans m ! c) = fs @ f # rest" "\<forall>g\<in>set fs. is_data g" "is_close f" "c < length (chans m)"
    and "down r" "stage r = Relaying"
  shows "\<exists>m' r'. (relay_bidirectional_tcp sid c)\<^sup>*\<^sup>* (m, r) (m', r') \<and> stage r' = Closing \<and> sent r' = sent r \<and>
    written r' = written r @ map payload fs"
  using assms
proof (induction fs arbitrary: m r)
  case Nil
  obtain m1 where m1: "recv c m = (Got f, m1)" using Nil.prems(1) by (simp add: recv_def)
  let ?e = "end_down c (m1, r\<lparr>handled := handled r @ [f]\<rparr>)"
  have "rns_to_tcp f = Break" using Nil.prems(3) by (simp add: rns_to_tcp_def is_close_def)
  then have "relay_bidirectional_tcp sid c (m, r) ?e"
    unfolding relay_bidirectional_tcp_def by (rule down_break [OF Nil.prems(5) m1])
  moreover obtain m2 r2 where "?e = (m2, r2)" by fastforce
  moreover from this Nil.prems(6) have "stage r2 = Closing" "sent r2 = sent r" "written r2 = written r"
    by (auto simp: end_down_def leave_select_def)
  ultimately show ?case by (intro exI [of _ m2] exI [of _ r2]) (simp add: r_into_rtranclp)
next
  case (Cons g fs)
  let ?m = "m\<lparr>chans := (chans m)[c := (chans m ! c)\<lparr>cq := fs @ f # rest\<rparr>]\<rparr>"
  let ?r = "r\<lparr>written := written r @ [payload g], handled := handled r @ [g]\<rparr>"
  have m1: "recv c m = (Got g, ?m)" using Cons.prems(1) by (simp add: recv_def)
  have "rns_to_tcp g = Write (payload g)" using Cons.prems(2) by (simp add: rns_to_tcp_def is_data_def)
  then have 1: "relay_bidirectional_tcp sid c (m, r) (?m, ?r)"
    unfolding relay_bidirectional_tcp_def
    by (intro down_write [OF Cons.prems(5) _ m1]) (simp_all add: lock_free_def)
  have "\<exists>m' r'. (relay_bidirectional_tcp sid c)\<^sup>*\<^sup>* (?m, ?r) (m', r') \<and> stage r' = Closing \<and> sent r' = sent ?r \<and>
      written r' = written ?r @ map payload fs"
    by (rule Cons.IH) (use Cons.prems in simp_all)
  then obtain m' r' where "(relay_bidirectional_tcp sid c)\<^sup>*\<^sup>* (?m, ?r) (m', r')" "stage r' = Closing" "sent r' = sent r"
    "written r' = written r @ payload g # map payload fs" by auto
  with converse_rtranclp_into_rtranclp [OF 1 this(1)] show ?case by (intro exI [of _ m'] exI [of _ r']) simp
qed

section \<open>The CLOSE of the other end\<close>

text \<open>What is queued for a relay when all frames of an ended one have arrived.\<close>

lemma queue_with_close:
  assumes "tcp_ok sid r" "stage r = Ended" "tcp_ok sid r'" "stage r' = Relaying" "far_ok sid c (sent r) m r'"
  obtains fs f rest where "cq (chans m ! c) = fs @ f # rest" "\<forall>g\<in>set fs. is_data g" "is_close f" "c < length (chans m)"
    "written r' @ map payload fs = map payload (before_close (sent r))"
proof -
  note down = tcp_okD(3) [OF assms(3,4)]
  note ok = far_okD [OF assms(5)] and own = tcp_okD(1) [OF assms(1)]
  from before_close_split [OF own] assms(2) obtain rest where
    rest: "sent r = before_close (sent r) @ frame_new Close sid [] # rest" by blast
  from handled_before_close [OF ok(2) own tcp_okD(4) [OF assms(3) down]] obtain fs where
    fs: "before_close (sent r) = handled r' @ fs" by blast
  have "handled r' @ cq (chans m ! c) = handled r' @ fs @ frame_new Close sid [] # rest"
    using ok(6) [OF down ok(7) [OF down]] assms(4) rest fs by simp
  then have "cq (chans m ! c) = fs @ frame_new Close sid [] # rest" by simp
  moreover have data: "\<forall>g\<in>set (handled r' @ fs). is_data g"
    unfolding fs [symmetric] before_close_def by (meson set_takeWhileD)
  moreover from this have "written r' @ map payload fs = map payload (before_close (sent r))"
    using tcp_okD(5) [OF assms(3) down] fs by (simp add: filter_id_conv)
  moreover from ok(3) [OF down] have "c < length (chans m)" by (simp add: feeds_def)
  ultimately show thesis using that [of fs "frame_new Close sid []" rest] by simp
qed

lemma exit_hears_close:
  assumes "connection_inv sid rx l h addr con v s" "client_task s = ClientRelays r" "exit_task s = ExitRelays c stream r'"
    and "stage r = Ended" "stage r' = Relaying" "up_done s = up_acc s"
  shows "\<exists>s' q. (connection_step resolve connect cfg render mdu sid rx l h target)\<^sup>*\<^sup>* s s' \<and>
    client_task s' = ClientRelays r \<and> exit_task s' = ExitRelays c stream q \<and> stage q = Closing \<and>
    written q = map payload (before_close (sent r)) \<and> sent q = sent r'"
proof -
  note relays = connection_relays [OF assms(1,3,2)]
  from assms(1,2,3,6) have ok: "far_ok sid c (sent r) (exit_mux h s) r'" by (auto simp: connection_inv_def)
  from assms(1) have len: "h < length (muxes (exit_node s))" using inv_exit_mux(1) by (auto simp: connection_inv_def)
  from queue_with_close [OF relays(1) assms(4) relays(2) assms(5) ok] obtain fs f rest where
    q: "cq (chans (exit_mux h s) ! c) = fs @ f # rest" "\<forall>g\<in>set fs. is_data g" "is_close f" "c < length (chans (exit_mux h s))"
      "written r' @ map payload fs = map payload (before_close (sent r))" .
  from relay_hears_close [OF q(1-4) tcp_okD(3) [OF relays(2) assms(5)] assms(5), of sid] obtain m q' where
    run: "(relay_bidirectional_tcp sid c)\<^sup>*\<^sup>* (exit_mux h s, r') (m, q')" and
    q': "stage q' = Closing" "sent q' = sent r'" "written q' = written r' @ map payload fs" by blast
  from exit_relay_run [OF run assms(3) relays(2) len, of resolve connect cfg render mdu rx l target] q' q(5) assms(2)
  show ?thesis
    by (intro exI [of _ "s\<lparr>exit_node := update_mux h m (exit_node s), exit_task := ExitRelays c stream q'\<rparr>"] exI [of _ q']) simp
qed

lemma client_hears_close:
  assumes "connection_inv sid rx l h addr con v s" "client_task s = ClientRelays r" "exit_task s = ExitRelays c stream r'"
    and "stage r' = Ended" "stage r = Relaying" "down_del s = down_acc s"
  shows "\<exists>s' q. (connection_step resolve connect cfg render mdu sid rx l h target)\<^sup>*\<^sup>* s s' \<and>
    exit_task s' = ExitRelays c stream r' \<and> client_task s' = ClientRelays q \<and> stage q = Closing \<and>
    written q = map payload (before_close (sent r')) \<and> sent q = sent r"
proof -
  note relays = connection_relays [OF assms(1,3,2)]
  from assms(1,2,3,6) have ok: "far_ok sid rx (sent r') (client_mux s) r" by (auto simp: connection_inv_def)
  from queue_with_close [OF relays(2) assms(4) relays(1) assms(5) ok] obtain fs f rest where
    q: "cq (chans (client_mux s) ! rx) = fs @ f # rest" "\<forall>g\<in>set fs. is_data g" "is_close f" "rx < length (chans (client_mux s))"
      "written r @ map payload fs = map payload (before_close (sent r'))" .
  from relay_hears_close [OF q(1-4) tcp_okD(3) [OF relays(1) assms(5)] assms(5), of sid] obtain m q' where
    run: "(relay_bidirectional_tcp sid rx)\<^sup>*\<^sup>* (client_mux s, r) (m, q')" and
    q': "stage q' = Closing" "sent q' = sent r" "written q' = written r @ map payload fs" by blast
  from client_relay_run [OF run assms(2) relays(1), of resolve connect cfg render mdu l h target] q' q(5) assms(3)
  show ?thesis by (intro exI [of _ "s\<lparr>client_mux := m, client_task := ClientRelays q'\<rparr>"] exI [of _ q']) simp
qed

section \<open>Both ends\<close>

lemma ended_dropped_run:
  assumes "served resolve connect cfg render mdu target host port" "connection_start sid rx l h s0"
    and "(connection_step resolve connect cfg render mdu sid rx l h target)\<^sup>*\<^sup>* s0 s"
  shows "ended_dropped sid h s"
  using assms(3)
proof (induction rule: rtranclp_induct)
  case base
  from assms(2) show ?case by (simp add: ended_dropped_def connection_start_def)
next
  case (step s1 s2)
  from assms(1) have "opens_tcp sid (Domain host port) (connect_frame sid host port)"
    using connect_frame_opens(1) by (simp add: served_def)
  from ended_dropped_step [OF step.hyps(2) served_run [OF assms(1,2) step.hyps(1)] step.IH this] show ?case .
qed

text \<open>What a relay that is stopped had sent before its CLOSE, it has sent before its CLOSE.\<close>

lemma ended_from_before:
  assumes "ended_from sid r r'" "own_frames sid r"
  shows "before_close (sent r') = before_close (sent r)"
proof (cases "stage r = Closing")
  case True
  with before_close_all [OF assms(2)] have all: "before_close (sent r) = sent r" by blast
  then have "\<forall>f\<in>set (sent r). is_data f" by (simp add: before_close_def takeWhile_eq_all_conv)
  with True assms(1) have "before_close (sent r') = sent r" by (simp add: ended_from_def before_close_def)
  with all show ?thesis by simp
qed (use assms(1) in \<open>simp add: ended_from_def\<close>)

text \<open>The client left first, or both did.\<close>

lemma client_ends_first:
  assumes "served resolve connect cfg render mdu target host port"
    and "connection_inv sid rx l h (Domain host port) (connect_frame sid host port)
      (exit_verdict resolve connect (Domain host port) cfg) s"
    and "client_task s = ClientRelays r" "exit_task s = ExitRelays c stream r'" "stage r \<noteq> Relaying"
  shows "\<exists>s' q q'. (connection_step resolve connect cfg render mdu sid rx l h target)\<^sup>*\<^sup>* s s' \<and>
    client_task s' = ClientRelays q \<and> exit_task s' = ExitRelays c stream q' \<and> stage q = Ended \<and> stage q' = Ended \<and>
    (stage r' = Relaying \<longrightarrow> written q' = map payload (before_close (sent r)))"
proof -
  let ?R = "connection_step resolve connect cfg render mdu sid rx l h target"
  note inv = served_more [OF assms(1) _ assms(2)]
  from client_finishes [OF assms(2,3,5)] obtain s1 r1 where s1: "?R\<^sup>*\<^sup>* s s1" "client_task s1 = ClientRelays r1"
    "ended_from sid r r1" "exit_task s1 = exit_task s" by blast
  from up_drains [OF assms(1) inv [OF s1(1)]] obtain s2 where s2: "?R\<^sup>*\<^sup>* s1 s2" "same_tasks sid s1 s2" "up_done s2 = up_acc s2"
    by blast
  with s1(2,4) assms(4) have t2: "client_task s2 = ClientRelays r1" "exit_task s2 = ExitRelays c stream r'"
    by (simp_all add: same_tasks_def)
  from ended_from_before [OF s1(3)] connection_relays(1) [OF assms(2,4,3)]
  have before: "before_close (sent r1) = before_close (sent r)" by (blast dest: tcp_okD(1))
  from s1(1) s2(1) have run2: "?R\<^sup>*\<^sup>* s s2" by (rule rtranclp_trans)
  have "\<exists>s3 q. ?R\<^sup>*\<^sup>* s2 s3 \<and> client_task s3 = ClientRelays r1 \<and> exit_task s3 = ExitRelays c stream q \<and> stage q \<noteq> Relaying \<and>
      (stage r' = Relaying \<longrightarrow> written q = map payload (before_close (sent r)))"
  proof (cases "stage r' = Relaying")
    case True
    with exit_hears_close [OF inv [OF run2] t2 _ _ s2(3), of resolve connect cfg render mdu target] s1(3) before
    show ?thesis by (fastforce simp: ended_from_def)
  next
    case False
    with t2 show ?thesis by (intro exI [of _ s2] exI [of _ r']) simp
  qed
  then obtain s3 q where s3: "?R\<^sup>*\<^sup>* s2 s3" "client_task s3 = ClientRelays r1" "exit_task s3 = ExitRelays c stream q"
    "stage q \<noteq> Relaying" "stage r' = Relaying \<longrightarrow> written q = map payload (before_close (sent r))" by blast
  from run2 s3(1) have run3: "?R\<^sup>*\<^sup>* s s3" by (rule rtranclp_trans)
  from exit_finishes [OF inv [OF run3] s3(3,4)] obtain s4 q' where s4: "?R\<^sup>*\<^sup>* s3 s4" "exit_task s4 = ExitRelays c stream q'"
    "ended_from sid q q'" "client_task s4 = client_task s3" by blast
  from rtranclp_trans [OF run3 s4(1)] s3(2,5) s4(2-4) s1(3) show ?thesis
    by (intro exI [of _ s4] exI [of _ r1] exI [of _ q']) (simp add: ended_from_def)
qed

text \<open>Only the exit node left.\<close>

lemma exit_ends_first:
  assumes "served resolve connect cfg render mdu target host port"
    and "connection_inv sid rx l h (Domain host port) (connect_frame sid host port)
      (exit_verdict resolve connect (Domain host port) cfg) s"
    and "client_task s = ClientRelays r" "exit_task s = ExitRelays c stream r'" "stage r = Relaying" "stage r' \<noteq> Relaying"
  shows "\<exists>s' q q'. (connection_step resolve connect cfg render mdu sid rx l h target)\<^sup>*\<^sup>* s s' \<and>
    client_task s' = ClientRelays q \<and> exit_task s' = ExitRelays c stream q' \<and> stage q = Ended \<and> stage q' = Ended \<and>
    written q = map payload (before_close (sent r'))"
proof -
  let ?R = "connection_step resolve connect cfg render mdu sid rx l h target"
  note inv = served_more [OF assms(1) _ assms(2)]
  from exit_finishes [OF assms(2,4,6)] obtain s1 r1 where s1: "?R\<^sup>*\<^sup>* s s1" "exit_task s1 = ExitRelays c stream r1"
    "ended_from sid r' r1" "client_task s1 = client_task s" by blast
  from down_drains [OF assms(1) inv [OF s1(1)]] obtain s2 where s2: "?R\<^sup>*\<^sup>* s1 s2" "same_tasks sid s1 s2" "down_del s2 = down_acc s2"
    by blast
  with s1(2,4) assms(3) have t2: "client_task s2 = ClientRelays r" "exit_task s2 = ExitRelays c stream r1"
    by (simp_all add: same_tasks_def)
  from ended_from_before [OF s1(3)] connection_relays(2) [OF assms(2,4,3)]
  have before: "before_close (sent r1) = before_close (sent r')" by (blast dest: tcp_okD(1))
  from s1(1) s2(1) have run2: "?R\<^sup>*\<^sup>* s s2" by (rule rtranclp_trans)
  from client_hears_close [OF inv [OF run2] t2 _ assms(5) s2(3), of resolve connect cfg render mdu target] s1(3) before
  obtain s3 q where s3: "?R\<^sup>*\<^sup>* s2 s3" "exit_task s3 = ExitRelays c stream r1" "client_task s3 = ClientRelays q"
    "stage q \<noteq> Relaying" "written q = map payload (before_close (sent r'))" by (fastforce simp: ended_from_def)
  from run2 s3(1) have run3: "?R\<^sup>*\<^sup>* s s3" by (rule rtranclp_trans)
  from client_finishes [OF inv [OF run3] s3(3,4)] obtain s4 q' where s4: "?R\<^sup>*\<^sup>* s3 s4" "client_task s4 = ClientRelays q'"
    "ended_from sid q q'" "exit_task s4 = exit_task s3" by blast
  from rtranclp_trans [OF run3 s4(1)] s3(2,5) s4(2-4) s1(3) show ?thesis
    by (intro exI [of _ s4] exI [of _ q'] exI [of _ r1]) (simp add: ended_from_def)
qed

lemma both_end:
  assumes "served resolve connect cfg render mdu target host port" "connection_start sid rx l h s0"
    and run: "(connection_step resolve connect cfg render mdu sid rx l h target)\<^sup>*\<^sup>* s0 s"
    and "client_task s = ClientRelays r" "exit_task s = ExitRelays c stream r'"
    and "stage r \<noteq> Relaying \<or> stage r' \<noteq> Relaying"
  shows "\<exists>s' q q'. (connection_step resolve connect cfg render mdu sid rx l h target)\<^sup>*\<^sup>* s s' \<and>
    client_task s' = ClientRelays q \<and> exit_task s' = ExitRelays c stream q' \<and> stage q = Ended \<and> stage q' = Ended \<and>
    sessions (client_mux s') sid = None \<and> sessions (exit_mux h s') sid = None \<and>
    (stage r' = Relaying \<longrightarrow> written q' = map payload (before_close (sent r))) \<and>
    (stage r = Relaying \<longrightarrow> written q = map payload (before_close (sent r')))"
proof -
  let ?R = "connection_step resolve connect cfg render mdu sid rx l h target"
  note inv = served_run [OF assms(1-3)]
  have "\<exists>s' q q'. ?R\<^sup>*\<^sup>* s s' \<and> client_task s' = ClientRelays q \<and> exit_task s' = ExitRelays c stream q' \<and>
      stage q = Ended \<and> stage q' = Ended \<and>
      (stage r' = Relaying \<longrightarrow> written q' = map payload (before_close (sent r))) \<and>
      (stage r = Relaying \<longrightarrow> written q = map payload (before_close (sent r')))"
  proof (cases "stage r = Relaying")
    case True
    with exit_ends_first [OF assms(1) inv assms(4,5)] assms(6) show ?thesis by auto
  next
    case False
    with client_ends_first [OF assms(1) inv assms(4,5)] show ?thesis by auto
  qed
  then obtain s' q q' where s': "?R\<^sup>*\<^sup>* s s'" "client_task s' = ClientRelays q" "exit_task s' = ExitRelays c stream q'"
    "stage q = Ended" "stage q' = Ended" "stage r' = Relaying \<longrightarrow> written q' = map payload (before_close (sent r))"
    "stage r = Relaying \<longrightarrow> written q = map payload (before_close (sent r'))" by blast
  from ended_dropped_run [OF assms(1,2) rtranclp_trans [OF run s'(1)]] s'(2-5)
  have "sessions (client_mux s') sid = None" "sessions (exit_mux h s') sid = None" by (simp_all add: ended_dropped_def)
  with s' show ?thesis by blast
qed

text \<open>The client's socket closes.\<close>

lemma client_leaves:
  assumes "client_task s = ClientRelays r" "up r = Reading" "stage r = Relaying"
  shows "\<exists>r'. connection_step resolve connect cfg render mdu sid rx l h target s
      (s\<lparr>client_task := ClientRelays r'\<rparr>) \<and> stage r' = Closing \<and> sent r' = sent r"
proof -
  have "tcp_to_rns sid (ReadOk []) = UpBreak" by (simp add: tcp_to_rns_def)
  with assms(2) have "relay_bidirectional_tcp sid rx (client_mux s, r) (end_up (client_mux s, r\<lparr>cell := ()\<rparr>))"
    unfolding relay_bidirectional_tcp_def by (intro read_end [of r _ "ReadOk []"]) (simp_all add: fits_def)
  moreover have "r\<lparr>cell := ()\<rparr> = r" by (cases r) simp
  ultimately have step: "relay_bidirectional_tcp sid rx (client_mux s, r) (client_mux s, r\<lparr>up := UpDone, stage := Closing\<rparr>)"
    using assms(3) by (simp add: end_up_def leave_select_def)
  from client_relay [OF assms(1) step, of "[]" resolve connect cfg render mdu l h target] show ?thesis
    by (intro exI [of _ "r\<lparr>up := UpDone, stage := Closing\<rparr>"]) (simp add: hands_over_def)
qed

end
