(* ===== verification/Stranded.thy ===== *)
theory Stranded
  imports Lifecycle_Liveness
begin

text \<open>
  Sessions of the exit node that their client knows nothing of: a client that does not wait for
  the answer, or cannot hear it, sends no CLOSE, so the exit node keeps the connection to the
  target for as long as the target does.
\<close>

section \<open>A client that gave up\<close>

lemma gave_up_step:
  assumes "connection_step resolve connect cfg render mdu sid rx l h target s s'" "client_task s = GaveUp result"
  shows "client_task s' = GaveUp result"
  using assms(1)
proof cases
  case (client new m t)
  from client(2) assms(2) have "t = GaveUp result" by cases simp_all
  with client(1) show ?thesis by simp
qed (use assms(2) in simp_all)

lemma gave_up_run:
  assumes "(connection_step resolve connect cfg render mdu sid rx l h target)\<^sup>*\<^sup>* s s'" "client_task s = GaveUp result"
  shows "client_task s' = GaveUp result"
  using assms by (induction rule: rtranclp_induct) (simp_all add: gave_up_step)

text \<open>Nothing follows its CONNECT, so the relay of the exit node never hears anything.\<close>

lemma gave_up_silent:
  assumes "connection_inv sid rx l h addr con v s" "client_task s = GaveUp (Inl err)" "exit_task s = ExitRelays c stream r"
  shows "of_session sid (up_acc s) = [con]" "handled r = []" "written r = []"
    and "down r \<Longrightarrow> stage r \<noteq> Ended \<Longrightarrow> recv c (exit_mux h s) = (Pending, exit_mux h s)"
proof -
  from assms(1,2) show out: "of_session sid (up_acc s) = [con]" by (simp add: connection_inv_def)
  from assms(1,3) obtain rest where rest: "of_session sid (up_done s) = con # rest" "far_ok sid c rest (exit_mux h s) r"
    "tcp_ok sid r" by (auto simp: connection_inv_def)
  from rest(1) delivered_prefix(1) [OF assms(1)] out have "rest = []" by simp
  with rest(2) have ok: "far_ok sid c [] (exit_mux h s) r" by simp
  from far_okD(2) [OF this] have none: "handled r = []" "failed r = []" by simp_all
  then show "handled r = []" by simp
  from none tcp_okD(2) [OF rest(3)] show "written r = []" by (simp add: tcp_written_def)
  show "recv c (exit_mux h s) = (Pending, exit_mux h s)" if "down r" "stage r \<noteq> Ended"
    using far_okD(6,7) [OF ok that(1)] that(2) by (simp add: recv_def)
qed

text \<open>A relay with nothing to hear leaves its \<open>select!\<close> only when its own socket ends.\<close>

lemma unheard_relay_step:
  assumes "relay_bidirectional_tcp sid c (m, r) (m', r')" "recv c m = (Pending, m)" "stage r = Relaying"
  shows "stage r' = Relaying \<or> up r = Reading \<and> (m', r') = end_up (m, r)"
proof -
  have cell: "r\<lparr>cell := x\<rparr> = r" for x by (cases r) simp
  from assms(1) show ?thesis
    unfolding relay_bidirectional_tcp_def by cases (use assms(2,3) cell in auto)
qed

lemma exit_relays_step:
  assumes "connection_step resolve connect cfg render mdu sid rx l h target s s'" "exit_task s = ExitRelays c stream r"
  shows "\<exists>r'. exit_task s' = ExitRelays c stream r'"
  using assms(1)
proof cases
  case (exit new x t)
  from exit(2) assms(2) have "\<exists>r'. t = ExitRelays c stream r'" by cases simp_all
  with exit(1) show ?thesis by simp
qed (use assms(2) in simp_all)

lemma exit_relays_run:
  assumes "(connection_step resolve connect cfg render mdu sid rx l h target)\<^sup>*\<^sup>* s s'" "exit_task s = ExitRelays c stream r"
  shows "\<exists>r'. exit_task s' = ExitRelays c stream r'"
  using assms by (induction rule: rtranclp_induct) (auto dest: exit_relays_step)

text \<open>It really happens: the client times out before the exit node has connected.\<close>

lemma client_times_out:
  assumes "connection_inv sid rx l h addr con v s" "client_task s = Awaiting" "exit_task s = NotRun"
  shows "\<exists>m. connection_step resolve connect cfg render mdu sid rx l h target s
    (s\<lparr>client_mux := m, client_task := GaveUp (Inl (str_bytes ''Timeout''))\<rparr>)"
proof -
  from assms(1,3) delivered_prefix(2) [OF assms(1)] have "of_session sid (down_del s) = []" by (simp add: connection_inv_def)
  with assms(1,2) have ok: "far_ok sid rx [] (client_mux s) (relay_start () :: tcp_relay)" by (simp add: connection_inv_def)
  from far_okD(6,7) [OF ok] have "cq (chans (client_mux s) ! rx) = []" "tx_alive (chans (client_mux s) ! rx)"
    by (simp_all add: relay_start_def)
  then obtain m1 where m1: "await_reply rx (client_mux s) = (Waiting, m1)" "data_q m1 = data_q (client_mux s)"
    by (simp add: await_reply_def)
  let ?result = "Inl (str_bytes ''Timeout'') :: bytes + unit"
  have "handle_socks5_session sid rx (Requested TCPConnect) ?result True True m1 = Some (None, NoReply, drop_receiver rx m1)"
    by (simp add: handle_tcp_connect_def end_session_def)
  moreover have "hands_over (client_mux s) [] (drop_receiver rx m1)"
    using m1(2) by (simp add: hands_over_def drop_receiver_def)
  moreover have "connect_result True Waiting = Some ?result" by (simp add: connect_result_def)
  ultimately have "connection_step resolve connect cfg render mdu sid rx l h target s
      (s\<lparr>client_mux := drop_receiver rx m1, up_acc := up_acc s @ [], client_task := GaveUp ?result\<rparr>)"
    using client_decides [OF assms(2) m1(1)] by fastforce
  then show ?thesis by auto
qed

lemma session_strands:
  assumes "served resolve connect cfg render mdu target host port" "connection_start sid rx l h s0" "link_idle h s0"
    and "exit_verdict resolve connect (Domain host port) cfg = Inr stream"
  shows "\<exists>s c. (connection_step resolve connect cfg render mdu sid rx l h target)\<^sup>*\<^sup>* s0 s \<and>
    client_task s = GaveUp (Inl (str_bytes ''Timeout'')) \<and> exit_task s = ExitRelays c stream (relay_start ())"
proof -
  let ?R = "connection_step resolve connect cfg render mdu sid rx l h target"
  from request_arrives [OF assms(1-3)] obtain s1 c where s1: "?R\<^sup>*\<^sup>* s0 s1"
    "connection_inv sid rx l h (Domain host port) (connect_frame sid host port) (exit_verdict resolve connect (Domain host port) cfg) s1"
    "client_task s1 = Awaiting" "exit_task s1 = NotRun" "data_q (exit_mux h s1) = []"
    "SessionTcp h sid (Domain host port) c \<in> set (tasks (exit_node s1))" by blast
  from client_times_out [OF s1(2-4), of resolve connect cfg render mdu target] obtain m where
    step: "?R s1 (s1\<lparr>client_mux := m, client_task := GaveUp (Inl (str_bytes ''Timeout''))\<rparr>)" by blast
  let ?s = "s1\<lparr>client_mux := m, client_task := GaveUp (Inl (str_bytes ''Timeout''))\<rparr>"
  have vok: "verdict_ok (exit_verdict resolve connect (Domain host port) cfg)" using assms(1) by (simp add: served_def)
  from handler_runs [OF served_step [OF assms(1) s1(2) step] vok refl] s1(4-6) obtain s2 where s2: "?R ?s s2"
    "client_task s2 = GaveUp (Inl (str_bytes ''Timeout''))" "exit_task s2 = ExitRelays c stream (relay_start ())"
    by (force simp: assms(4) verdict_task_def)
  from s1(1) step s2(1) have "?R\<^sup>*\<^sup>* s0 s2" by (meson rtranclp.rtrancl_into_rtrancl)
  with s2(2,3) show ?thesis by blast
qed

text \<open>What the exit node is left with, for good.\<close>

lemma stranded_for_good:
  assumes "served resolve connect cfg render mdu target host port" "connection_start sid rx l h s0"
    and "(connection_step resolve connect cfg render mdu sid rx l h target)\<^sup>*\<^sup>* s0 s"
    and "client_task s = GaveUp (Inl err)" "exit_task s = ExitRelays c stream r"
  shows "of_session sid (up_acc s) = [connect_frame sid host port] \<and> written r = [] \<and>
    (stage r = Relaying \<longrightarrow> (\<forall>m q. relay_bidirectional_tcp sid c (exit_mux h s, r) (m, q) \<longrightarrow>
       stage q = Relaying \<or> up r = Reading \<and> (m, q) = end_up (exit_mux h s, r)))"
proof -
  note inv = served_run [OF assms(1-3)]
  note silent = gave_up_silent [OF inv assms(4,5)]
  from inv assms(5) have "tcp_ok sid r" by (simp add: connection_inv_def)
  then have "stage r = Relaying \<Longrightarrow> recv c (exit_mux h s) = (Pending, exit_mux h s)"
    by (intro silent(4) tcp_okD(3)) simp_all
  with silent(1,3) unheard_relay_step show ?thesis by blast
qed

section \<open>A request that crosses the loss of its link\<close>

text \<open>
  \<open>reset\<close> ends all sessions of the client, also those whose SOCKS5 handshake is not over. Such
  a session still asks for its target, on the next link.
\<close>

lemma late_request:
  assumes "sessions m sid = Some c" "c < length (chans m)" "\<forall>f\<in>set (cq (chans m ! c)). \<not> decides f"
    and "render target = (host, port)" "connect_tcp_server_side render sid target (set_link_id l (reset m)) = Some m1"
  shows "\<exists>m2. await_reply c m1 = (Decided (Inl (str_bytes ''channel closed'')), m2) \<and>
    handle_socks5_session sid c (Requested TCPConnect) (Inl (str_bytes ''channel closed'')) bind_ok reply_ok m2 =
      Some (None, NoReply, drop_receiver c m2) \<and>
    data_q (drop_receiver c m2) = data_q m @ [encode (connect_frame sid host port)] \<and>
    sessions (drop_receiver c m2) sid = None \<and>
    (\<forall>fs. (\<forall>f\<in>set fs. session_id f = sid) \<longrightarrow> fold dispatch fs (drop_receiver c m2) = drop_receiver c m2)"
proof -
  from assms(4,5) have m1: "data_q m1 = data_q m @ [encode (connect_frame sid host port)]" "sessions m1 = Map.empty"
    "chans m1 = map close_tx (chans m)"
    by (auto simp: connect_tcp_server_side_def send_def send_frame_def connect_frame_def set_link_id_def reset_def
        split: if_splits)
  with assms(2) have c: "cq (chans m1 ! c) = cq (chans m ! c)" "\<not> tx_alive (chans m1 ! c)"
    by (simp_all add: close_tx_def)
  obtain m2 where m2: "await_reply c m1 = (Decided (Inl (str_bytes ''channel closed'')), m2)"
    "data_q m2 = data_q m1" "sessions m2 = sessions m1"
    using c await_queue_none [OF assms(3)] by (simp add: await_reply_def)
  have deaf: "sessions n sid = None \<Longrightarrow> \<forall>f\<in>set fs. session_id f = sid \<Longrightarrow> fold dispatch fs n = n" for fs and n :: "'a mux"
    by (induction fs) (auto simp: dispatch_def)
  from m2 m1(1,2) show ?thesis
    by (intro exI [of _ m2]) (auto simp: handle_tcp_connect_def end_session_def drop_receiver_def intro!: deaf)
qed

end
