(* ===== verification/Link_Loss.thy ===== *)
theory Link_Loss
  imports Lifecycle_Liveness Session_End
begin

text \<open>
  A TCP session whose link is lost at any time: both ends learn of it when they do, the client
  ends its sessions (\<open>reset\<close>) and gets a new link, the exit node forgets the old one
  (\<open>LinkClosed\<close>), and both tasks go on as if nothing had happened.
\<close>

section \<open>The steps\<close>

text \<open>\<open>LinkDown\<close> says whether the client has reset its multiplexer.\<close>

datatype link_phase = LinkUp | LinkDown bool

text \<open>
  With the link what is on it is lost. After that each end moves on its own: its tasks, its link
  sender, whose pieces reach the session no more whether the link takes them or not
  (\<open>OpTakeUp\<close>, \<open>OpChunk\<close>), and its event loop, which first goes through the frames it still
  holds. The reason that comes with a closed link is only logged. Only after its reset does the client have a
  new link and take data from it, and that may be anything.
\<close>

inductive lossy_step ::
  "(target_addr \<Rightarrow> target_addr option) \<Rightarrow> (socket_addr \<Rightarrow> bytes + 's) \<Rightarrow> filter_config
     \<Rightarrow> (target_addr \<Rightarrow> bytes \<times> u16) \<Rightarrow> nat \<Rightarrow> u32 \<Rightarrow> nat \<Rightarrow> 'l \<Rightarrow> nat \<Rightarrow> target_addr
     \<Rightarrow> link_phase \<times> ('l, 's) connection \<Rightarrow> link_phase \<times> ('l, 's) connection \<Rightarrow> bool"
  for resolve :: "target_addr \<Rightarrow> target_addr option" and connect :: "socket_addr \<Rightarrow> bytes + 's"
    and cfg :: filter_config and render :: "target_addr \<Rightarrow> bytes \<times> u16" and mdu :: nat and sid :: u32
    and rx :: nat and l :: 'l and h :: nat and target :: target_addr where
  up: "connection_step resolve connect cfg render mdu sid rx l h target s s' \<Longrightarrow>
     lossy_step resolve connect cfg render mdu sid rx l h target (LinkUp, s) (LinkUp, s')"
| loss: "lossy_step resolve connect cfg render mdu sid rx l h target
     (LinkUp, s) (LinkDown False, s\<lparr>up_wire := [], down_wire := []\<rparr>)"
| client_goes_on: "client_step render mdu sid rx target (client_mux s, client_task s) new (m, t) \<Longrightarrow>
     lossy_step resolve connect cfg render mdu sid rx l h target
       (LinkDown b, s) (LinkDown b, s\<lparr>client_mux := m, up_acc := up_acc s @ new, client_task := t\<rparr>)"
| client_sender: "x = OpTakeUp \<or> x = OpChunk ok \<Longrightarrow> snd (mux_step mdu x (client_mux s)) = m \<Longrightarrow>
     lossy_step resolve connect cfg render mdu sid rx l h target (LinkDown b, s) (LinkDown b, s\<lparr>client_mux := m\<rparr>)"
| client_resets: "lossy_step resolve connect cfg render mdu sid rx l h target
     (LinkDown b, s) (LinkDown True, s\<lparr>client_mux := reset (client_mux s)\<rparr>)"
| client_relinks: "lossy_step resolve connect cfg render mdu sid rx l h target
     (LinkDown True, s) (LinkDown True, s\<lparr>client_mux := set_link_id l' (client_mux s)\<rparr>)"
| client_new_data: "receive_data d (client_mux s) = (fs, m) \<Longrightarrow>
     lossy_step resolve connect cfg render mdu sid rx l h target
       (LinkDown True, s) (LinkDown True, s\<lparr>client_mux := fold dispatch fs m\<rparr>)"
| exit_goes_on: "exit_step resolve connect cfg mdu sid l h (exit_node s, exit_task s) new (x, t) \<Longrightarrow>
     lossy_step resolve connect cfg render mdu sid rx l h target
       (LinkDown b, s) (LinkDown b, s\<lparr>exit_node := x, down_acc := down_acc s @ new, exit_task := t\<rparr>)"
| exit_sender: "x = OpTakeUp \<or> x = OpChunk ok \<Longrightarrow> snd (mux_step mdu x (exit_mux h s)) = m \<Longrightarrow>
     lossy_step resolve connect cfg render mdu sid rx l h target
       (LinkDown b, s) (LinkDown b, s\<lparr>exit_node := update_mux h m (exit_node s)\<rparr>)"
| exit_resumes_lost: "backlog (exit_node s) = (h, f) # rest \<Longrightarrow> server_resume (exit_node s) = Some x \<Longrightarrow>
     hands_over (exit_mux h s) new (muxes x ! h) \<Longrightarrow>
     lossy_step resolve connect cfg render mdu sid rx l h target
       (LinkDown b, s) (LinkDown b, s\<lparr>exit_node := x, up_done := up_done s @ [f], down_acc := down_acc s @ new\<rparr>)"
| exit_closes: "server_event (LinkClosed l reason :: ('l, unit) proxy_event) (exit_node s) = Some x \<Longrightarrow>
     lossy_step resolve connect cfg render mdu sid rx l h target (LinkDown b, s) (LinkDown b, s\<lparr>exit_node := x\<rparr>)"

section \<open>The invariant\<close>

fun lossy_inv ::
  "u32 \<Rightarrow> nat \<Rightarrow> 'l \<Rightarrow> nat \<Rightarrow> target_addr \<Rightarrow> frame \<Rightarrow> bytes + 's \<Rightarrow> link_phase \<times> ('l, 's) connection \<Rightarrow> bool" where
  "lossy_inv sid rx l h addr con v (LinkUp, s) \<longleftrightarrow> connection_inv sid rx l h addr con v s"
| "lossy_inv sid rx l h addr con v (LinkDown b, s) \<longleftrightarrow> ends_inv b sid rx l h addr con v s"

lemma lossy_inv_ends:
  assumes "lossy_inv sid rx l h addr con v (p, s)"
  shows "ends_inv (p = LinkDown True) sid rx l h addr con v s"
proof (cases p)
  case LinkUp
  with assms connection_inv_ends_inv show ?thesis by simp
next
  case (LinkDown b)
  with assms show ?thesis by (cases b) simp_all
qed

text \<open>A step of the client that keeps what its task has heard.\<close>

lemma client_inv_keeps:
  assumes "client_inv lost sid rx con v d n t out" "mux_inv m" "\<And>e r. hears lost sid rx e n r \<Longrightarrow> hears lost' sid rx e m r"
    and "lost \<longrightarrow> lost'"
  shows "client_inv lost' sid rx con v d m t out"
proof -
  have "client_hears lost' sid rx v t d m" if "client_hears lost sid rx v t d n"
    using that assms(3,4) by (cases t) fastforce+
  with assms(1,2) show ?thesis by (simp add: client_inv_def)
qed

lemma client_inv_reset:
  assumes "client_inv b sid rx con v d n t out"
  shows "client_inv True sid rx con v d (reset n) t out"
proof (rule client_inv_keeps [OF assms])
  from assms have n: "mux_inv n" by (simp add: client_inv_def)
  from mux_step_inv [OF n, of 1 OpReset] show "mux_inv (reset n)" by simp
  show "hears True sid rx e (reset n) r" if "hears b sid rx e n r" for e r
    using that far_cut_reset far_cut_other [of sid rx e n r OpReset 1] by (simp add: hears_def split: if_splits)
qed simp

lemma client_inv_new_data:
  assumes "client_inv True sid rx con v d n t out" "receive_data b n = (fs, m)"
  shows "client_inv True sid rx con v d (fold dispatch fs m) t out"
proof (rule client_inv_keeps [OF assms(1)])
  from assms have n: "mux_inv n" by (simp add: client_inv_def)
  with mux_inv_receive_data [OF assms(2)] show "mux_inv (fold dispatch fs m)" by (simp add: table.inv_deliver_all)
  show "hears True sid rx e (fold dispatch fs m) r" if "hears True sid rx e n r" for e r
    using that far_cut_other [of sid rx e n r "OpReceive b" 1] assms(2) by (simp add: hears_def far_cut_dispatch_all)
qed simp

lemma client_inv_op:
  assumes "client_inv lost sid rx con v d n t out" "\<not> concerns sid rx x"
  shows "client_inv lost sid rx con v d (snd (mux_step mdu x n)) t out"
proof (rule client_inv_keeps [OF assms(1)])
  from assms have "mux_inv n" by (simp add: client_inv_def)
  then show "mux_inv (snd (mux_step mdu x n))" by (rule mux_step_inv)
qed (simp_all add: hears_other [OF _ assms(2)])

text \<open>And of the exit node.\<close>

lemma exit_inv_op:
  assumes "exit_inv sid l h addr con v d x t out" "\<And>c. \<not> concerns sid c op"
  shows "exit_inv sid l h addr con v d (update_mux h (snd (mux_step mdu op (muxes x ! h))) x) t out"
proof -
  from assms(1) have inv: "server_inv x" "h < length (muxes x)" "exit_said sid v t (of_session sid out)"
    "exit_hears sid h addr con t d x" by (simp_all add: exit_inv_def)
  have "exit_hears sid h addr con t d (update_mux h (snd (mux_step mdu op (muxes x ! h))) x)"
    using inv(2) far_ok_other [OF _ assms(2)] by (intro exit_hears_mono [OF inv(4)]) simp_all
  from exit_moves_inv [OF assms(1) _ _ this, of "[]"] inv(3) mux_step_inv [OF server_inv_mux [OF inv(1,2)]] show ?thesis by simp
qed

lemma closed_backlog: "server_event (LinkClosed l reason) x = Some x' \<Longrightarrow> own_backlog h x' = own_backlog h x"
  by (auto simp: server_event_def own_backlog_def split: if_splits)

lemma exit_inv_closed:
  assumes "exit_inv sid l h addr con v d x t out" "server_event (LinkClosed l reason) x = Some x'"
  shows "exit_inv sid l h addr con v d x' t out"
proof -
  from assms(2) have x': "x' = x\<lparr>link_muxes := (link_muxes x)(l := None)\<rparr>" by (simp add: server_event_def split: if_splits)
  from assms(1) have inv: "server_inv x" "exit_hears sid h addr con t d x" by (simp_all add: exit_inv_def)
  have "exit_hears sid h addr con t d x'"
    using x' by (intro exit_hears_mono [OF inv(2)]) auto
  with assms server_inv_event [OF assms(2) inv(1)] x' show ?thesis
    by (auto simp: exit_inv_def split: if_splits)
qed

text \<open>A frame that the event loop of the exit node still holds.\<close>

lemma ends_resume:
  assumes "ends_inv b sid rx l h addr con v s" "opens_tcp sid addr con"
    and "backlog (exit_node s) = (h, f) # rest" "server_resume (exit_node s) = Some x" "hands_over (exit_mux h s) new (muxes x ! h)"
  shows "ends_inv b sid rx l h addr con v (s\<lparr>exit_node := x, up_done := up_done s @ [f], down_acc := down_acc s @ new\<rparr>)"
proof -
  from assms(1) have inv: "exit_inv sid l h addr con v (of_session sid (up_done s)) (exit_node s) (exit_task s) (down_acc s)"
    "client_said sid con (client_task s) (of_session sid (up_acc s))"
    "prefix (of_session sid (up_done s @ own_backlog h (exit_node s))) (of_session sid (up_acc s))"
    by (simp_all add: ends_inv_def client_inv_def)
  from own_backlog_Cons [OF assms(3), of "(exit_node s)\<lparr>backlog := rest\<rparr>" h]
  have "of_session sid (up_done s @ own_backlog h (exit_node s)) =
      (of_session sid (up_done s) @ of_session sid [f]) @ of_session sid (own_backlog h ((exit_node s)\<lparr>backlog := rest\<rparr>))" by simp
  with inv(3) have "prefix (of_session sid (up_done s) @ of_session sid [f]) (of_session sid (up_acc s))"
    using append_prefixD by metis
  with client_said_frames [OF inv(2)] have sf: "session_frames con (of_session sid (up_done s) @ of_session sid [f])"
    by (rule session_frames_prefix)
  from inv(1) have "server_inv (exit_node s)" "exit_hears sid h addr con (exit_task s) (of_session sid (up_done s)) (exit_node s)"
    by (simp_all add: exit_inv_def)
  note r = exit_resumes_frame [OF this(1) assms(2) this(2) sf assms(3-5)]
  from inv(1) r(1,2,4,5,7) have "exit_inv sid l h addr con v (of_session sid (up_done s @ [f])) x (exit_task s) (down_acc s @ new)"
    by (simp add: exit_inv_def)
  with assms(1) r(5,6) show ?thesis by (simp add: ends_inv_def)
qed

lemma lossy_inv_step:
  assumes "lossy_step resolve connect cfg render mdu sid rx l h target u u'"
    and "lossy_inv sid rx l h addr con v u" "0 < mdu" "render target = (host, port)"
    and "con = connect_frame sid host port" "frame_wf con" "opens_tcp sid addr con"
    and "v = exit_verdict resolve connect addr cfg" "verdict_ok v"
  shows "lossy_inv sid rx l h addr con v u'"
  using assms(1)
proof cases
  case (up s s')
  with connection_inv_step [OF up(3) _ assms(3-9)] assms(2) show ?thesis by simp
next
  case (loss s)
  with assms(2) connection_inv_ends_inv [of sid rx l h addr con v s] show ?thesis by (simp add: ends_inv_def)
next
  case (client_goes_on s new m t b)
  with assms(2) have inv: "ends_inv b sid rx l h addr con v s" by simp
  then have told: "told sid v (of_session sid (down_del s))" using exit_said_told unfolding ends_inv_def exit_inv_def by metis
  from inv have "client_inv b sid rx con v (of_session sid (down_del s)) (client_mux s) (client_task s) (up_acc s)"
    by (simp add: ends_inv_def)
  from client_inv_step [OF client_goes_on(3) this told assms(9,4-6)] inv client_goes_on(2) show ?thesis
    by (simp add: ends_inv_def)
next
  case (client_sender x ok s m b)
  then have "\<not> concerns sid rx x" by (auto simp: concerns_def)
  from client_inv_op [OF _ this, of b con v _ "client_mux s" "client_task s" "up_acc s" mdu] client_sender assms(2)
  show ?thesis by (simp add: ends_inv_def)
next
  case (client_resets b s)
  with assms(2) client_inv_reset [of b sid rx con v _ "client_mux s"] show ?thesis by (simp add: ends_inv_def)
next
  case (client_relinks s l')
  from client_inv_op [of True sid rx con v _ "client_mux s" "client_task s" "up_acc s" "OpSetLink l'" 1] client_relinks assms(2)
  show ?thesis by (simp add: ends_inv_def concerns_def)
next
  case (client_new_data d s fs m)
  with assms(2) client_inv_new_data [OF _ client_new_data(3), of sid rx con v] show ?thesis by (simp add: ends_inv_def)
next
  case (exit_goes_on s new x t b)
  with assms(2) have inv: "ends_inv b sid rx l h addr con v s" by simp
  then have "exit_inv sid l h addr con v (of_session sid (up_done s)) (exit_node s) (exit_task s) (down_acc s)"
    by (simp add: ends_inv_def)
  from exit_inv_step [OF exit_goes_on(3) this assms(9,8)] inv exit_goes_on(2) show ?thesis by (simp add: ends_inv_def)
next
  case (exit_sender x ok s m b)
  then have "\<not> concerns sid c x" for c by (auto simp: concerns_def)
  with exit_inv_op [of sid l h addr con v _ "exit_node s" "exit_task s" "down_acc s" x mdu] exit_sender assms(2)
  show ?thesis by (simp add: ends_inv_def)
next
  case (exit_resumes_lost s f rest x new b)
  with assms(2) ends_resume [OF _ assms(7) exit_resumes_lost(3-5)] show ?thesis by simp
next
  case (exit_closes reason s x b)
  with assms(2) exit_inv_closed [OF _ exit_closes(3), of sid h addr con v]
    closed_backlog [OF exit_closes(3), of h] show ?thesis by (simp add: ends_inv_def)
qed

lemma lossy_run:
  assumes "served resolve connect cfg render mdu target host port" "connection_start sid rx l h s0"
    and "(lossy_step resolve connect cfg render mdu sid rx l h target)\<^sup>*\<^sup>* (LinkUp, s0) u"
  shows "lossy_inv sid rx l h (Domain host port) (connect_frame sid host port)
    (exit_verdict resolve connect (Domain host port) cfg) u"
  using assms(3)
proof (induction rule: rtranclp_induct)
  case base
  show ?case using connection_start_inv [OF assms(2)] by simp
next
  case (step u1 u2)
  from assms(1) have sv: "0 < mdu" "render target = (host, port)" "utf8_valid host" "length host < 256"
    "verdict_ok (exit_verdict resolve connect (Domain host port) cfg)" by (simp_all add: served_def)
  from lossy_inv_step [OF step.hyps(2) step.IH sv(1,2) refl connect_frame_opens(2) [OF sv(3,4)]
      connect_frame_opens(1) [OF sv(3,4)] refl sv(5)] show ?case .
qed

lemma lossy_run_ends:
  assumes "served resolve connect cfg render mdu target host port" "connection_start sid rx l h s0"
    and "(lossy_step resolve connect cfg render mdu sid rx l h target)\<^sup>*\<^sup>* (LinkUp, s0) (p, s)"
  shows "ends_inv (p = LinkDown True) sid rx l h (Domain host port) (connect_frame sid host port)
    (exit_verdict resolve connect (Domain host port) cfg) s"
  by (rule lossy_inv_ends [OF lossy_run [OF assms]])

lemma lossy_up_run:
  assumes "(connection_step resolve connect cfg render mdu sid rx l h target)\<^sup>*\<^sup>* s s'"
  shows "(lossy_step resolve connect cfg render mdu sid rx l h target)\<^sup>*\<^sup>* (LinkUp, s) (LinkUp, s')"
  using assms by (induction rule: rtranclp_induct) (auto intro: rtranclp.rtrancl_into_rtrancl up)

text \<open>The link is lost and the client notices.\<close>

lemma lossy_reset_run:
  assumes "(connection_step resolve connect cfg render mdu sid rx l h target)\<^sup>*\<^sup>* s s'"
  shows "(lossy_step resolve connect cfg render mdu sid rx l h target)\<^sup>*\<^sup>* (LinkUp, s)
    (LinkDown True, s'\<lparr>up_wire := [], down_wire := [], client_mux := reset (client_mux s')\<rparr>)"
proof -
  let ?R = "lossy_step resolve connect cfg render mdu sid rx l h target"
  let ?s = "s'\<lparr>up_wire := [], down_wire := []\<rparr>"
  have "?R (LinkDown False, ?s) (LinkDown True, ?s\<lparr>client_mux := reset (client_mux ?s)\<rparr>)" by (rule client_resets)
  then have 2: "?R (LinkDown False, ?s) (LinkDown True, s'\<lparr>up_wire := [], down_wire := [], client_mux := reset (client_mux s')\<rparr>)"
    by simp
  have 1: "?R (LinkUp, s') (LinkDown False, ?s)" by (rule loss)
  from rtranclp.rtrancl_into_rtrancl [OF rtranclp.rtrancl_into_rtrancl [OF lossy_up_run [OF assms] 1] 2] show ?thesis .
qed

section \<open>The session of the client ends\<close>

text \<open>The steps of the relay and the link sender are steps of the whole.\<close>

abbreviation failing_link :: "unit \<Rightarrow> 'l \<Rightarrow> bytes \<Rightarrow> u8 \<Rightarrow> bool \<times> unit" where
  "failing_link n l d ctx \<equiv> (False, ())"

lemma closing_run_lossy:
  assumes "(closing_step failing_link mdu sid rx)\<^sup>*\<^sup>* ((), client_mux s, r) ((), m, r')"
    and "client_task s = ClientRelays r" "tcp_ok sid r"
  shows "\<exists>s'. (lossy_step resolve connect cfg render mdu sid rx l h target)\<^sup>*\<^sup>* (LinkDown b, s) (LinkDown b, s') \<and>
    client_mux s' = m \<and> client_task s' = ClientRelays r' \<and> exit_node s' = exit_node s \<and> exit_task s' = exit_task s \<and> tcp_ok sid r'"
  using assms(1)
proof (induction "((), m, r')" arbitrary: m r' rule: rtranclp_induct)
  case base
  with assms(2,3) show ?case by (intro exI [of _ s]) simp
next
  case (step u)
  obtain m1 r1 where u: "u = ((), m1, r1)" by (metis prod.exhaust_sel old.unit.exhaust)
  from step.hyps(3) [OF u] obtain s1 where s1:
    "(lossy_step resolve connect cfg render mdu sid rx l h target)\<^sup>*\<^sup>* (LinkDown b, s) (LinkDown b, s1)"
    "client_mux s1 = m1" "client_task s1 = ClientRelays r1" "exit_node s1 = exit_node s" "exit_task s1 = exit_task s" "tcp_ok sid r1"
    by blast
  have sender: ?case if "x = OpTakeUp \<or> x = OpChunk False" "snd (mux_step mdu x m1) = m" "r' = r1" for x
    using rtranclp.rtrancl_into_rtrancl [OF s1(1) client_sender [OF that(1)]] that s1(2-)
    by (intro exI [of _ "s1\<lparr>client_mux := m\<rparr>"]) simp
  from step.hyps(2) show ?case unfolding u
  proof cases
    case relays
    with s1(2) have rl: "relay_bidirectional_tcp sid rx (client_mux s1, r1) (m, r')" by simp
    from s1(6) have "near_ok sid (tcp_frame sid) r1" by (simp add: tcp_ok_def)
    from client_step.relays [OF rl relay_hands_over(2) [OF rl this]] s1(3)
    have "client_step render mdu sid rx target (client_mux s1, client_task s1) (drop (length (sent r1)) (sent r')) (m, ClientRelays r')"
      by simp
    from rtranclp.rtrancl_into_rtrancl [OF s1(1) client_goes_on [OF this]] s1 tcp_ok_step [OF rl s1(6)] show ?thesis
      by (intro exI [of _ "s1\<lparr>client_mux := m, up_acc := up_acc s1 @ drop (length (sent r1)) (sent r'), client_task := ClientRelays r'\<rparr>"])
        simp
  next
    case takes
    then show ?thesis by (intro sender [of OpTakeUp]) simp_all
  next
    case chunk
    then have "snd (sender_chunk failing_link ((), m1)) = m" by simp
    moreover have "snd (sender_chunk failing_link ((), m1)) = snd (sender_chunk (noting_link False) (None, m1))"
      by (simp add: sender_chunk_def noting_link_def split: option.split list.split)
    ultimately show ?thesis using chunk by (intro sender [of "OpChunk False"]) (simp_all add: case_prod_beta)
  qed
qed

text \<open>After the reset what waits is still written, and the relay ends.\<close>

lemma loss_ends:
  assumes "ends_inv True sid rx l h addr con v s" "client_task s = ClientRelays r"
  shows "\<exists>s' r'. (lossy_step resolve connect cfg render mdu sid rx l h target)\<^sup>*\<^sup>* (LinkDown True, s) (LinkDown True, s') \<and>
    client_task s' = ClientRelays r' \<and> exit_task s' = exit_task s \<and> stage r' = Ended \<and>
    written r' = written r @ (if stage r = Relaying then still_written (cq (chans (client_mux s) ! rx)) else [])"
proof -
  from assms obtain rest where ok: "tcp_ok sid r" "far_cut sid rx rest (client_mux s) r"
    by (auto simp: ends_inv_def client_inv_def hears_def)
  note run = closing_run_lossy [OF _ assms(2) ok(1), of mdu rx _ _ resolve connect cfg render l h target True]
  have "\<exists>n m r'. (closing_step failing_link mdu sid rx)\<^sup>*\<^sup>* ((), client_mux s, r) (n, m, r') \<and> stage r' = Ended \<and>
      written r' = written r @ (if stage r = Relaying then still_written (cq (chans (client_mux s) ! rx)) else [])"
  proof (cases "stage r")
    case Relaying
    from tcp_okD(3) [OF ok(1) Relaying] have "down r" .
    with far_cutD(3,4) [OF ok(2)] have "rx < length (chans (client_mux s))" "\<not> tx_alive (chans (client_mux s) ! rx)"
      by (simp_all add: feeds_def)
    from closed_session_ends [OF refl this \<open>down r\<close> Relaying, of failing_link mdu sid "()"] Relaying show ?thesis by fastforce
  next
    case Closing
    from closing_ends [OF this, of failing_link mdu sid rx "()" "client_mux s"] Closing show ?thesis by fastforce
  next
    case Dropping
    have "relay_bidirectional_tcp sid rx (client_mux s, r) (drop_session sid (client_mux s), r\<lparr>stage := Ended\<rparr>)"
      unfolding relay_bidirectional_tcp_def by (rule session_dropped) (rule Dropping)
    from r_into_rtranclp [of "closing_step failing_link mdu sid rx", OF closing_step.relays [OF this]] Dropping show ?thesis
      by (intro exI [of _ "()"] exI conjI) (assumption | simp)+
  next
    case Ended
    then show ?thesis by (intro exI [of _ "()"] exI [of _ "client_mux s"] exI [of _ r]) simp
  qed
  then obtain m r' where "(closing_step failing_link mdu sid rx)\<^sup>*\<^sup>* ((), client_mux s, r) ((), m, r')" "stage r' = Ended"
    "written r' = written r @ (if stage r = Relaying then still_written (cq (chans (client_mux s) ! rx)) else [])" by auto
  with run [OF this(1)] show ?thesis by blast
qed

end
