(* ===== verification/Spec2Isabelle.thy ===== *)
theory Spec2Isabelle
  imports End_To_End Udp_Delivery Udp_Opening Session_End Handshake Startup Lifecycle_End Stranded Link_Loss
begin

text \<open>
  \<^bold>\<open>rns-proxy\<close>: a SOCKS5 proxy over Reticulum links.

  The program has two ends. A client (\<open>src/client.rs\<close>, \<open>src/forwarding.rs\<close>) accepts local
  TCP connections and UDP flows; the exit node (\<open>src/server.rs\<close>) makes the real connections.
  Between them is one Reticulum link per client. Everything of all sessions goes over it as
  frames (\<open>src/frame.rs\<close>), through a multiplexer at each end (\<open>src/mux.rs\<close>): a session task
  hands a frame to the bounded channel of the link sender, which cuts it into pieces of at most
  \<open>LINK_MDU\<close> bytes; the other end puts the pieces together again and hands each frame to the
  channel of its session. A session starts with CONNECT and CONN_OK or CONN_ERR, and then runs
  one of five relays (\<open>src/relay.rs\<close>) until one side is done. The exit node asks a filter
  (\<open>src/filter.rs\<close>, configured by \<open>src/main.rs\<close> and \<open>src/cli.rs\<close>) about every address it is
  to reach. The client replaces a lost link by itself.

  \<^bold>\<open>Theories\<close>

  \<^item> Prelude: machine integers as words, byte strings, big-endian conversions, \<open>chunks\<close>.
  \<^item> Utf8: \<open>String::from_utf8\<close> and \<open>from_utf8_lossy\<close>.
  \<^item> Codec: the contract of a self-delimiting codec with a reassembly loop (locales
    \<open>stream_codec\<close>, \<open>reassembler\<close>), interpreted on the frame codec in Frame and on the receive
    loop in Mux.
  \<^item> Frame: \<open>FrameType\<close>, \<open>Frame\<close>, \<open>encode\<close>, \<open>decode\<close> and the CONNECT payload.
  \<^item> Mailbox: what sessions rely on, a table of mailboxes (locales \<open>mailbox_table\<close>,
    \<open>resettable_table\<close>), interpreted on the multiplexer in Mux.
  \<^item> Mux: \<open>MuxInner\<close> as the record \<open>mux\<close>, every operation of \<open>MuxHandle\<close>, the session channels
    (a store of channels, the session map pointing into it), and the task of
    \<open>run_link_sender\<close> (\<open>sender_recv\<close>, \<open>sender_chunk\<close>).
  \<^item> Tunnel: two multiplexers and the link between them as a step relation, refined to a
    first-in first-out channel of frames; the measure that shows it drains; damaged data.
  \<^item> Socket_Filter and Cli: addresses, rules and \<open>allowed_ip\<close>; the commands, what \<open>main\<close> builds
    for each, and the entry point it calls.
  \<^item> Relay: the two tasks of each relay as functions and the skeleton around them as one step
    relation \<open>relay_step\<close>, in which a task runs on until it is stopped and a write may fail or be
    broken off in the middle; the contract of a relay (locales \<open>relay_contract\<close>,
    \<open>closing_relay\<close>, and \<open>aborting_relay\<close> for TCP), interpreted on the five.
  \<^item> Mux_Spec: the operations of the multiplexer as a datatype, an abstract multiplexer, the
    refinement between the two (locale \<open>data_refinement\<close>), and the channel of one session as a
    machine of its own.
  \<^item> Session: any two relays with the tunnel between them and every other task around them, as
    one step relation \<open>session_step\<close>; what ties the two sockets together (locale
    \<open>session_ends\<close>). End_To_End is its instance for TCP (\<open>system_step\<close>), Udp_Session the four for
    UDP: a SOCKS5 association and a forwarded port, each in both directions.
  \<^item> Session_Drain: progress of such a session. What a far relay can do by itself extends
    \<open>session_ends\<close> (locales \<open>draining_ends\<close>, \<open>ending_ends\<close>): all that was sent is dealt with, and a
    CLOSE ends both relays. End_To_End and Udp_Session interpret it for every pairing, and
    Udp_Delivery draws from it what becomes of the datagrams. Udp_Opening is the way from the request of a UDP
    session to its two relays.
  \<^item> Link_Sender: the task of the link sender alone, which makes room in its channel.
  \<^item> Session_End: how a TCP relay of the client ends when \<open>reset\<close> has closed its channel, with
    the link sender at work (\<open>closing_step\<close>).
  \<^item> Node: the callbacks of \<open>src/node.rs\<close> and the path helpers of \<open>src/lib.rs\<close>.
  \<^item> Server: the event loop of \<open>run_server\<close> with one multiplexer per link, and the two session
    handlers. The loop (\<open>server_loop\<close>) takes an event (\<open>server_event\<close>) and handles the frames of
    an arrival one at a time (\<open>server_resume\<close>; what is left of it is the \<open>backlog\<close>), and waits
    where an answer finds no room. \<open>server_handles\<close> is an event handled to the end.
  \<^item> Client: opening a session, the SOCKS5 session handler, the accept loops of the proxy and of
    the two tunnels.
  \<^item> Handshake: the verdict of a session handler of the exit node on its way to the client.
  \<^item> Lifecycle: a TCP session from the accepted connection to the end of the relays, as one step
    relation for the client's end (\<open>client_step\<close>), one for the exit node's (\<open>exit_step\<close>), and
    one for both with both directions of their link and the event loops as they are
    (\<open>connection_step\<close>). Lifecycle_Client and Lifecycle_Exit show what holds of each end,
    Lifecycle_Invariant of both, Lifecycle_Liveness that sessions are opened and Lifecycle_End
    how they end on both sides. Link_Loss adds the loss of the link at any time
    (\<open>lossy_step\<close>), and Stranded shows when the exit node is left with a session its client
    knows nothing of.
  \<^item> Reconnect: \<open>establish_link\<close>, \<open>dispatch_and_reconnect\<close>, \<open>wait_for_path\<close> and \<open>connect_rns\<close>
    as one machine.
  \<^item> Startup: how both ends start. \<open>server_startup\<close> is \<open>run_server\<close> up to its event loop, with
    the identity file; \<open>run_client\<close>, \<open>run_client_forward\<close> and \<open>reconnect_generator\<close> are the
    entry points of the client, \<open>tcp_tunnel\<close>, \<open>udp_tunnel\<close> and \<open>run_sockets_proxy_handling\<close>
    the listeners.

  \<^bold>\<open>What is shown\<close>

  The life of a TCP session as a whole: whatever the tasks of both ends do and whenever the link
  is lost, a client that relays has a relaying exit node on an admitted address and each socket is
  written what the other reads; otherwise the client learns the truth and nothing is written;
  sessions are really opened, and once either end has left its \<open>select!\<close>, both can end, with the
  session out of both tables and everything written that was sent to an end still in its
  \<open>select!\<close> (C1 to C4). Seen from one socket to the other, at any time of a link in use: the byte
  stream of a TCP session is carried unchanged, nothing of it gets stuck while the far relay
  runs, and a relay reads ahead of the link by a few frames only (C6 to C8).
  The multiplexer is the abstract one in every answer, its sessions do not interfere, and its
  state is always well formed (C10, C11, C34). UDP sessions carry datagrams one by one and in
  order, cut to the 4096 bytes of their buffers, in both directions and for both kinds of client,
  and none gets stuck while it can be delivered (C13, C14, C16, C17, each with its conditions); an
  association opens with its request (C12) and ends on both sides (C15).
  The tunnel keeps order and loses
  nothing on a reliable link (C18, C19), data behind a CONNECT is kept (C20), the wire format is
  unambiguous (C21 to C23), a lost link ends all sessions of a client (C25, C26), the TCP relays
  send one CLOSE and end (C27), the exit node reaches only what its filter admits and the commands
  build the filters and tunnels they promise (C28 to C32), clients of an exit node do not
  affect each other (C33), ids are fresh, the client waits for a link and starts clean on it (C35,
  C36, C38), and the exit node keeps its address (C37). C5, C9, C24, C39 and C40 state
  precisely where the program does less than its documentation or its purpose asks, and so do the
  theorems \<open>late_request_strands_exit\<close>, \<open>connect_payload_long_host_differs\<close>,
  \<open>block_flags_bypassed\<close>, \<open>reused_id_closes_both\<close>, \<open>unserved_sessions_leak\<close>,
  \<open>stale_send_failure_disconnects\<close>, \<open>empty_datagram_ends_session\<close>,
  \<open>malformed_datagram_ends_session\<close>, \<open>aborted_task_sends_after_close\<close> and
  \<open>udp_relay_sends_after_close\<close>.

  \<^bold>\<open>How the model idealises\<close>

  \<^item> Concurrency: an operation on a multiplexer is atomic, as the mutexes of \<open>MuxInner\<close> make
    each access; \<open>reset\<close>, which takes three locks in turn, is one step. A task moves from one
    await point to the next in a step. In the step relations anything may happen between two
    steps; in \<open>with_others\<close> the other tasks may replace the multiplexer of a relay by any
    well-formed one. In \<open>session_step\<close> the far end is open to every operation that does not
    concern the session, so another task does not drop or register its id, and its link is not
    reset. A session starts (\<open>session_begin\<close>) when its far relay does, with its channel
    registered and on a link in use by others; \<open>session_begin_in_use\<close> shows the registration.
  \<^item> In \<open>connection_step\<close> the other tasks of an end do everything but touch the session's id and
    channel (\<open>foreign\<close>), and the link stays up. In \<open>lossy_step\<close> it is lost in both directions at
    once, with all that is on it, and its id is not used again; when each end learns of it is
    open. \<open>served\<close> is what is assumed of the request: its
    host is a string of at most 255 bytes, and an error text fits into a frame.
  \<^item> A round of an accept loop (\<open>is_connected\<close>, \<open>next_session_id\<close>, \<open>register_session\<close>) and the
    handling of one event by the loop of the client, which waits for nothing, are single steps.
    The loop of the exit node, which may wait, goes frame by frame; in \<open>connection_step\<close> the frames
    of the link it is done with are \<open>up_done\<close>, and the others wait in its \<open>backlog\<close>.
  \<^item> A send on a full channel suspends the sender; it is \<open>None\<close>, or a step that is not enabled.
    The channel of the link sender has room for 5 frames (\<open>SENDER_CAPACITY\<close>).
  \<^item> A task that \<open>JoinHandle::abort\<close> is called on may do any number of further steps, and is stopped
    at any time after: between two steps, or in the middle of a write (\<open>torn\<close>). The frame it was
    waiting to send then is not sent.
  \<^item> A \<open>read\<close> gives at most the 4096 bytes of its buffer (\<open>fits\<close>) and leaves the rest to the next
    read, also on the \<open>UdpStream\<close> of a forwarded port; \<open>recv_from\<close> drops what does not fit.
  \<^item> Each \<open>bind\<close> of a tunnel finds the sockets as those before it left them. \<open>exclusive_bind\<close> is what
    C32 assumes of it: an address is given to one listener of a kind at a time, and given if it can be.
  \<^item> The theories Tunnel and Session take the link to be reliable and ordered. The failing link
    is the parameter of \<open>sender_chunk\<close>, and an operation in Mux_Spec.
  \<^item> Parameters, since their code is elsewhere: the link (\<open>send_on_link\<close>, \<open>LINK_MDU\<close>, paths and
    identities of \<open>rns_net\<close>), the SOCKS5 datagram codec, target rendering and name resolution of
    \<open>fast_socks5\<close>, the number patterns of \<open>prse\<close>, the hex decoder, and the answers of sockets.
    In Startup they are the fields of the record \<open>host\<close>, functions on a world with the files and
    the RNS daemon; \<open>storage_ok\<close> is what is assumed of the identity storage (a saved identity can
    be loaded). Of the datagram codec C14, C16 and C17 assume short headers, and C16 and C17 that it
    reads back its own headers.
  \<^item> No fuel is used except in \<open>sender_run\<close>, where one step more than there are chunks is enough
    (\<open>link_sender_sends_frame\<close>). \<open>recall_loop\<close> may run forever and is a partial function; C38 says when it returns.

  \<^item> A session opens in C12 on a link that nothing else uses, step by step; in C13 to C17 the
    link is in use by others.

  Not modelled: the parsing of the command line by \<open>clap\<close>, the messages that are logged (their
  filter is in \<open>main\<close>), and the socket options. The examples are in Cli; \<open>examples/server.rs\<close>
  does not compile against the present commands and only prints. The two unit tests of the source
  are definitions of Frame and Socket_Filter that hold. What is left of the source are comments,
  imports, module declarations and the function \<open>ad\<close> of \<open>src/frame.rs\<close>, which does nothing.
\<close>

section \<open>The life of a session\<close>

text \<open>
  C1. A TCP session from the accepted connection on: the client task, the event
  loop, handler and relay of the exit node, both directions of the link and every other task
  of both ends run in any order, and the link may be lost at any time, with the reset of the
  client, its new link and the LinkClosed of the exit node whenever they come. When the client
  has started its relay, the exit node has one too, on the stream it got from an address to
  which the target of the request resolves and which its filter admits, and in each direction
  what was written to the one socket is a front part of the bytes read from the other. Nothing
  is lost in between, repeated, reordered or mixed with another session's.
\<close>

theorem session_lifecycle:
  assumes "served resolve connect cfg render mdu target host port" "connection_start sid rx l h s0"
    and "(lossy_step resolve connect cfg render mdu sid rx l h target)\<^sup>*\<^sup>* (LinkUp, s0) (p, s)"
    and "client_task s = ClientRelays r"
  shows "\<exists>c stream r' sock. exit_task s = ExitRelays c stream r' \<and>
    resolve (Domain host port) = Some (Ip sock) \<and> allowed_ip sock cfg Tcp \<and> connect sock = Inr stream \<and>
    prefix (concat (written r')) (concat (map read_bytes (reads r))) \<and>
    prefix (concat (written r)) (concat (map read_bytes (reads r')))"
proof -
  note inv = lossy_run_ends [OF assms(1-3)]
  from client_relays_exit [OF inv assms(4)] obtain c stream r' where x:
    "exit_task s = ExitRelays c stream r'" "exit_verdict resolve connect (Domain host port) cfg = Inr stream" .
  note r = ends_relays [OF inv x(1) assms(4)]
  from carried_stream [OF r(1,2,3)] carried_stream [OF r(2,1,4)] x(1) exit_verdict_connected [OF x(2)]
  show ?thesis by blast
qed

theorem session_lifecycle_witness:
  "\<exists>s r c r' sock. (lossy_step (\<lambda>a. Some (localhost_target 80)) (\<lambda>a. Inr (99 :: nat)) (server_filter_config False False)
       (\<lambda>t. (str_bytes ''host'', 80)) 431 1 0 (7 :: nat) 0 (localhost_target 80))\<^sup>*\<^sup>*
       (LinkUp, connection_init 7) (LinkDown True, s) \<and>
     client_task s = ClientRelays r \<and> reads r = [ReadOk [104, 105]] \<and> exit_task s = ExitRelays c 99 r' \<and>
     prefix (concat (written r')) [104, 105]"
proof -
  let ?R = "connection_step (\<lambda>a. Some (localhost_target 80)) (\<lambda>a. Inr (99 :: nat)) (server_filter_config False False)
    (\<lambda>t. (str_bytes ''host'', 80)) 431 1 0 (7 :: nat) 0 (localhost_target 80)"
  note sv = demo_served(1) [of False "localhost_target 80"] and start = connection_init_start [of "7 :: nat"]
  from session_opens [OF sv start] obtain s where s: "?R\<^sup>*\<^sup>* (connection_init 7) s"
    "client_task s = ClientRelays (relay_start ())" by (auto simp: demo_served(2))
  from client_reads [OF s(2), of "[104, 105]" "\<lambda>a. Some (localhost_target 80)" "\<lambda>a. Inr (99 :: nat)"
      "server_filter_config False False" "\<lambda>t. (str_bytes ''host'', 80)" 431 1 0 7 0 "localhost_target 80"] obtain r where
    r: "?R s (s\<lparr>client_task := ClientRelays r\<rparr>)" "reads r = [ReadOk [104, 105]]" by (auto simp: relay_start_def BUF_SIZE_def)
  from s(1) r(1) have "?R\<^sup>*\<^sup>* (connection_init 7) (s\<lparr>client_task := ClientRelays r\<rparr>)" by (rule rtranclp.rtrancl_into_rtrancl)
  note run = lossy_reset_run [OF this]
  from session_lifecycle [OF sv start(1) run] run r(2) show ?thesis
    by (fastforce simp: read_bytes_def BUF_SIZE_def)
qed

text \<open>
  C2. What a client is told when its session does not come to a relay: that
  it waited too long, that its channel is closed, which only the loss of the link does, or the
  very text of the reason the exit node has for refusing it, or, having been told yes, that its
  own SOCKS5 client was gone. And a target is only ever given bytes of a client that relays:
  while the client has no relay, the exit node has written nothing to its stream.
\<close>

theorem client_told_truth:
  assumes "served resolve connect cfg render mdu target host port" "connection_start sid rx l h s0"
    and "(lossy_step resolve connect cfg render mdu sid rx l h target)\<^sup>*\<^sup>* (LinkUp, s0) (p, s)"
    and "client_task s = GaveUp result"
  shows "(result = Inl (str_bytes ''Timeout'') \<or> p = LinkDown True \<and> result = Inl (str_bytes ''channel closed'') \<or>
      result = verdict_result (exit_verdict resolve connect (Domain host port) cfg) \<and> exit_task s \<noteq> NotRun) \<and>
    (\<forall>c stream r. exit_task s = ExitRelays c stream r \<longrightarrow> written r = [])"
proof -
  note inv = lossy_run_ends [OF assms(1-3)]
  from exit_writes_nothing [OF inv] assms(4) gave_up_reason [OF inv assms(4)] show ?thesis by auto
qed

theorem client_told_truth_witness:
  "\<exists>s result. (lossy_step (\<lambda>a. Some (localhost_target 80)) (\<lambda>a. Inr (99 :: nat)) (server_filter_config True False)
       (\<lambda>t. (str_bytes ''host'', 80)) 431 1 0 (7 :: nat) 0 (localhost_target 80))\<^sup>*\<^sup>*
       (LinkUp, connection_init 7) (LinkUp, s) \<and>
     client_task s = GaveUp result \<and>
     (result = Inl (str_bytes ''Timeout'') \<or> result = Inl (str_bytes ''invalid ip address''))"
proof -
  note sv = demo_served(1) [of True "localhost_target 80"] and start = connection_init_start [of "7 :: nat"]
  from session_opens [OF sv start] obtain s result where s: "(connection_step (\<lambda>a. Some (localhost_target 80)) (\<lambda>a. Inr (99 :: nat))
      (server_filter_config True False) (\<lambda>t. (str_bytes ''host'', 80)) 431 1 0 (7 :: nat) 0 (localhost_target 80))\<^sup>*\<^sup>*
      (connection_init 7) s" "client_task s = GaveUp result" by (auto simp: demo_served(2))
  note run = lossy_up_run [OF s(1)]
  from client_told_truth [OF sv start(1) run s(2)] s(2) run show ?thesis by (auto simp: demo_served(2) verdict_result_def)
qed

text \<open>
  C3. Sessions are really opened: from any start on an idle link there is a
  run of the client task, the exit node and the link in which both relays begin if the exit
  node can and may connect to the target, and the client is told why and the exit node ends
  the session if not.
\<close>

theorem session_is_opened:
  assumes "served resolve connect cfg render mdu target host port" "connection_start sid rx l h s0" "link_idle h s0"
  shows "\<exists>s c. (connection_step resolve connect cfg render mdu sid rx l h target)\<^sup>*\<^sup>* s0 s \<and>
    (case exit_verdict resolve connect (Domain host port) cfg of
       Inr stream \<Rightarrow> client_task s = ClientRelays (relay_start ()) \<and> exit_task s = ExitRelays c stream (relay_start ())
     | Inl err \<Rightarrow> client_task s = GaveUp (Inl err) \<and> exit_task s = Refused)"
  using session_opens [OF assms] by blast

theorem session_is_opened_witness:
  "\<exists>s c. (connection_step (\<lambda>a. Some (localhost_target 80)) (\<lambda>a. Inr (99 :: nat)) (server_filter_config False False)
       (\<lambda>t. (str_bytes ''host'', 80)) 431 1 0 (7 :: nat) 0 (localhost_target 80))\<^sup>*\<^sup>* (connection_init 7) s \<and>
     client_task s = ClientRelays (relay_start ()) \<and> exit_task s = ExitRelays c 99 (relay_start ())"
  using session_is_opened [OF demo_served(1) [of False "localhost_target 80"] connection_init_start [of "7 :: nat"]]
  by (simp add: demo_served(2))

text \<open>
  C4. Sessions really end, on both sides: when the relay of either end has left its
  \<open>select!\<close>, whatever the reason and whatever else is on the link or waits in an event loop,
  there is a run in which both relays end and both ends have dropped the session. If one of the
  ends was still in its \<open>select!\<close>, the run is one in which it writes all the other one sent before
  its CLOSE, so a socket that is closed after its last byte loses none of it. An end that has left
  its own \<open>select!\<close> aborts its tasks, and nothing is said of what these have yet to write.
\<close>

theorem session_ends_on_both_sides:
  assumes "served resolve connect cfg render mdu target host port" "connection_start sid rx l h s0"
    and "(connection_step resolve connect cfg render mdu sid rx l h target)\<^sup>*\<^sup>* s0 s"
    and "client_task s = ClientRelays r" "exit_task s = ExitRelays c stream r'"
    and "stage r \<noteq> Relaying \<or> stage r' \<noteq> Relaying"
  shows "\<exists>s' q q'. (connection_step resolve connect cfg render mdu sid rx l h target)\<^sup>*\<^sup>* s s' \<and>
    client_task s' = ClientRelays q \<and> exit_task s' = ExitRelays c stream q' \<and> stage q = Ended \<and> stage q' = Ended \<and>
    sessions (client_mux s') sid = None \<and> sessions (exit_mux h s') sid = None \<and>
    (stage r' = Relaying \<longrightarrow> written q' = map payload (before_close (sent r))) \<and>
    (stage r = Relaying \<longrightarrow> written q = map payload (before_close (sent r')))"
  by (rule both_end [OF assms])

theorem session_ends_on_both_sides_witness:
  "\<exists>s c q q'. (connection_step (\<lambda>a. Some (localhost_target 80)) (\<lambda>a. Inr (99 :: nat)) (server_filter_config False False)
       (\<lambda>t. (str_bytes ''host'', 80)) 431 1 0 (7 :: nat) 0 (localhost_target 80))\<^sup>*\<^sup>* (connection_init 7) s \<and>
     client_task s = ClientRelays q \<and> exit_task s = ExitRelays c 99 q' \<and> stage q = Ended \<and> stage q' = Ended \<and>
     sessions (client_mux s) 1 = None \<and> sessions (exit_mux 0 s) 1 = None"
proof -
  let ?R = "connection_step (\<lambda>a. Some (localhost_target 80)) (\<lambda>a. Inr (99 :: nat)) (server_filter_config False False)
    (\<lambda>t. (str_bytes ''host'', 80)) 431 1 0 (7 :: nat) 0 (localhost_target 80)"
  note sv = demo_served(1) [of False "localhost_target 80"] and start = connection_init_start [of "7 :: nat"]
  from session_opens [OF sv start] obtain s c where s: "?R\<^sup>*\<^sup>* (connection_init 7) s"
    "client_task s = ClientRelays (relay_start ())" "exit_task s = ExitRelays c 99 (relay_start ())" by (auto simp: demo_served(2))
  from client_leaves [OF s(2), of "\<lambda>a. Some (localhost_target 80)" "\<lambda>a. Inr (99 :: nat)"
      "server_filter_config False False" "\<lambda>t. (str_bytes ''host'', 80)" 431 1 0 7 0 "localhost_target 80"] obtain r where
    r: "?R s (s\<lparr>client_task := ClientRelays r\<rparr>)" "stage r = Closing" by (auto simp: relay_start_def)
  let ?s = "s\<lparr>client_task := ClientRelays r\<rparr>"
  from s(1) r(1) have run: "?R\<^sup>*\<^sup>* (connection_init 7) ?s" by (rule rtranclp.rtrancl_into_rtrancl)
  from session_ends_on_both_sides [OF sv start(1) run, of r c 99 "relay_start ()"] r(2) s(3) obtain s' q q' where
    s': "?R\<^sup>*\<^sup>* ?s s'" "client_task s' = ClientRelays q" "exit_task s' = ExitRelays c 99 q'" "stage q = Ended" "stage q' = Ended"
      "sessions (client_mux s') 1 = None" "sessions (exit_mux 0 s') 1 = None" by auto
  from rtranclp_trans [OF run s'(1)] s'(2-) show ?thesis by blast
qed

text \<open>
  C5. The exit node can be left with a session its client has given up: the client waits 60
  seconds for the answer, and a slow connect can take longer. Then the client sends no CLOSE,
  and whatever happens on this link, the relay of the exit node never hears anything, writes
  nothing, and leaves its \<open>select!\<close> only when the target's own socket ends.
\<close>

theorem timeout_strands_exit:
  assumes "served resolve connect cfg render mdu target host port" "connection_start sid rx l h s0" "link_idle h s0"
    and "exit_verdict resolve connect (Domain host port) cfg = Inr stream"
  shows "\<exists>s c. (connection_step resolve connect cfg render mdu sid rx l h target)\<^sup>*\<^sup>* s0 s \<and>
    client_task s = GaveUp (Inl (str_bytes ''Timeout'')) \<and> exit_task s = ExitRelays c stream (relay_start ()) \<and>
    (\<forall>s'. (connection_step resolve connect cfg render mdu sid rx l h target)\<^sup>*\<^sup>* s s' \<longrightarrow>
       client_task s' = GaveUp (Inl (str_bytes ''Timeout'')) \<and>
       of_session sid (up_acc s') = [connect_frame sid host port] \<and>
       (\<exists>r. exit_task s' = ExitRelays c stream r \<and> written r = [] \<and>
          (stage r = Relaying \<longrightarrow> (\<forall>m q. relay_bidirectional_tcp sid c (exit_mux h s', r) (m, q) \<longrightarrow>
             stage q = Relaying \<or> up r = Reading \<and> (m, q) = end_up (exit_mux h s', r)))))"
proof -
  from session_strands [OF assms] obtain s c where s: "(connection_step resolve connect cfg render mdu sid rx l h target)\<^sup>*\<^sup>* s0 s"
    "client_task s = GaveUp (Inl (str_bytes ''Timeout''))" "exit_task s = ExitRelays c stream (relay_start ())" by blast
  have "client_task s' = GaveUp (Inl (str_bytes ''Timeout'')) \<and> (\<exists>r. exit_task s' = ExitRelays c stream r)"
    if "(connection_step resolve connect cfg render mdu sid rx l h target)\<^sup>*\<^sup>* s s'" for s'
    using gave_up_run [OF that s(2)] exit_relays_run [OF that s(3)] by blast
  with s stranded_for_good [OF assms(1,2) rtranclp_trans [OF s(1)]] show ?thesis by metis
qed

theorem timeout_strands_exit_witness:
  "\<exists>s c. (connection_step (\<lambda>a. Some (localhost_target 80)) (\<lambda>a. Inr (99 :: nat)) (server_filter_config False False)
       (\<lambda>t. (str_bytes ''host'', 80)) 431 1 0 (7 :: nat) 0 (localhost_target 80))\<^sup>*\<^sup>* (connection_init 7) s \<and>
     client_task s = GaveUp (Inl (str_bytes ''Timeout'')) \<and> exit_task s = ExitRelays c 99 (relay_start ()) \<and>
     of_session 1 (up_acc s) = [connect_frame 1 (str_bytes ''host'') 80]"
proof -
  from timeout_strands_exit [OF demo_served(1) [of False "localhost_target 80"] connection_init_start [of "7 :: nat"], of 99]
  show ?thesis unfolding demo_served(2) by auto
qed

text \<open>
  So is one whose request crosses the loss of the link: \<open>reset\<close> closes the channel of a session
  whose SOCKS5 handshake is not over, but the session still sends its CONNECT, on the next
  link. It then gives up at once, sends no CLOSE, and drops whatever the exit node answers.
\<close>

theorem late_request_strands_exit:
  assumes "sessions m sid = Some c" "c < length (chans m)" "\<forall>f\<in>set (cq (chans m ! c)). \<not> decides f"
    and "render target = (host, port)" "connect_tcp_server_side render sid target (set_link_id l (reset m)) = Some m1"
  shows "\<exists>m2. await_reply c m1 = (Decided (Inl (str_bytes ''channel closed'')), m2) \<and>
    handle_socks5_session sid c (Requested TCPConnect) (Inl (str_bytes ''channel closed'')) bind_ok reply_ok m2 =
      Some (None, NoReply, drop_receiver c m2) \<and>
    data_q (drop_receiver c m2) = data_q m @ [encode (connect_frame sid host port)] \<and>
    sessions (drop_receiver c m2) sid = None \<and>
    (\<forall>fs. (\<forall>f\<in>set fs. session_id f = sid) \<longrightarrow> fold dispatch fs (drop_receiver c m2) = drop_receiver c m2)"
  by (rule late_request [where render = render and target = target]) (use assms in simp_all)

theorem late_request_strands_exit_witness:
  "\<exists>m1 m2. connect_tcp_server_side (\<lambda>t. (str_bytes ''host'', 80)) 1 (localhost_target 80)
       (set_link_id (8 :: nat) (reset (register 1 (set_link_id 7 mux_new)))) = Some m1 \<and>
     await_reply 0 m1 = (Decided (Inl (str_bytes ''channel closed'')), m2) \<and>
     data_q (drop_receiver 0 m2) = [encode (connect_frame 1 (str_bytes ''host'') 80)] \<and> sessions (drop_receiver 0 m2) 1 = None"
proof -
  let ?m = "register 1 (set_link_id (7 :: nat) mux_new)"
  have m: "sessions ?m 1 = Some 0" "chans ?m = [chan_new]" "data_q ?m = []"
    by (simp_all add: register_def register_session_def set_link_id_def mux_new_def drop_sender_def)
  obtain m1 where m1: "connect_tcp_server_side (\<lambda>t. (str_bytes ''host'', 80)) 1 (localhost_target 80) (set_link_id 8 (reset ?m)) = Some m1"
    using m(3) by (simp add: connect_tcp_server_side_def send_def send_frame_def SENDER_CAPACITY_def reset_def set_link_id_def)
  from late_request_strands_exit [OF m(1) _ _ refl m1] m(2,3) m1 show ?thesis by (auto simp: chan_new_def)
qed

section \<open>A session from end to end\<close>

text \<open>
  C6. The byte stream of a TCP session is never changed on its way: from the start of the
  session on a link that may be in use, in every reachable state of the two relays, the tunnel
  and all other tasks around them, what the far relay has written
  to its socket, followed by what is still on the way, is what the near relay sent, and that,
  followed by at most one read it has not handed on, is what its socket delivered.
\<close>

theorem session_stream:
  assumes "system_begin sid near_rx far_rx s0" "(system_step mdu sid near_rx far_rx)\<^sup>*\<^sup>* s0 s" "0 < mdu"
  shows "\<exists>on_the_way unsent.
    concat (written (far_relay s)) @ on_the_way = concat (map payload (filter is_data (sent (near_relay s)))) \<and>
    concat (written (far_relay s)) @ on_the_way @ unsent = concat (map read_bytes (reads (near_relay s)))"
  using system_stream [OF system_inv_run [OF assms]] unfolding prefix_def by (metis append_assoc)

theorem session_stream_witness:
  "\<exists>s. (system_step 431 1 0 0)\<^sup>*\<^sup>* (system_init (7 :: nat) 1) s \<and>
     reads (near_relay s) = [ReadOk [104, 105]] \<and>
     (\<exists>on_the_way unsent. concat (written (far_relay s)) @ on_the_way @ unsent = [104, 105])"
proof -
  from first_read [of "[104, 105]" 431 1 0 "7 :: nat"] obtain s where
    s: "(system_step 431 1 0 0)\<^sup>*\<^sup>* (system_init (7 :: nat) 1) s" "reads (near_relay s) = [ReadOk [104, 105]]"
    by (auto simp: BUF_SIZE_def)
  from session_stream [OF system_begin_init s(1)] s show ?thesis
    by (auto simp: read_bytes_def BUF_SIZE_def)
qed

text \<open>
  C7. Nothing of a session is lost or stuck while its far relay runs: from every state
  reachable from a start of the session in which the far relay is still in its \<open>select!\<close>, there is
  a run, in which the near relay does nothing, to one where the far socket has been given
  everything the near relay sent before its CLOSE. As long as the near relay is in its \<open>select!\<close>
  too, that is everything it read unless a read is still waiting to be handed on. A far relay that
  has left its \<open>select!\<close>, because its socket ended or failed, gives its socket nothing more.
\<close>

theorem session_stream_delivered:
  assumes "system_begin sid near_rx far_rx s0" "(system_step mdu sid near_rx far_rx)\<^sup>*\<^sup>* s0 s" "0 < mdu"
    and "stage (far_relay s) = Relaying"
  shows "\<exists>s'. (system_step mdu sid near_rx far_rx)\<^sup>*\<^sup>* s s' \<and> near_relay s' = near_relay s \<and>
    concat (written (far_relay s')) = concat (map payload (before_close (sent (near_relay s)))) \<and>
    (up (near_relay s) = Reading \<and> stage (near_relay s) = Relaying \<longrightarrow>
       concat (written (far_relay s')) = concat (map read_bytes (reads (near_relay s))))"
proof -
  from system_inv_run [OF assms(1-3)] have inv: "system_inv sid far_rx s" .
  then have near: "tcp_inv sid (near_relay s)" by (simp add: system_inv_def relays_inv_def)
  have "map payload (before_close (sent (near_relay s))) = map read_bytes (reads (near_relay s))"
    if "up (near_relay s) = Reading" "stage (near_relay s) = Relaying"
  proof -
    from before_close_all [OF tcp_invD(1) [OF near]] that(2) have "before_close (sent (near_relay s)) = sent (near_relay s)" by blast
    moreover from this filter_before_close [of "sent (near_relay s)"] have "filter is_data (sent (near_relay s)) = sent (near_relay s)" by simp
    ultimately show ?thesis using tcp_invD(2) [OF near] that(1) by (auto simp: tcp_transparent_def)
  qed
  with system_delivers [OF inv assms(4,3)] show ?thesis by metis
qed

theorem session_stream_delivered_witness:
  "\<exists>s s'. (system_step 431 1 0 0)\<^sup>*\<^sup>* (system_init (7 :: nat) 1) s \<and>
     (system_step 431 1 0 0)\<^sup>*\<^sup>* s s' \<and> concat (written (far_relay s')) = [104, 105]"
proof -
  from first_read [of "[104, 105]" 431 1 0 "7 :: nat"] obtain s where
    s: "(system_step 431 1 0 0)\<^sup>*\<^sup>* (system_init (7 :: nat) 1) s" "far_relay s = relay_start ()"
      "sent (near_relay s) = [frame_new Data 1 [104, 105]]"
    by (auto simp: BUF_SIZE_def)
  then have "stage (far_relay s) = Relaying" by (simp add: relay_start_def)
  from session_stream_delivered [OF system_begin_init s(1) _ this] s show ?thesis
    by (auto simp: is_data_def before_close_def)
qed

text \<open>
  C8. A relay reads from its socket only as fast as the link takes it, which is what the
  channel of five frames is for: in every state reachable from a start of the session the reads of the near relay are at
  most six more than the DATA frames of its session that have left the channel of the link
  sender, however much its socket has to offer and whatever else goes over the link.
\<close>

theorem read_ahead_bounded:
  assumes "system_begin sid near_rx far_rx s0" "(system_step mdu sid near_rx far_rx)\<^sup>*\<^sup>* s0 s" "0 < mdu"
  shows "\<exists>gone q. accepted (tun s) = gone @ q \<and> data_q (near (tun s)) = map encode q \<and>
    length (reads (near_relay s)) \<le> length (filter is_data (of_session sid gone)) + SENDER_CAPACITY + 1"
proof (rule read_ahead)
  show "session_ok sid (tcp_frame sid) far_rx s"
    using system_inv_run [OF assms] by (simp add: system_inv_def)
  show "queue_ok s" by (rule system_queue_run [OF assms(1,2)])
qed

theorem read_ahead_bounded_witness:
  "\<exists>s. (system_step 431 1 0 0)\<^sup>*\<^sup>* (system_init (7 :: nat) 1) s \<and> reads (near_relay s) = [ReadOk [104]] \<and>
     (\<exists>gone. 1 \<le> length (filter is_data (of_session 1 gone)) + 6)"
proof -
  from first_read [of "[104]" 431 1 0 "7 :: nat"] obtain s where
    s: "(system_step 431 1 0 0)\<^sup>*\<^sup>* (system_init (7 :: nat) 1) s" "reads (near_relay s) = [ReadOk [104]]"
    by (auto simp: BUF_SIZE_def)
  from read_ahead_bounded [OF system_begin_init s(1)] s show ?thesis by (auto simp: SENDER_CAPACITY_def)
qed

text \<open>
  C9. Nothing limits what the other end keeps: the channel of a session has no bound and a
  frame that arrives is put into it at once. While the far relay does not get on, because its
  socket takes nothing, the near relay can still read, send and have delivered any number of
  full reads, which all wait in the far end's memory.
\<close>

theorem far_queue_unbounded:
  assumes "system_begin sid near_rx far_rx s0" "up (near_relay s0) = Reading" "0 < mdu" "buf \<noteq> []" "length buf \<le> BUF_SIZE"
  shows "\<exists>s. (system_step mdu sid near_rx far_rx)\<^sup>*\<^sup>* s0 s \<and> far_relay s = relay_start () \<and> up (near_relay s) = Reading \<and>
    cq (chans (far (tun s)) ! far_rx) = sent (near_relay s0) @ replicate n (frame_new Data sid buf)"
proof -
  have far: "far_relay s0 = relay_start ()" using assms(1) by (simp add: system_begin_def session_begin_def)
  then have "stage (far_relay s0) = Relaying" "handled (far_relay s0) = []" by (simp_all add: relay_start_def)
  with far_queue_grows [OF system_inv_begin [OF assms(1)] assms(2) _ assms(3-5), of near_rx n] far show ?thesis by auto
qed

theorem far_queue_unbounded_witness:
  "\<exists>s. (system_step 431 1 0 0)\<^sup>*\<^sup>* (system_init (7 :: nat) 1) s \<and> written (far_relay s) = [] \<and>
     length (cq (chans (far (tun s)) ! 0)) = 1000000"
proof -
  have "up (near_relay (system_init (7 :: nat) 1)) = Reading" "sent (near_relay (system_init (7 :: nat) 1)) = []"
    by (simp_all add: system_init_def session_init_def relay_start_def)
  from far_queue_unbounded [OF system_begin_init this(1), of 431 "[104]" 0 1000000] this(2) show ?thesis
    by (fastforce simp: BUF_SIZE_def relay_start_def)
qed

section \<open>UDP sessions from end to end\<close>

text \<open>
  C12. The opening of a SOCKS5 association. On an idle link the one frame the client queues
  makes the exit node register the session and spawn the UDP handler with the target of the
  request; when the socket can be bound, the answer comes back in any pieces and ends the wait of the client
  with success, the client tells its SOCKS5 client so and goes on to its relay, and both
  directions are where the next two claims start from: the far relay's session is registered with an empty
  channel and nothing of it is on the link.
\<close>

theorem association_opens:
  assumes "mux_inv mc" "sessions mc sid = Some rx" "mailbox mc sid = Some []" "link_free mc"
    and "server_inv x" "link_muxes x l = Some h" "link_free (muxes x ! h)" "c = length (chans (muxes x ! h))"
    and "render target = (host, port)" "utf8_valid host" "length host < 256"
    and "open_session render sid UDPAssociate target mc = Some mc1"
    and "server_handles (LinkData l (concat (data_q mc1)) :: ('l, unit) proxy_event) x = Some x1"
    and "handle_server_session_udp (Inr socket) sid (Domain host port) c (muxes x1 ! h) = Some (out, me)"
    and "concat ds = concat (data_q me)" "receive_all ds (sent_off mc1) = (fs, mc2)"
    and "await_reply rx (fold dispatch fs mc2) = (w, mc3)"
  shows "tasks x1 = tasks x @ [SessionUdp h sid (Domain host port) c] \<and> out = Some socket \<and>
    (\<exists>result. connect_result timed_out w = Some result \<and>
       handle_socks5_session sid rx (Requested UDPAssociate) result True True mc3 = Some (Some RelayUdp, SuccessReply, mc3)) \<and>
    session_begin (relay_bidirectional_udp_client_side sid rx) sid c None () (relays_begin mc3 (sent_off me) None ()) \<and>
    session_begin (relay_bidirectional_udp_server_side hdr parse resolve cfg sid c) sid rx () None
      (relays_begin (sent_off me) mc3 () None)"
proof -
  note opens = udp_opens [OF assms(1-7,9-13) assms(14) assms(15-17)]
  have "handle_socks5_session sid rx (Requested UDPAssociate) (Inr ()) True True mc3 = Some (Some RelayUdp, SuccessReply, mc3)"
    by (simp add: handle_udp_connect_def end_session_def)
  with opens(1-3) assms(8) have "tasks x1 = tasks x @ [SessionUdp h sid (Domain host port) c] \<and> out = Some socket \<and>
      (\<exists>result. connect_result timed_out w = Some result \<and>
         handle_socks5_session sid rx (Requested UDPAssociate) result True True mc3 = Some (Some RelayUdp, SuccessReply, mc3))"
    by (simp add: connect_result_def)
  with opens(4) [of "relay_bidirectional_udp_client_side sid rx" None "()"]
    opens(5) [of "relay_bidirectional_udp_server_side hdr parse resolve cfg sid c" "()" None] assms(8)
  show ?thesis by blast
qed

theorem association_opens_witness:
  "\<exists>mc3 me.
     session_begin (relay_bidirectional_udp_client_side 1 0) 1 0 None () (relays_begin mc3 (sent_off me) None ()) \<and>
     session_begin (relay_bidirectional_udp_server_side one_header parse_one Some (server_filter_config False False) 1 0)
       1 0 () None (relays_begin (sent_off me :: nat mux) mc3 () None)"
proof -
  let ?mc = "register 1 (set_link_id 7 mux_new) :: nat mux"
  let ?x = "\<lparr>muxes = [set_link_id 7 mux_new], link_muxes = [7 \<mapsto> 0], tasks = [], backlog = []\<rparr> :: nat server"
  let ?render = "\<lambda>t :: target_addr. (str_bytes ''host'', 80 :: u16)" and ?t = "localhost_target 80"
  have client: "mux_inv ?mc" "sessions ?mc 1 = Some 0" "mailbox ?mc 1 = Some []" "link_free ?mc"
    by (simp_all add: table.inv_register mux_inv_fields table.mailbox_register)
      (simp_all add: register_def register_session_def set_link_id_def mux_new_def link_free_def is_connected_def)
  have exit: "server_inv ?x" "link_muxes ?x 7 = Some 0" "link_free (muxes ?x ! 0)"
    by (simp_all add: server_inv_def mux_inv_fields own_handles_def)
      (simp add: set_link_id_def mux_new_def link_free_def is_connected_def)
  have host: "utf8_valid (str_bytes ''host'')" "length (str_bytes ''host'') < 256"
    by (rule utf8_valid_ascii) (simp_all add: str_bytes_def)
  obtain mc1 where mc1: "open_session ?render 1 UDPAssociate ?t ?mc = Some mc1"
    using client(4) by (simp add: open_session_def udp_bind_connect_def send_def send_frame_def link_free_def SENDER_CAPACITY_def)
  have idle: "backlog ?x = []" by simp
  from request_registered [OF exit idle host refl client(4) mc1] obtain x1 where
    x1: "server_handles (LinkData 7 (concat (data_q mc1)) :: (nat, unit) proxy_event) ?x = Some x1"
      "muxes x1 ! 0 = register 1 (set_link_id 7 mux_new)" by auto
  obtain out me where me: "handle_server_session_udp (Inr () :: bytes + unit) 1 (Domain (str_bytes ''host'') 80) 0 (muxes x1 ! 0) = Some (out, me)"
    unfolding x1(2) using client(4) by (simp add: handle_server_session_udp_def send_def send_frame_def link_free_def SENDER_CAPACITY_def)
  obtain fs mc2 where ds: "receive_all [concat (data_q me)] (sent_off mc1) = (fs, mc2)" by fastforce
  obtain w mc3 where w: "await_reply 0 (fold dispatch fs mc2) = (w, mc3)" by fastforce
  have "0 = length (chans (muxes ?x ! 0))" by (simp add: set_link_id_def mux_new_def)
  from association_opens [OF client exit this refl host mc1 x1(1) me _ ds w, of _ one_header parse_one Some "server_filter_config False False"]
  show ?thesis by auto
qed

text \<open>
  C13. The datagrams of a SOCKS5 association on their way out: from its start on a link that
  may be in use, in every reachable state of the two relays, the tunnel and all other tasks, what the exit node has sent is what parsing
  and the filter make of the first datagrams the client's socket delivered, one by one and in
  order. Datagrams are never merged, split, reordered or invented; of one with more than 4096
  bytes the first 4096 are taken, as it is received into a buffer of that size. And none gets
  stuck as long as it can be sent: while the relay of the exit node receives, it can still send
  what parsing and the filter make of everything the client sent before its CLOSE, if all of that
  parses. A relay that no longer receives sends nothing more, and one datagram that does not
  parse ends it (\<open>malformed_datagram_ends_session\<close>).
\<close>

theorem association_to_exit:
  assumes "session_begin (relay_bidirectional_udp_client_side sid near_rx) sid far_rx None () s0"
    and "(association_out_step hdr parse resolve cfg mdu sid near_rx far_rx)\<^sup>*\<^sup>* s0 s" and "0 < mdu"
  shows "(\<exists>ds. prefix (map Some ds) (map client_datagram (reads (near_relay s))) \<and>
      written (far_relay s) = List.map_filter (exit_datagram parse resolve cfg) ds) \<and>
    (down (far_relay s) \<and> stage (far_relay s) \<noteq> Ended \<and> (\<forall>d\<in>set (datagrams_sent (near_relay s)). parse d \<noteq> None) \<longrightarrow>
      (\<exists>s'. (association_out_step hdr parse resolve cfg mdu sid near_rx far_rx)\<^sup>*\<^sup>* s s' \<and> near_relay s' = near_relay s \<and>
         written (far_relay s') = List.map_filter (exit_datagram parse resolve cfg) (datagrams_sent (near_relay s))))"
  using association_out_carries [OF assms] association_out_delivers [OF assms] by blast

theorem association_to_exit_witness:
  "\<exists>s s' (ds :: bytes list). (association_out_step (\<lambda>a. None) (\<lambda>d. Some (0, localhost_target 53, d)) Some
       (server_filter_config False False) 431 1 0 0)\<^sup>*\<^sup>* (session_init (7 :: nat) 1 None ()) s \<and>
     sent (near_relay s) = [frame_new Data 1 [8, 9]] \<and> prefix (map Some ds) [Some [8, 9]] \<and>
     (association_out_step (\<lambda>a. None) (\<lambda>d. Some (0, localhost_target 53, d)) Some
       (server_filter_config False False) 431 1 0 0)\<^sup>*\<^sup>* s s' \<and>
     written (far_relay s') = [([8, 9], SocketV4 (ipv4 127 0 0 1) 53)]"
proof -
  let ?i = "DatagramOk [8, 9] (SocketV4 0 5000)" and ?cfg = "server_filter_config False False"
  let ?parse = "\<lambda>d. Some (0 :: u8, localhost_target 53, d)"
  let ?R = "association_out_step (\<lambda>a. None) ?parse Some ?cfg 431 1 0 0"
  have "client_udp_to_rns 1 ?i None = (UpSend (frame_new Data 1 [8, 9]), Some 5000)"
    by (simp add: client_udp_to_rns_def BUF_SIZE_def)
  from session_first_read [where l = "7 :: nat" and upf = "client_udp_to_rns 1" and y = "()" and ok = "\<lambda>i. True", OF this TrueI] obtain s where
    s: "?R\<^sup>*\<^sup>* (session_init (7 :: nat) 1 None ()) s" "reads (near_relay s) = [?i]"
      "sent (near_relay s) = [frame_new Data 1 [8, 9]]" "far_relay s = relay_start ()"
    unfolding association_out_step_def relay_bidirectional_udp_client_side_def by blast
  have sent: "datagrams_sent (near_relay s) = [[8, 9]]" by (simp add: datagrams_sent_def before_close_def s(3) is_data_def)
  have "exit_datagram ?parse Some ?cfg [8, 9] = Some ([8, 9], SocketV4 (ipv4 127 0 0 1) 53)"
    by (simp add: exit_datagram_def filter_and_convert_def target_to_socket_def localhost_target_def allowed_ip_server)
  then have out: "List.map_filter (exit_datagram ?parse Some ?cfg) [[8, 9]] = [([8, 9], SocketV4 (ipv4 127 0 0 1) 53)]"
    by (simp add: List.map_filter_def)
  note to_exit = association_to_exit [OF session_begin_init s(1)]
  from to_exit have "\<exists>ds :: bytes list. prefix (map Some ds) [Some [8, 9]]" unfolding s(2) by (auto simp: client_datagram_def BUF_SIZE_def)
  moreover from to_exit have "\<exists>s'. ?R\<^sup>*\<^sup>* s s' \<and> written (far_relay s') = [([8, 9], SocketV4 (ipv4 127 0 0 1) 53)]"
    unfolding sent out s(4) by (auto simp: relay_start_def)
  ultimately show ?thesis using s(1,3) by blast
qed

text \<open>
  C14. The way back of an association: what the client side has written to its socket is, but
  for the datagrams that came before it knew where its local client is, the first replies the
  exit node read, one by one and in order, each with its header in front of its first 4096
  bytes, the size of the buffer it is received into; replies are those of hosts the filter
  admits. Before the local client has sent anything nothing is written at all; once its port is
  known, and while the client's relay receives, everything that was sent and not dealt with yet
  can still be written to it.
\<close>

theorem association_from_exit:
  assumes "short_headers hdr" "0 < mdu"
    and "session_begin (relay_bidirectional_udp_server_side hdr parse resolve cfg sid near_rx) sid far_rx () None s0"
    and "(association_back_step hdr parse resolve cfg mdu sid near_rx far_rx)\<^sup>*\<^sup>* s0 s"
  shows "(\<exists>dropped. prefix (map Some (dropped @ map fst (written (far_relay s))))
        (map (exit_reply hdr cfg) (reads (near_relay s))) \<and>
      (cell (far_relay s) = None \<longrightarrow> written (far_relay s) = [])) \<and>
    (\<forall>port. down (far_relay s) \<and> stage (far_relay s) \<noteq> Ended \<and> cell (far_relay s) = Some port \<longrightarrow>
      (\<exists>s' rest. (association_back_step hdr parse resolve cfg mdu sid near_rx far_rx)\<^sup>*\<^sup>* s s' \<and> near_relay s' = near_relay s \<and>
         datagrams_sent (near_relay s) = map payload (handled (far_relay s)) @ rest \<and>
         written (far_relay s') = written (far_relay s) @ map (\<lambda>d. (d, port)) rest))"
proof (intro conjI allI impI)
  show "\<exists>dropped. prefix (map Some (dropped @ map fst (written (far_relay s))))
      (map (exit_reply hdr cfg) (reads (near_relay s))) \<and>
    (cell (far_relay s) = None \<longrightarrow> written (far_relay s) = [])"
    by (rule association_back_carries [OF assms])
next
  fix port assume "down (far_relay s) \<and> stage (far_relay s) \<noteq> Ended \<and> cell (far_relay s) = Some port"
  then show "\<exists>s' rest. (association_back_step hdr parse resolve cfg mdu sid near_rx far_rx)\<^sup>*\<^sup>* s s' \<and> near_relay s' = near_relay s \<and>
      datagrams_sent (near_relay s) = map payload (handled (far_relay s)) @ rest \<and>
      written (far_relay s') = written (far_relay s) @ map (\<lambda>d. (d, port)) rest"
    using association_back_delivers [OF assms] by blast
qed

theorem association_from_exit_witness:
  "\<exists>s dropped. (association_back_step (\<lambda>a. Some [0, 0, 0]) (\<lambda>d. None) Some (server_filter_config False False) 431 1 0 0)\<^sup>*\<^sup>*
       (session_init (7 :: nat) 1 () None) s \<and>
     sent (near_relay s) = [frame_new Data 1 [0, 0, 0, 8]] \<and>
     prefix (map Some (dropped @ map fst (written (far_relay s)))) [Some [0, 0, 0, 8]]"
proof -
  let ?i = "DatagramOk [8] (SocketV4 0 5000)"
  let ?hdr = "\<lambda>a. Some [0, 0, 0]" and ?cfg = "server_filter_config False False"
  let ?R = "association_back_step ?hdr (\<lambda>d. None) Some ?cfg 431 1 0 0"
  let ?up = "\<lambda>i x :: unit. (server_udp_to_rns ?hdr ?cfg 1 i, x)"
  have "?up ?i () = (UpSend (frame_new Data 1 [0, 0, 0, 8]), ())"
    by (simp add: server_udp_to_rns_def BUF_SIZE_def allowed_ip_server)
  from session_first_read [where l = "7 :: nat" and upf = ?up and y = "None :: u16 option" and ok = "\<lambda>i. True", OF this TrueI] obtain s where
    s: "?R\<^sup>*\<^sup>* (session_init (7 :: nat) 1 () None) s" "reads (near_relay s) = [?i]"
      "sent (near_relay s) = [frame_new Data 1 [0, 0, 0, 8]]"
    unfolding association_back_step_def relay_bidirectional_udp_server_side_def by blast
  have "short_headers ?hdr" by (simp add: short_headers_def)
  from association_from_exit [OF this _ session_begin_init s(1)] s(2) have
    "\<exists>dropped. prefix (map Some (dropped @ map fst (written (far_relay s)))) [Some [0, 0, 0, 8]]"
    by (auto simp: exit_reply_def BUF_SIZE_def allowed_ip_server)
  with s(1,3) show ?thesis by blast
qed

text \<open>
  C15. An association ends on both sides: when the client's relay has left its \<open>select!\<close>, as it
  does when the TCP connection of the association goes, there is a run in which both relays end
  and both ends drop the session, whatever the exit node is doing and whatever the client sent,
  datagrams that do not parse included. If the exit node was still in its \<open>select!\<close> and all
  the client sent before its CLOSE parses, it is a run in which the exit node sends out what
  parsing and the filter make of all of that. The two relays end the same way in the other
  direction (\<open>association_back_ended\<close>) and for forwarded ports (\<open>forwarded_out_ended\<close>,
  \<open>forwarded_back_ended\<close>).
\<close>

theorem association_ends:
  assumes "session_begin (relay_bidirectional_udp_client_side sid near_rx) sid far_rx None () s0"
    and "(association_out_step hdr parse resolve cfg mdu sid near_rx far_rx)\<^sup>*\<^sup>* s0 s" and "0 < mdu"
    and "stage (near_relay s) \<noteq> Relaying"
  shows "\<exists>s'. (association_out_step hdr parse resolve cfg mdu sid near_rx far_rx)\<^sup>*\<^sup>* s s' \<and>
    stage (near_relay s') = Ended \<and> stage (far_relay s') = Ended \<and>
    (stage (far_relay s) \<noteq> Ended \<longrightarrow> sessions (far (tun s')) sid = None) \<and>
    (stage (near_relay s) \<noteq> Ended \<longrightarrow> sessions (near (tun s')) sid = None) \<and>
    (stage (far_relay s) = Relaying \<and> (\<forall>d\<in>set (datagrams_sent (near_relay s)). parse d \<noteq> None) \<longrightarrow>
       written (far_relay s') = List.map_filter (exit_datagram parse resolve cfg) (datagrams_sent (near_relay s)))"
  using association_out_ends [OF assms] unfolding udp_ended_def by blast

theorem association_ends_witness:
  "\<exists>s s'. (association_out_step (\<lambda>a. None) (\<lambda>d. Some (0, localhost_target 53, d)) Some
       (server_filter_config False False) 431 1 0 0)\<^sup>*\<^sup>* (session_init (7 :: nat) 1 None ()) s \<and>
     stage (near_relay s) = Closing \<and>
     (association_out_step (\<lambda>a. None) (\<lambda>d. Some (0, localhost_target 53, d)) Some
       (server_filter_config False False) 431 1 0 0)\<^sup>*\<^sup>* s s' \<and>
     stage (near_relay s') = Ended \<and> stage (far_relay s') = Ended \<and>
     sessions (near (tun s')) 1 = None \<and> sessions (far (tun s')) 1 = None \<and>
     written (far_relay s') = [([8, 9], SocketV4 (ipv4 127 0 0 1) 53)]"
proof -
  let ?i = "DatagramOk [8, 9] (SocketV4 0 5000)" and ?cfg = "server_filter_config False False"
  let ?parse = "\<lambda>d. Some (0 :: u8, localhost_target 53, d)"
  let ?R = "association_out_step (\<lambda>a. None) ?parse Some ?cfg 431 1 0 0"
  have "client_udp_to_rns 1 ?i None = (UpSend (frame_new Data 1 [8, 9]), Some 5000)"
    by (simp add: client_udp_to_rns_def BUF_SIZE_def)
  from session_first_read [where l = "7 :: nat" and upf = "client_udp_to_rns 1" and y = "()" and ok = "\<lambda>i. True", OF this TrueI] obtain s where
    s: "?R\<^sup>*\<^sup>* (session_init (7 :: nat) 1 None ()) s" "stage (near_relay s) = Relaying"
      "sent (near_relay s) = [frame_new Data 1 [8, 9]]" "far_relay s = relay_start ()"
    unfolding association_out_step_def relay_bidirectional_udp_client_side_def by blast
  let ?r = "leave_select (near_relay s)"
  have "tcp_check ReadErr" by (simp add: tcp_check_def)
  have "relay_bidirectional_udp_client_side 1 0 (near (tun s), near_relay s) (near (tun s), ?r)"
    unfolding relay_bidirectional_udp_client_side_def by (rule watch_end [OF _ \<open>tcp_check ReadErr\<close> s(2)]) simp
  from session_step.near [where near_step = "relay_bidirectional_udp_client_side 1 0", OF this] obtain s1 where
    s1: "?R s s1" "near_relay s1 = ?r" "far_relay s1 = far_relay s" unfolding association_out_step_def by force
  have run: "?R\<^sup>*\<^sup>* (session_init (7 :: nat) 1 None ()) s1" using s(1) s1(1) by (rule rtranclp.rtrancl_into_rtrancl)
  have sent: "datagrams_sent (near_relay s1) = [[8, 9]]" "stage (near_relay s1) = Closing"
    by (simp_all add: datagrams_sent_def before_close_def s1(2) s(2,3) is_data_def leave_select_stage)
  have "exit_datagram ?parse Some ?cfg [8, 9] = Some ([8, 9], SocketV4 (ipv4 127 0 0 1) 53)"
    by (simp add: exit_datagram_def filter_and_convert_def target_to_socket_def localhost_target_def allowed_ip_server)
  with association_ends [OF session_begin_init run] s(4) s1(3) sent run show ?thesis
    by (fastforce simp: List.map_filter_def relay_start_def)
qed

text \<open>
  C16. A forwarded UDP port on its way out: when the codec reads back its own headers, each
  read of the client's relay becomes one datagram of the exit node, with the same bytes and in
  the same order, all to the forwarded port of its own loopback address (as it resolves it), or
  none at all when its filter refuses that address. A read gives at most 4096 bytes, so a datagram
  of the local application with more comes out as several. While the relay of the exit node
  receives, all that was sent before the CLOSE can still be sent out, which is all that was read
  if the client's relay is in its \<open>select!\<close> and waits for more.
\<close>

theorem forwarded_udp_to_exit:
  assumes "short_headers hdr" "codec_reads_back hdr parse" "0 < mdu"
    and "session_begin (relay_forwarded_udp hdr parse port sid near_rx) sid far_rx () () s0"
    and "(forwarded_out_step hdr parse resolve cfg port mdu sid near_rx far_rx)\<^sup>*\<^sup>* s0 s"
  shows "(case filter_and_convert resolve (localhost_target port) (Some cfg) Udp of
        Some sock \<Rightarrow> prefix (written (far_relay s)) (map (\<lambda>i. (read_bytes i, sock)) (reads (near_relay s)))
      | None \<Rightarrow> written (far_relay s) = []) \<and>
    (down (far_relay s) \<and> stage (far_relay s) \<noteq> Ended \<longrightarrow>
      (\<exists>s'. (forwarded_out_step hdr parse resolve cfg port mdu sid near_rx far_rx)\<^sup>*\<^sup>* s s' \<and> near_relay s' = near_relay s \<and>
         written (far_relay s') =
           (case filter_and_convert resolve (localhost_target port) (Some cfg) Udp of
              Some sock \<Rightarrow> map (\<lambda>i. (read_bytes i, sock)) (take (length (datagrams_sent (near_relay s))) (reads (near_relay s)))
            | None \<Rightarrow> []) \<and>
         (up (near_relay s) = Reading \<and> stage (near_relay s) = Relaying \<longrightarrow>
            length (datagrams_sent (near_relay s)) = length (reads (near_relay s)))))"
  using forwarded_out_carries [OF assms(1,3-5)] forwarded_out_delivers [OF assms(2)] forwarded_out_delivered [OF assms]
  by metis

theorem forwarded_udp_to_exit_witness:
  "\<exists>s s'. (forwarded_out_step one_header parse_one Some (server_filter_config False False) 53 431 1 0 0)\<^sup>*\<^sup>*
       (session_init (7 :: nat) 1 () ()) s \<and>
     sent (near_relay s) = [frame_new Data 1 [1, 2, 8]] \<and>
     (forwarded_out_step one_header parse_one Some (server_filter_config False False) 53 431 1 0 0)\<^sup>*\<^sup>* s s' \<and>
     written (far_relay s') = [([8], SocketV4 (ipv4 127 0 0 1) 53)]"
proof -
  let ?cfg = "server_filter_config False False"
  let ?R = "forwarded_out_step one_header parse_one Some ?cfg 53 431 1 0 0"
  let ?up = "\<lambda>i x :: unit. (forwarded_udp_to_rns one_header 53 1 i, x)"
  have "?up (ReadOk [8]) () = (UpSend (frame_new Data 1 [1, 2, 8]), ())"
    by (simp add: forwarded_udp_to_rns_def one_header_def BUF_SIZE_def)
  moreover have "fits (ReadOk [8])" by (simp add: fits_def BUF_SIZE_def)
  ultimately obtain s where
    s: "?R\<^sup>*\<^sup>* (session_init (7 :: nat) 1 () ()) s" "reads (near_relay s) = [ReadOk [8]]"
      "sent (near_relay s) = [frame_new Data 1 [1, 2, 8]]" "far_relay s = relay_start ()"
      "up (near_relay s) = Reading" "stage (near_relay s) = Relaying"
    using session_first_read [where l = "7 :: nat" and upf = ?up and y = "()" and ok = fits]
    unfolding forwarded_out_step_def relay_forwarded_udp_def by blast
  have "filter_and_convert Some (localhost_target 53) (Some ?cfg) Udp = Some (SocketV4 (ipv4 127 0 0 1) 53)"
    by (simp add: filter_and_convert_Some_iff allowed_ip_server localhost_target_def)
  with forwarded_udp_to_exit [OF one_header_codec _ session_begin_init s(1)] s(2,4-6) obtain s' where
    "?R\<^sup>*\<^sup>* s s'" "written (far_relay s') = [([8], SocketV4 (ipv4 127 0 0 1) 53)]"
    by (auto simp: read_bytes_def BUF_SIZE_def relay_start_def)
  with s(1,3) show ?thesis by blast
qed

text \<open>
  C17. A forwarded UDP port on its way back: the application is given exactly the first
  datagrams the exit node received from hosts its filter admits, one by one and in order, of each
  the first 4096 bytes, which is what the buffer takes. While the client's relay receives, it can
  still be given all that was sent before the CLOSE.
\<close>

theorem forwarded_udp_from_exit:
  assumes "short_headers hdr" "codec_reads_back hdr parse" "0 < mdu"
    and "session_begin (relay_bidirectional_udp_server_side hdr parse resolve cfg sid near_rx) sid far_rx () () s0"
    and "(forwarded_back_step hdr parse resolve cfg port mdu sid near_rx far_rx)\<^sup>*\<^sup>* s0 s"
  shows "prefix (written (far_relay s)) (map datagram_bytes (reads (near_relay s))) \<and>
    (down (far_relay s) \<and> stage (far_relay s) \<noteq> Ended \<longrightarrow>
      (\<exists>s'. (forwarded_back_step hdr parse resolve cfg port mdu sid near_rx far_rx)\<^sup>*\<^sup>* s s' \<and> near_relay s' = near_relay s \<and>
         written (far_relay s') = map datagram_bytes (take (length (datagrams_sent (near_relay s))) (reads (near_relay s))) \<and>
         (up (near_relay s) = Reading \<and> stage (near_relay s) = Relaying \<longrightarrow>
            length (datagrams_sent (near_relay s)) = length (reads (near_relay s)))))"
proof (intro conjI impI)
  show "prefix (written (far_relay s)) (map datagram_bytes (reads (near_relay s)))"
    using forwarded_back_carries [OF assms(1,3-5)] map_filter_image service_exit_reply [OF assms(2)] by metis
next
  assume "down (far_relay s) \<and> stage (far_relay s) \<noteq> Ended"
  then show "\<exists>s'. (forwarded_back_step hdr parse resolve cfg port mdu sid near_rx far_rx)\<^sup>*\<^sup>* s s' \<and> near_relay s' = near_relay s \<and>
      written (far_relay s') = map datagram_bytes (take (length (datagrams_sent (near_relay s))) (reads (near_relay s))) \<and>
      (up (near_relay s) = Reading \<and> stage (near_relay s) = Relaying \<longrightarrow>
         length (datagrams_sent (near_relay s)) = length (reads (near_relay s)))"
    using forwarded_back_delivered [OF assms] by blast
qed

theorem forwarded_udp_from_exit_witness:
  "\<exists>s s'. (forwarded_back_step one_header parse_one Some (server_filter_config False False) 53 431 1 0 0)\<^sup>*\<^sup>*
       (session_init (7 :: nat) 1 () ()) s \<and>
     sent (near_relay s) = [frame_new Data 1 [1, 2, 8]] \<and>
     (forwarded_back_step one_header parse_one Some (server_filter_config False False) 53 431 1 0 0)\<^sup>*\<^sup>* s s' \<and>
     written (far_relay s') = [[8]]"
proof -
  let ?cfg = "server_filter_config False False" and ?i = "DatagramOk [8] (SocketV4 (ipv4 127 0 0 1) 53)"
  let ?R = "forwarded_back_step one_header parse_one Some ?cfg 53 431 1 0 0"
  let ?up = "\<lambda>i x :: unit. (server_udp_to_rns one_header ?cfg 1 i, x)"
  have "?up ?i () = (UpSend (frame_new Data 1 [1, 2, 8]), ())"
    by (simp add: server_udp_to_rns_def one_header_def localhost_target_def BUF_SIZE_def allowed_ip_server)
  from session_first_read [where l = "7 :: nat" and upf = ?up and y = "()" and ok = "\<lambda>i. True", OF this TrueI] obtain s where
    s: "?R\<^sup>*\<^sup>* (session_init (7 :: nat) 1 () ()) s" "reads (near_relay s) = [?i]"
      "sent (near_relay s) = [frame_new Data 1 [1, 2, 8]]" "far_relay s = relay_start ()"
      "up (near_relay s) = Reading" "stage (near_relay s) = Relaying"
    unfolding forwarded_back_step_def relay_bidirectional_udp_server_side_def by blast
  from forwarded_udp_from_exit [OF one_header_codec _ session_begin_init s(1)] s(2,4-6) obtain s' where
    "?R\<^sup>*\<^sup>* s s'" "written (far_relay s') = [[8]]"
    by (auto simp: datagram_bytes_def BUF_SIZE_def relay_start_def)
  with s(1,3) show ?thesis by blast
qed

section \<open>The multiplexer and its contract\<close>

text \<open>
  C10. Every sequence of operations, whoever calls them (session tasks, event loops, the link
  sender), is answered by the multiplexer as by the abstract one, which has a channel per
  registration that knows its session, an outbox of frames and the bytes left of the frame
  under way: same session ids and channels, same frames read, same results of waiting, same
  pieces on the link, on every branch (full channel, no link, failed send, unknown session).
\<close>

theorem mux_refines_spec:
  assumes "0 < mdu"
  shows "fst (run_ops (mux_step mdu) xs mux_new) = fst (run_ops (spec_step mdu) xs spec_new)"
proof -
  from assms obtain k where "mdu = Suc k" using gr0_conv_Suc by blast
  with mux_spec.simulate_run [OF refines_new, of k xs] show ?thesis by simp
qed

theorem mux_refines_spec_witness:
  "fst (run_ops (mux_step 4) [OpSetLink (7 :: nat), OpRegister 1, OpSend Data 1 [9], OpTakeUp, OpChunk True,
      OpChunk False, OpIsConnected, OpDispatch (frame_new Data 1 [5]), OpRegister 1, OpRecv 0, OpRecv 0, OpRecv 1]
      mux_new) =
     [OutUnit, OutChannel 0, OutBool True, OutUnit, OutWire (Some (7, [4, 0, 0, 0], DATA_CONTEXT)),
      OutWire (Some (7, [1, 0, 1, 9], DATA_CONTEXT)), OutBool False, OutUnit, OutChannel 1,
      OutRecv (Got (frame_new Data 1 [5])), OutRecv Closed, OutRecv Pending]"
proof -
  have enc: "encode (frame_new Data 1 [9]) = [4, 0, 0, 0, 1, 0, 1, 9]" by code_simp
  show ?thesis
    by (subst mux_refines_spec, simp)
      (simp add: enc spec_new_def SENDER_CAPACITY_def unfeed_def orphan_def feed_def poll_def)
qed

text \<open>
  C11. Sessions do not interfere: whatever happened before a registration and whatever
  operations follow it, in any order and on any sessions, the channel it made is what the
  operations on its own session and its own receiver make of a new channel, and so is every
  answer its receiver gets.
\<close>

theorem sessions_do_not_interfere:
  "let m = snd (run_ops (mux_step mdu) before mux_new); c = length (chans m);
       m' = snd (run_ops (mux_step mdu) (before @ OpRegister sid # after) mux_new);
       ch = fold chan_step (filter (concerns sid c) after) chan_new
   in fst (mux_step mdu (OpRegister sid) m) = OutChannel c \<and> chans m' ! c = ch \<and>
      fst (mux_step mdu (OpRecv c) m') = chan_answer ch"
proof -
  let ?m = "snd (run_ops (mux_step mdu) before mux_new)"
  from mux_ok_run [OF mux_ok_new, of mdu before] have "mux_inv ?m" by (simp add: mux_ok_def)
  note ch = registered_channel [OF this refl, of mdu sid after]
  have "fst (mux_step mdu (OpRegister sid) ?m) = OutChannel (length (chans ?m))"
    by (simp add: register_session_def)
  with ch(1) recv_answer [OF ch(2), of mdu] show ?thesis
    unfolding Let_def run_ops_append by (simp only: simp_thms)
qed

text \<open>
  C34. Every state of the multiplexer is well formed: after any sequence of operations each
  entry of the session table is the sender of a channel of its own, a channel has a sender
  exactly while an entry feeds it, and the channel of the link sender holds at most five frames.
\<close>

theorem mux_ops_typed:
  "mux_inv (snd (run_ops (mux_step mdu) xs mux_new)) \<and>
   length (data_q (snd (run_ops (mux_step mdu) xs mux_new))) \<le> SENDER_CAPACITY"
  using mux_ok_run [OF mux_ok_new] unfolding mux_ok_def .

section \<open>The tunnel\<close>

text \<open>
  C18. One direction of the tunnel is a first-in first-out channel of frames with one mailbox
  per session: in every reachable state what the far end has put together is a front part of
  what the near end accepted, and what a session's receiver took, followed by what waits in
  its mailbox, is exactly the frames of that session among them, in order.
\<close>

theorem tunnel_is_fifo:
  assumes "tunnel_reachable mdu l sid t" "0 < mdu"
  shows "(\<exists>undelivered. accepted t = delivered t @ undelivered) \<and>
    (\<exists>queued. mailbox (far t) sid = Some queued \<and>
       taken t @ queued = filter (\<lambda>f. session_id f = sid) (delivered t))"
  using reachable_invs [OF assms] by (auto simp: tunnel_inv_def session_inv_def)

theorem tunnel_is_fifo_witness:
  "\<exists>t. tunnel_reachable 431 (7 :: nat) 1 t \<and> delivered t = [frame_new Data 1 [42]] \<and>
     (\<exists>queued. mailbox (far t) 1 = Some queued \<and> taken t @ queued = [frame_new Data 1 [42]])"
proof -
  have "frame_wf (frame_new Data 1 [42])" by (simp add: frame_wf_def)
  from submit_and_deliver [OF this, of 431 "7 :: nat" 1] obtain t where
    t: "tunnel_reachable 431 (7 :: nat) 1 t" "delivered t = [frame_new Data 1 [42]]" by auto
  from tunnel_is_fifo [OF t(1)] t show ?thesis by (intro exI [of _ t]) simp
qed

text \<open>
  Nothing gets stuck on a working link: from every reachable state the link sender and
  the receiver alone can bring every accepted frame to the far end, and no more frames than
  the bounded channel of the link sender holds are ever queued there.
\<close>

theorem tunnel_delivers:
  assumes "tunnel_reachable mdu l sid t" "0 < mdu"
  shows "length (data_q (near t)) \<le> SENDER_CAPACITY \<and>
    (\<exists>t'. (tunnel_step mdu sid)\<^sup>*\<^sup>* t t' \<and> accepted t' = accepted t \<and> delivered t' = accepted t)"
  using reachable_invs [OF assms] tunnel_drains [OF assms] by blast

theorem tunnel_delivers_witness:
  "\<exists>t t'. tunnel_reachable 431 (7 :: nat) 1 t \<and> accepted t = [frame_new Connect 1 [0]] \<and>
     (tunnel_step 431 1)\<^sup>*\<^sup>* t t' \<and> delivered t' = [frame_new Connect 1 [0]]"
proof -
  have "frame_wf (frame_new Connect 1 [0])" by (simp add: frame_wf_def)
  from submit_first [OF this, of 431 "7 :: nat" 1] obtain t where
    t: "tunnel_reachable 431 (7 :: nat) 1 t" "accepted t = [frame_new Connect 1 [0]]" by auto
  from tunnel_delivers [OF t(1)] t show ?thesis by fastforce
qed

text \<open>
  C19. Reassembly does not depend on how the link cut the stream: whatever pieces the bytes of
  a list of encoded frames arrive in, \<open>receive_data\<close> yields exactly those frames, in order,
  and leaves its buffer empty.
\<close>

theorem receive_data_any_segmentation:
  assumes "\<forall>f\<in>set fs. length (payload f) < 65536"
    and "recv_buf m = []" "concat pieces = concat (map encode fs)"
  shows "receive_all pieces m = (fs, m)"
  using assms by (intro receive_all_stream) (simp_all add: frame_wf_def frame_stream_def)

theorem receive_data_any_segmentation_witness:
  "receive_all [[4, 0, 0], [0, 9, 0, 2, 7], [8, 5, 0, 0, 0, 9, 0], [0]] (mux_new :: nat mux) =
     ([frame_new Data 9 [7, 8], frame_new Close 9 []], mux_new)"
  by (rule receive_data_any_segmentation)
    (simp_all add: mux_new_def encode_def frame_type_code_def u32_to_be_bytes_def u16_to_be_bytes_def)

text \<open>
  The task of \<open>run_link_sender\<close>, given an encoded frame on a link that takes every
  chunk, sends all of it and nothing else, in pieces of at most \<open>LINK_MDU\<close> bytes and no
  more of them than needed, and is ready for the next frame.
\<close>

theorem link_sender_sends_frame:
  assumes "0 < mdu" "sender m = None" "link_id m = Some l" "data_q m = encode f # q"
    and "length (chunks mdu (encode f)) < k"
  shows "\<exists>cs. sender_run wire_send k (w, sender_recv mdu m) = (w @ cs, m\<lparr>data_q := q\<rparr>) \<and>
    concat cs = encode f \<and> (\<forall>c\<in>set cs. 0 < length c \<and> length c \<le> mdu) \<and>
    length cs = (length (encode f) + mdu - 1) div mdu"
proof -
  have "sender_recv mdu m = m\<lparr>data_q := q, sender := Some (l, chunks mdu (encode f))\<rparr>"
    using assms by (simp add: sender_recv_idle)
  with assms sender_run_wire [of "sender_recv mdu m" l "chunks mdu (encode f)" k w]
  have "sender_run wire_send k (w, sender_recv mdu m) =
      (w @ chunks mdu (encode f), m\<lparr>data_q := q\<rparr>)"
    by (cases m) simp
  with assms(1) show ?thesis
    by (intro exI [of _ "chunks mdu (encode f)"])
      (auto simp: concat_chunks length_chunks dest: chunks_bounded)
qed

theorem link_sender_sends_frame_witness:
  "\<exists>cs. sender_run wire_send 9
      ([], sender_recv 4 (set_link_id (7 :: nat) mux_new\<lparr>data_q := [encode (frame_new Data 1 [1, 2])]\<rparr>)) =
      (cs, set_link_id 7 mux_new\<lparr>data_q := []\<rparr>) \<and>
    concat cs = encode (frame_new Data 1 [1, 2]) \<and> length cs = 3"
proof -
  let ?m = "set_link_id (7 :: nat) mux_new\<lparr>data_q := [encode (frame_new Data 1 [1, 2])]\<rparr>"
  have "length (chunks 4 (encode (frame_new Data 1 [1, 2]))) < 9"
    by (simp add: length_chunks length_encode HDR_SIZE_def)
  from link_sender_sends_frame [OF _ _ _ _ this, of ?m 7 "[]" "[]"] show ?thesis
    by (auto simp: set_link_id_def mux_new_def length_encode HDR_SIZE_def)
qed

section \<open>Frames\<close>

text \<open>
  C21. Frame codec: an encoded frame decodes to itself whatever bytes follow it, and the
  decoder reports how many bytes it used, for every frame whose payload fits the 16-bit
  length field. Of a longer payload \<open>payload.len() as u16\<close> keeps the length modulo 65536, and
  the receiver takes the rest for the next header.
\<close>

theorem frame_roundtrip:
  assumes "length (payload f) < 65536"
  shows "decode (encode f @ rest) = Inr (f, 7 + length (payload f)) \<and>
    decode (encode (g :: frame) @ rest) =
      Inr (g\<lparr>payload := take (length (payload g) mod 65536) (payload g)\<rparr>, 7 + length (payload g) mod 65536)"
  using decode_encode [of f rest] assms
  by (simp add: frame_wf_def length_encode HDR_SIZE_def decode_encode_any [of g] Let_def)

theorem frame_roundtrip_witness:
  "decode (encode \<lparr>frame_type = Data, session_id = 258, payload = [1, 2]\<rparr> @ [9]) =
     Inr (\<lparr>frame_type = Data, session_id = 258, payload = [1, 2]\<rparr>, 9)"
  using frame_roundtrip [of "\<lparr>frame_type = Data, session_id = 258, payload = [1, 2]\<rparr>" "[9]"] by simp

text \<open>
  C22. The wire format is canonical: what decodes as a frame is the encoding of that frame
  (so two different byte strings never read as the same frame), and the decoder consumed
  exactly that encoding.
\<close>

theorem decode_canonical:
  assumes "decode buf = Inr (f, n)"
  shows "buf = encode f @ drop n buf \<and> n = length (encode f) \<and> length (payload f) < 65536"
  using decode_exact [OF assms] unfolding frame_wf_def by blast

theorem decode_canonical_witness:
  "decode [5, 0, 0, 1, 2, 0, 1, 99, 77] = Inr (frame_new Close 258 [99], 8) \<and>
   [5, 0, 0, 1, 2, 0, 1, 99, 77] = encode (frame_new Close 258 [99]) @ [77]"
proof -
  have "decode [5, 0, 0, 1, 2, 0, 1, 99, 77] = Inr (frame_new Close 258 [99], 8)"
    by (simp add: decode_def HDR_SIZE_def from_u8_def Let_def u16_from_be_bytes_def
        u32_from_be_bytes_def frame_new_def)
  with decode_canonical [OF this] show ?thesis by simp
qed

text \<open>
  Truncated input is never misread: every proper front part of an encoded frame asks for
  more data, and the decoder fails exactly when a full header starts with a byte that is no
  frame type.
\<close>

theorem decode_truncated:
  assumes "length (payload f) < 65536" "encode f = front @ missing" "missing \<noteq> []"
  shows "decode front = Inl MoreDataRequired"
  using assms by (intro decode_prefix) (simp_all add: frame_wf_def)

theorem decode_truncated_witness: "decode [4, 0, 0, 0, 9, 0, 2, 7] = Inl MoreDataRequired"
  by (rule decode_truncated [of "frame_new Data 9 [7, 8]" _ "[8]"])
    (simp_all add: encode_def frame_type_code_def u32_to_be_bytes_def u16_to_be_bytes_def)

text \<open>
  C23. The payload of a CONNECT frame round-trips for every host of at most 255 bytes of
  UTF-8, whatever follows it, and none of its proper front parts is accepted (the settings
  byte included).
\<close>

theorem connect_payload_roundtrip:
  assumes "utf8_valid host" "length host < 256"
  shows "decode_connect_payload (encode_connect_payload host port udp @ rest) = Some (host, port, udp) \<and>
    (\<forall>front missing. encode_connect_payload host port udp = front @ missing \<longrightarrow> missing \<noteq> [] \<longrightarrow>
       decode_connect_payload front = None)"
  using connect_payload_decodes [OF assms] connect_payload_prefix_rejected [OF assms(2)] by blast

theorem connect_payload_roundtrip_witness:
  "decode_connect_payload (encode_connect_payload (str_bytes ''a.io'') 443 True) =
     Some (str_bytes ''a.io'', 443, True) \<and>
   decode_connect_payload (butlast (encode_connect_payload (str_bytes ''a.io'') 443 True)) = None"
proof -
  have valid: "utf8_valid (str_bytes ''a.io'')"
    by (rule utf8_valid_ascii) (simp add: str_bytes_def)
  have len: "length (str_bytes ''a.io'') < 256" by (simp add: str_bytes_def)
  let ?p = "encode_connect_payload (str_bytes ''a.io'') 443 True"
  have "?p \<noteq> []" by (simp add: encode_connect_payload_def)
  then have "?p = butlast ?p @ [last ?p]" by simp
  with connect_payload_roundtrip [OF valid len, of 443 True "[]"] show ?thesis
    by (metis append_Nil2 not_Cons_self2)
qed

text \<open>
  \<open>h.len() as u8\<close> keeps 8 bits: a host of 256 bytes or more, if the far side accepts its
  CONNECT payload at all, is read as another, shorter host.
\<close>

theorem connect_payload_long_host_differs:
  assumes "256 \<le> length host"
    and "decode_connect_payload (encode_connect_payload host port udp) = Some (h, p, u)"
  shows "h = take (length host mod 256) host \<and> h \<noteq> host"
proof -
  from connect_payload_long_host [OF assms(2)] have h: "h = take (length host mod 256) host" .
  then have "length h \<le> length host mod 256" by simp
  moreover have "length host mod 256 < 256" by simp
  ultimately have "length h < length host" using assms(1) by linarith
  with h show ?thesis by auto
qed

theorem connect_payload_long_host_differs_witness:
  "\<exists>h p u. decode_connect_payload (encode_connect_payload (replicate 256 97) 80 False) = Some (h, p, u) \<and>
     h \<noteq> replicate 256 97"
proof -
  have "(256 :: nat) = Suc (Suc (Suc 253))" by simp
  then have r: "replicate 256 (97 :: u8) = 97 # 97 # 97 # replicate 253 97"
    by (simp only: replicate_Suc)
  have p: "encode_connect_payload (replicate 256 97) 80 False =
      0 # 97 # 97 # 97 # replicate 253 97 @ [0, 80, 0]"
    unfolding r by (simp add: encode_connect_payload_def u16_to_be_bytes_def)
  have d: "decode_connect_payload (encode_connect_payload (replicate 256 97) 80 False) =
      Some ([], u16_from_be_bytes 97 97, False)"
    unfolding p by (simp add: decode_connect_payload_def Let_def from_utf8_def)
  then show ?thesis using connect_payload_long_host_differs [OF _ d] by (intro exI conjI) auto
qed

section \<open>The multiplexer\<close>

text \<open>
  Damaged data: when whole frames are followed by at least seven bytes whose first is no
  frame type, the frames before the damage are still delivered and everything from the damage
  to the end of the buffer is dropped; the event loop goes on with an empty buffer.
\<close>

theorem damage_keeps_whole_frames:
  assumes "\<forall>f\<in>set fs. length (payload f) < 65536"
    and "recv_buf m @ data = concat (map encode fs) @ bad" "7 \<le> length bad" "from_u8 (bad ! 0) = None"
  shows "receive_data data m = (fs, m\<lparr>recv_buf := []\<rparr>)"
  using assms by (intro receive_data_damaged) (simp_all add: frame_wf_def frame_stream_def HDR_SIZE_def)

theorem damage_keeps_whole_frames_witness:
  "receive_data [9, 0, 0, 9, 9, 9, 9, 9, 9, 9] (mux_new\<lparr>recv_buf := [5, 0, 0, 0]\<rparr> :: nat mux) =
     ([frame_new Close 9 []], mux_new)"
proof -
  have "receive_data [9, 0, 0, 9, 9, 9, 9, 9, 9, 9] (mux_new\<lparr>recv_buf := [5, 0, 0, 0]\<rparr> :: nat mux) =
      ([frame_new Close 9 []], mux_new\<lparr>recv_buf := [5, 0, 0, 0]\<rparr>\<lparr>recv_buf := []\<rparr>)"
    by (rule damage_keeps_whole_frames [of _ _ _ "[9, 9, 9, 9, 9, 9, 9]"])
      (simp_all add: encode_def frame_type_code_def u32_to_be_bytes_def u16_to_be_bytes_def from_u8_def)
  then show ?thesis by (simp add: mux_new_def)
qed

text \<open>
  C24. After damage the reader does not wait for a frame boundary: it starts again wherever
  the next arrival starts. If that is inside the payload of a DATA frame, the payload is read
  as frames, so bytes of one session's traffic act as a frame of any type and any session.
\<close>

theorem damage_resumes_inside_frame:
  assumes "length (payload g) < 65536" "recv_buf m = []" "7 \<le> length bad" "from_u8 (bad ! 0) = None"
  shows "\<exists>front. encode (frame_new Data sid (p @ encode g)) = front @ encode g \<and>
    receive_all [bad @ front, encode g] m = ([g], m)"
proof -
  let ?h = "frame_new Data sid (p @ encode g)"
  let ?len = "u16_to_be_bytes (of_nat (length (p @ encode g)))"
  have "encode ?h = ([frame_type_code Data] @ u32_to_be_bytes sid @ ?len @ p) @ encode g"
    unfolding encode_def [of ?h] by simp
  then obtain front where front: "encode ?h = front @ encode g" by blast
  have "receive_data (bad @ front) m = ([], m\<lparr>recv_buf := []\<rparr>)"
    using assms receive_data_damaged [of "[]" m "bad @ front" "bad @ front"]
    by (cases bad) (simp_all add: HDR_SIZE_def)
  moreover have "m\<lparr>recv_buf := []\<rparr> = m" using assms(2) by (cases m) simp
  moreover have "receive_data (encode g) m = ([g], m)"
    using assms(1,2) by (intro receive_data_clean) (simp_all add: frame_wf_def)
  ultimately have "receive_all [bad @ front, encode g] m = ([g], m)" by simp
  with front show ?thesis by blast
qed

theorem damage_resumes_inside_frame_witness:
  "\<exists>front. encode (frame_new Data 1 ([104, 105] @ encode (frame_new Close 2 []))) =
      front @ encode (frame_new Close 2 []) \<and>
    receive_all [replicate 7 0 @ front, encode (frame_new Close 2 [])] (mux_new :: nat mux) =
      ([frame_new Close 2 []], mux_new)"
  by (rule damage_resumes_inside_frame) (simp_all add: mux_new_def from_u8_def nth_Cons')

text \<open>
  Dispatching a batch: every registered session gets the frames of its own id behind what
  was queued for it, in the order of the batch, and no other session is touched, created or
  removed.
\<close>

theorem dispatch_batch:
  assumes "mux_inv m"
  shows "mailbox (fold dispatch fs m) sid =
      map_option (\<lambda>q. q @ filter (\<lambda>f. session_id f = sid) fs) (mailbox m sid) \<and>
    sessions (fold dispatch fs m) = sessions m \<and> mux_inv (fold dispatch fs m)"
  using assms by (simp add: table.mailbox_deliver_all table.inv_deliver_all frame_rules)

theorem dispatch_batch_witness:
  "mailbox (fold dispatch [frame_new Data 1 [7], frame_new Data 2 [8], frame_new Close 1 []]
      (register 1 (mux_new :: nat mux))) 1 = Some [frame_new Data 1 [7], frame_new Close 1 []]"
  using dispatch_batch [of "register 1 (mux_new :: nat mux)"
      "[frame_new Data 1 [7], frame_new Data 2 [8], frame_new Close 1 []]" 1]
  by (simp add: table.inv_register table.mailbox_register)

text \<open>
  A lost link ends every session: after \<open>reset\<close> no session is registered, the frames that
  still come in for the old sessions are discarded, and every session task receives what was
  queued for it and then the end of its channel, so none is left waiting.
\<close>

theorem reset_ends_sessions:
  assumes "c < length (chans m)"
  shows "mailbox (reset m) = Map.empty \<and> fold dispatch fs (reset m) = reset m \<and>
    (case cq (chans m ! c) of
       [] \<Rightarrow> recv c (reset m) = (Closed, reset m)
     | f # q \<Rightarrow> fst (recv c (reset m)) = Got f \<and>
         cq (chans (snd (recv c (reset m))) ! c) = q \<and> chan_closed (snd (recv c (reset m))) c)"
proof -
  have late: "dispatch f (reset m) = reset m" for f
    by (simp add: dispatch_def reset_def)
  have "fold dispatch fs (reset m) = reset m"
    by (induction fs) (simp_all add: late)
  moreover have "cq (chans (reset m) ! c) = cq (chans m ! c)" "chan_closed (reset m) c"
    using assms reset_closes by (simp_all add: reset_def)
  ultimately show ?thesis
    using assms by (auto simp: mailbox_reset recv_closed recv_def chan_closed_def split: list.split)
      (simp_all add: reset_def)
qed

theorem reset_ends_sessions_witness:
  "recv 0 (reset (register 1 (set_link_id (7 :: nat) mux_new))) =
     (Closed, reset (register 1 (set_link_id 7 mux_new)))"
  using reset_ends_sessions [of 0 "register 1 (set_link_id (7 :: nat) mux_new)" "[]"]
  by (simp add: register_def register_session_def drop_sender_def set_link_id_def mux_new_def)

text \<open>
  C25. A lost link really ends the TCP sessions of the client: after \<open>reset\<close>, the steps of
  the relay and of the link sender alone, whatever the network answers to its sends, lead to
  the end of the relay. It still writes the DATA that had arrived, sends its one CLOSE and
  drops its session; a full channel of the link sender holds it up but does not block it.
\<close>

theorem lost_link_ends_tcp_session:
  assumes "mux_inv m" "sessions m sid = Some c" "mailbox m sid = Some q" "down r" "stage r = Relaying"
  shows "\<exists>n' m' r'. (closing_step so mdu sid c)\<^sup>*\<^sup>* (n, reset m, r) (n', m', r') \<and> stage r' = Ended \<and>
    sent r' = sent r @ [frame_new Close sid []] \<and> written r' = written r @ still_written q \<and>
    sessions m' sid = None"
proof (rule closed_session_ends)
  from assms(1-3) have c: "c < length (chans m)" "cq (chans m ! c) = q"
    by (auto simp: mailbox_def mux_invD split: if_splits)
  then show "cq (chans (reset m) ! c) = q" "c < length (chans (reset m))" "\<not> tx_alive (chans (reset m) ! c)"
    by (simp_all add: reset_def)
qed (use assms in simp_all)

theorem lost_link_ends_tcp_session_witness:
  "\<exists>n' m' r'. (closing_step (\<lambda>n l d x. (False, n)) 431 1 0)\<^sup>*\<^sup>*
       ((), reset (dispatch (frame_new Data 1 [5]) (register 1 (mux_new :: nat mux))), relay_start ()) (n', m', r') \<and>
     stage r' = Ended \<and> written r' = [[5]]"
proof -
  let ?m = "register 1 (mux_new :: nat mux)" and ?f = "frame_new Data 1 [5]"
  have inv: "mux_inv ?m" by (simp add: table.inv_register)
  then have inv': "mux_inv (dispatch ?f ?m)" by (rule mux_inv_dispatch)
  have "mailbox (dispatch ?f ?m) 1 = Some [?f]"
    by (simp add: table.mailbox_deliver [OF inv] table.mailbox_register)
  moreover have "sessions (dispatch ?f ?m) 1 = Some 0" "data_q (dispatch ?f ?m) = []"
    by (simp_all add: dispatch_def register_def register_session_def mux_new_def drop_sender_def)
  moreover have "down (relay_start () :: (read_result, bytes, unit) relay)"
    "stage (relay_start () :: (read_result, bytes, unit) relay) = Relaying"
    "written (relay_start () :: (read_result, bytes, unit) relay) = []" by (simp_all add: relay_start_def)
  moreover have "still_written [?f] = [[5]]"
    by (simp add: still_written_def rns_to_tcp_def is_data_def)
  ultimately show ?thesis
    using lost_link_ends_tcp_session [OF inv', of 1 0 "[?f]" "relay_start ()" "\<lambda>n l d x. (False, n)" 431 "()"]
    by fastforce
qed



section \<open>Relays\<close>

text \<open>
  C27. Whatever the socket, the session and the other tasks do, a TCP relay sends only DATA
  frames of its own session, each of at most 4096 bytes, and at most one CLOSE; a relay that has
  ended has sent that CLOSE, and the session table stays well formed. \<open>abort\<close> stops the reading
  task only where it next has to wait, so what it is about to send may still follow the CLOSE
  (\<open>aborted_task_sends_after_close\<close>), but once that task is over nothing follows it. And a relay
  that has left its \<open>select!\<close> can end, with both tasks stopped and nothing more sent than the CLOSE
  if it is still due, as soon as the link sender has room for one frame.
\<close>

theorem tcp_relay_frames:
  assumes "(with_others (relay_bidirectional_tcp sid c))\<^sup>*\<^sup>* (m, relay_start ()) (m', r)"
  shows "(\<forall>f\<in>set (sent r). session_id f = sid \<and> length (payload f) \<le> 4096 \<and>
      (frame_type f = Data \<or> f = frame_new Close sid [])) \<and>
    length (filter is_close (sent r)) \<le> 1 \<and>
    (stage r = Ended \<longrightarrow> frame_new Close sid [] \<in> set (sent r)) \<and> (mux_inv m \<longrightarrow> mux_inv m') \<and>
    (up r = UpDone \<and> (stage r = Dropping \<or> stage r = Ended) \<longrightarrow>
      (\<forall>m2 r2. (with_others (relay_bidirectional_tcp sid c))\<^sup>*\<^sup>* (m', r) (m2, r2) \<longrightarrow> sent r2 = sent r)) \<and>
    (stage r \<noteq> Relaying \<and> length (data_q m') < SENDER_CAPACITY \<longrightarrow>
      (\<exists>m2 r2. (relay_bidirectional_tcp sid c)\<^sup>*\<^sup>* (m', r) (m2, r2) \<and> stage r2 = Ended \<and> up r2 = UpDone \<and> \<not> down r2 \<and>
         sent r2 = sent r @ (if stage r = Closing then [frame_new Close sid []] else [])))"
proof (intro conjI ballI allI impI)
  fix f assume f: "f \<in> set (sent r)"
  from tcp_relay.run_sent(1) [OF assms f]
  show "session_id f = sid" "frame_type f = Data \<or> f = frame_new Close sid []"
    by (auto simp: is_data_def)
  from assms have "\<forall>f\<in>set (sent r). length (payload f) \<le> 4096"
    unfolding relay_bidirectional_tcp_def
    by (rule run_all [where Q = "\<lambda>_. True" and R = "\<lambda>_. True", THEN conjunct1])
      (auto simp: tcp_to_rns_def fits_def BUF_SIZE_def split: read_result.splits if_splits)
  with f show "length (payload f) \<le> 4096" by blast
next
  show "length (filter is_close (sent r)) \<le> 1" by (rule tcp_relay.run_sent(2) [OF assms])
next
  assume "stage r = Ended"
  then show "frame_new Close sid [] \<in> set (sent r)" by (rule tcp_relay.run_sent(3) [OF assms])
next
  assume "mux_inv m"
  then show "mux_inv m'" by (rule tcp_relay.run_inv [OF assms])
next
  fix m2 r2
  assume "up r = UpDone \<and> (stage r = Dropping \<or> stage r = Ended)"
    "(with_others (relay_bidirectional_tcp sid c))\<^sup>*\<^sup>* (m', r) (m2, r2)"
  then show "sent r2 = sent r" using tcp_relay.run_silent by blast
next
  assume "stage r \<noteq> Relaying \<and> length (data_q m') < SENDER_CAPACITY"
  then show "\<exists>m2 r2. (relay_bidirectional_tcp sid c)\<^sup>*\<^sup>* (m', r) (m2, r2) \<and> stage r2 = Ended \<and> up r2 = UpDone \<and> \<not> down r2 \<and>
      sent r2 = sent r @ (if stage r = Closing then [frame_new Close sid []] else [])"
    using tcp_relay.stops_and_ends by metis
qed

theorem tcp_relay_frames_witness:
  "\<exists>m' r. (relay_bidirectional_tcp 1 0)\<^sup>*\<^sup>* (register 1 (mux_new :: nat mux), relay_start ()) (m', r) \<and>
     stage r = Ended \<and> sent r = [frame_new Close 1 []] \<and> mux_inv m'"
proof -
  let ?m = "register 1 (mux_new :: nat mux)"
  obtain m' where "send Close 1 [] ?m = Some m'"
    by (simp add: send_def send_frame_def SENDER_CAPACITY_def register_def register_session_def mux_new_def)
  from relay_up_breaks [where upf = "\<lambda>i x. (tcp_to_rns 1 i, x)" and i = "ReadOk []" and r = "relay_start ()"
      and ok = fits and downf = "\<lambda>f x. rns_to_tcp f" and abort = True and watched = False and locks = False
      and torn = "\<lambda>out n. [take n out]" and c = 0, OF _ _ _ _ this] obtain r where
    r: "(relay_bidirectional_tcp 1 0)\<^sup>*\<^sup>* (?m, relay_start ()) (drop_session 1 m', r)"
    "stage r = Ended" "sent r = [frame_new Close 1 []]"
    by (auto simp: tcp_to_rns_def fits_def relay_start_def relay_bidirectional_tcp_def)
  with tcp_relay_frames [OF run_with_others [OF r(1)]] show ?thesis
    by (intro exI conjI) (assumption | simp add: table.inv_register)+
qed

text \<open>
  An aborted reading task can send after the CLOSE of its session: it has read when the other
  side closes the session, \<open>abort\<close> does not stop it before it next has to wait, and its DATA
  frame finds room in the channel of the link sender behind the CLOSE of its relay.
\<close>

theorem aborted_task_sends_after_close:
  assumes "buf \<noteq> []" "length buf \<le> 4096"
  shows "\<exists>m r. (relay_bidirectional_tcp sid 0)\<^sup>*\<^sup>*
      (dispatch (frame_new Close sid []) (register sid (set_link_id link mux_new)), relay_start ()) (m, r) \<and>
    stage r = Ended \<and> sessions m sid = None \<and> sent r = [frame_new Close sid [], frame_new Data sid buf]"
proof -
  let ?m = "dispatch (frame_new Close sid []) (register sid (set_link_id link mux_new))"
  let ?S = "relay_bidirectional_tcp sid 0" and ?f = "frame_new Data sid buf"
  let ?r = "relay_start ()\<lparr>up := Sending ?f, reads := [ReadOk buf]\<rparr> :: (read_result, bytes, unit) relay"
  from read_frame [of "relay_start ()" fits "ReadOk buf" "\<lambda>i x. (tcp_to_rns sid i, x)" ?f "()"] assms
  have 1: "?S (?m, relay_start ()) (?m, ?r)"
    by (simp add: relay_bidirectional_tcp_def relay_start_def tcp_to_rns_def fits_def BUF_SIZE_def)
  from closed_session_queue [of sid link] obtain m1 m2 where m1: "recv 0 ?m = (Got (frame_new Close sid []), m1)"
    and m2: "send Close sid [] (drop_receiver 0 m1) = Some m2"
    and q: "data_q (drop_session sid m2) = [encode (frame_new Close sid [])]" by blast
  have "rns_to_tcp (frame_new Close sid []) = Break" "down ?r" "stage ?r = Relaying"
    by (simp_all add: rns_to_tcp_def relay_start_def)
  from relay_closes [where downf = "\<lambda>f x. rns_to_tcp f" and ok = fits and upf = "\<lambda>i x. (tcp_to_rns sid i, x)"
      and torn = "\<lambda>out n. [take n out]" and abort = True and watched = False and locks = False, OF m1 this m2]
  obtain r1 where r1: "?S\<^sup>*\<^sup>* (?m, ?r) (drop_session sid m2, r1)" "stage r1 = Ended" "up r1 = Sending ?f"
    "sent r1 = [frame_new Close sid []]" unfolding relay_bidirectional_tcp_def by (auto simp: relay_start_def)
  obtain m3 where m3: "send_frame ?f (drop_session sid m2) = Some m3" by (simp add: send_frame_def q SENDER_CAPACITY_def)
  from tcp_relay.step_sends [OF r1(3) m3] r1 1
  have "?S\<^sup>*\<^sup>* (?m, relay_start ()) (m3, r1\<lparr>up := Reading, sent := sent r1 @ [?f]\<rparr>)"
    by (meson converse_rtranclp_into_rtranclp rtranclp.rtrancl_into_rtrancl)
  moreover have "sessions m3 sid = None" using m3 by (auto simp: send_frame_def drop_session_def split: if_splits)
  ultimately show ?thesis using r1(2,4) by (intro exI conjI) (assumption | simp)+
qed

theorem aborted_task_sends_after_close_witness:
  "\<exists>m r. (relay_bidirectional_tcp 1 0)\<^sup>*\<^sup>*
      (dispatch (frame_new Close 1 []) (register 1 (set_link_id (7 :: nat) mux_new)), relay_start ()) (m, r) \<and>
    stage r = Ended \<and> sessions m 1 = None \<and> sent r = [frame_new Close 1 [], frame_new Data 1 [42]]"
  by (rule aborted_task_sends_after_close) simp_all

text \<open>
  A TCP relay neither changes, reorders nor invents data: the DATA payloads it sent,
  followed by at most one read still waiting in a send, are the reads of the socket in order,
  and what it wrote to the socket is a front part of the payloads of the DATA frames it took, in
  order: all of them but for the one frame, if any, whose write failed or was broken off.
\<close>

theorem tcp_relay_carries_stream:
  assumes "(with_others (relay_bidirectional_tcp sid c))\<^sup>*\<^sup>* (m, relay_start ()) (m', r)"
  shows "(\<exists>lost. concat (map payload (filter is_data (sent r))) @ concat lost = concat (map read_bytes (reads r)) \<and>
      length lost \<le> 1 \<and> (up r = Reading \<longrightarrow> lost = [])) \<and>
    prefix (concat (written r)) (concat (map payload (filter is_data (handled r @ failed r)))) \<and>
    (down r \<longrightarrow> concat (written r) = concat (map payload (filter is_data (handled r))))"
proof -
  from run_tcp_transparent [OF assms] obtain lost where lost:
    "map payload (filter is_data (sent r)) @ lost = map read_bytes (reads r)"
    "case up r of Sending f \<Rightarrow> lost = [payload f] | Reading \<Rightarrow> lost = [] | UpDone \<Rightarrow> length lost \<le> 1"
    "tcp_written r"
    by (auto simp: tcp_transparent_def)
  from lost(1) have "concat (map payload (filter is_data (sent r))) @ concat lost =
      concat (map read_bytes (reads r))"
    by (metis concat_append)
  moreover from lost(2) have "length lost \<le> 1" "up r = Reading \<longrightarrow> lost = []"
    by (cases "up r"; simp)+
  ultimately show ?thesis using tcp_written_prefix [OF lost(3)] tcp_written_down [OF lost(3)] by auto
qed

theorem tcp_relay_carries_stream_witness:
  "\<exists>m' r. (relay_bidirectional_tcp 1 0)\<^sup>*\<^sup>* (mux_new :: nat mux, relay_start ()) (m', r) \<and>
     concat (map payload (filter is_data (sent r))) = [104, 105] \<and>
     concat (map read_bytes (reads r)) = [104, 105]"
proof -
  let ?f = "frame_new Data 1 [104, 105]"
  let ?S = "relay_bidirectional_tcp 1 0"
  let ?r1 = "relay_start ()\<lparr>up := Sending ?f, reads := [ReadOk [104, 105]]\<rparr>"
  let ?r2 = "?r1\<lparr>up := Reading, sent := [?f]\<rparr>"
  obtain m' where m': "send_frame ?f (mux_new :: nat mux) = Some m'"
    by (simp add: send_frame_def SENDER_CAPACITY_def mux_new_def)
  have 1: "?S (mux_new :: nat mux, relay_start ()) (mux_new, ?r1)"
    using read_frame [of "relay_start ()" fits "ReadOk [104, 105]" "\<lambda>i x. (tcp_to_rns 1 i, x)" ?f "()"]
    by (simp add: relay_bidirectional_tcp_def relay_start_def tcp_to_rns_def fits_def BUF_SIZE_def)
  have 2: "?S (mux_new, ?r1) (m', ?r2)"
    using send_done [of ?r1 ?f mux_new m'] m'
    by (simp add: relay_bidirectional_tcp_def relay_start_def)
  from 1 2 have run: "?S\<^sup>*\<^sup>* (mux_new, relay_start ()) (m', ?r2)"
    by (meson converse_rtranclp_into_rtranclp r_into_rtranclp)
  have "concat (map read_bytes (reads ?r2)) = [104, 105]" by (simp add: read_bytes_def BUF_SIZE_def)
  with tcp_relay_carries_stream [OF run_with_others [OF run]] run show ?thesis by fastforce
qed

section \<open>What the exit node reaches\<close>

text \<open>
  C28. Every TCP connection the exit node makes for a session is to an address the filter
  allows for TCP: the handler goes on to the relay only with a stream to such an address, and
  it never tries another one, since nothing it does depends on what connecting to a forbidden
  address would answer.
\<close>

theorem exit_tcp_confined:
  shows "(handle_server_session_tcp resolve_dns connect sid addr c cfg m = Some (Some stream, m') \<longrightarrow>
      (\<exists>sock. resolve_dns addr = Some (Ip sock) \<and> allowed_ip sock cfg Tcp \<and> connect sock = Inr stream)) \<and>
    ((\<forall>sock. allowed_ip sock cfg Tcp \<longrightarrow> connect' sock = connect sock) \<longrightarrow>
      handle_server_session_tcp resolve_dns connect' sid addr c cfg m =
        handle_server_session_tcp resolve_dns connect sid addr c cfg m)"
proof (intro conjI impI)
  assume "handle_server_session_tcp resolve_dns connect sid addr c cfg m = Some (Some stream, m')"
  from handle_tcp_relayD [OF this]
  show "\<exists>sock. resolve_dns addr = Some (Ip sock) \<and> allowed_ip sock cfg Tcp \<and> connect sock = Inr stream"
    by blast
next
  assume same: "\<forall>sock. allowed_ip sock cfg Tcp \<longrightarrow> connect' sock = connect sock"
  show "handle_server_session_tcp resolve_dns connect' sid addr c cfg m =
      handle_server_session_tcp resolve_dns connect sid addr c cfg m"
  proof (cases "filter_and_convert resolve_dns addr (Some cfg) Tcp")
    case (Some sock)
    then have "connect' sock = connect sock" using same by (simp add: filter_and_convert_Some_iff)
    with Some show ?thesis by (simp add: handle_server_session_tcp_def)
  qed (simp add: handle_server_session_tcp_def)
qed

theorem exit_tcp_confined_witness:
  "\<exists>m'. handle_server_session_tcp Some (\<lambda>a. Inr a) 1 (localhost_target 80) 0
      (connect_vec_merging_forward [80] [] []) (mux_new :: nat mux) =
      Some (Some (SocketV4 (ipv4 127 0 0 1) 80), m') \<and>
    allowed_ip (SocketV4 (ipv4 127 0 0 1) 80) (connect_vec_merging_forward [80] [] []) Tcp"
proof -
  have allowed: "allowed_ip (SocketV4 (ipv4 127 0 0 1) 80) (connect_vec_merging_forward [80] [] []) Tcp"
    by (simp add: allowed_ip_forward v4_is_loopback_def)
  then have "\<exists>m'. handle_server_session_tcp Some (\<lambda>a. Inr a) 1 (localhost_target 80) 0
      (connect_vec_merging_forward [80] [] []) (mux_new :: nat mux) =
      Some (Some (SocketV4 (ipv4 127 0 0 1) 80), m')"
    by (simp add: handle_server_session_tcp_def filter_and_convert_def target_to_socket_def
        localhost_target_def send_def send_frame_def SENDER_CAPACITY_def mux_new_def)
  then obtain m' where run: "handle_server_session_tcp Some (\<lambda>a. Inr a) 1 (localhost_target 80) 0
      (connect_vec_merging_forward [80] [] []) (mux_new :: nat mux) =
      Some (Some (SocketV4 (ipv4 127 0 0 1) 80), m')" ..
  with exit_tcp_confined [THEN conjunct1, rule_format, OF run] show ?thesis
    by (auto simp: localhost_target_def)
qed

text \<open>
  C29. Every datagram a UDP session of the exit node sends out goes to an address the filter
  allows for UDP, every datagram it passes back came from such an address, and only DATA of
  the session and at most one CLOSE go back through the tunnel.
\<close>

theorem exit_udp_confined:
  assumes "(with_others (relay_bidirectional_udp_server_side hdr parse resolve_dns cfg sid c))\<^sup>*\<^sup>*
      (m, relay_start ()) (m', r)"
  shows "(\<forall>(data, sock)\<in>set (written r). allowed_ip sock cfg Udp) \<and>
    (\<forall>i\<in>set (reads r). \<exists>buf peer. i = DatagramOk buf peer \<and> buf \<noteq> [] \<and> allowed_ip peer cfg Udp) \<and>
    (\<forall>f\<in>set (sent r). session_id f = sid \<and> (frame_type f = Data \<or> f = frame_new Close sid [])) \<and>
    length (filter is_close (sent r)) \<le> 1"
proof -
  from assms have "(\<forall>f\<in>set (sent r). True) \<and> (\<forall>out\<in>set (written r). allowed_ip (snd out) cfg Udp) \<and>
      (\<forall>i\<in>set (reads r). \<exists>buf peer. i = DatagramOk buf peer \<and> buf \<noteq> [] \<and> allowed_ip peer cfg Udp)"
    unfolding relay_bidirectional_udp_server_side_def
    by (rule run_all)
      (auto simp: server_udp_to_rns_def server_rns_to_udp_def filter_and_convert_Some_iff
        split: recv_from_result.splits if_splits option.splits frame_type.splits)
  moreover from server_udp_relay.run_sent [OF assms]
  have "\<forall>f\<in>set (sent r). session_id f = sid \<and> (frame_type f = Data \<or> f = frame_new Close sid [])"
    "length (filter is_close (sent r)) \<le> 1"
    by (auto simp: is_data_def)
  ultimately show ?thesis by auto
qed

theorem exit_udp_confined_witness:
  "\<exists>m' r. (relay_bidirectional_udp_server_side (\<lambda>a. Some []) (\<lambda>b. Some (0, localhost_target 53, b)) Some
      (connect_vec_merging_forward [] [53] []) 1 0)\<^sup>*\<^sup>*
      (dispatch (frame_new Data 1 [7]) (register 1 (mux_new :: nat mux)), relay_start ()) (m', r) \<and>
    written r = [([7], SocketV4 (ipv4 127 0 0 1) 53)] \<and>
    allowed_ip (SocketV4 (ipv4 127 0 0 1) 53) (connect_vec_merging_forward [] [53] []) Udp"
proof -
  let ?cfg = "connect_vec_merging_forward [] [53] []"
  let ?parse = "\<lambda>b. Some (0, localhost_target 53, b)"
  let ?m = "dispatch (frame_new Data 1 [7]) (register 1 (mux_new :: nat mux))"
  let ?S = "relay_bidirectional_udp_server_side (\<lambda>a. Some []) ?parse Some ?cfg 1 0"
  let ?out = "([7], SocketV4 (ipv4 127 0 0 1) 53)"
  let ?r = "relay_start ()\<lparr>written := [?out], handled := [frame_new Data 1 [7]]\<rparr>"
  have "\<exists>m1. recv 0 ?m = (Got (frame_new Data 1 [7]), m1)"
    by (simp add: recv_def dispatch_def register_def register_session_def drop_sender_def mux_new_def)
  then obtain m1 where recv: "recv 0 ?m = (Got (frame_new Data 1 [7]), m1)" ..
  have "allowed_ip (SocketV4 (ipv4 127 0 0 1) 53) ?cfg Udp"
    by (simp add: allowed_ip_forward v4_is_loopback_def)
  then have "server_rns_to_udp ?parse Some ?cfg (frame_new Data 1 [7]) = Write ?out"
    by (simp add: server_rns_to_udp_def filter_and_convert_def target_to_socket_def localhost_target_def)
  then have "?S (?m, relay_start ()) (m1, ?r)"
    unfolding relay_bidirectional_udp_server_side_def
    using down_write [of "relay_start ()" False "frame_new Data 1 [7]" 0 ?m m1
        "\<lambda>f x. server_rns_to_udp ?parse Some ?cfg f" ?out] recv
    by (simp add: relay_start_def lock_free_def)
  then have run: "?S\<^sup>*\<^sup>* (?m, relay_start ()) (m1, ?r)" by blast
  with exit_udp_confined [OF run_with_others [OF run]] show ?thesis by (intro exI [of _ m1] exI [of _ ?r]) simp
qed

text \<open>
  C30. A rule list means what the documentation of the filter says: the lowest rule that
  applies to the address, the port and the protocol decides, and what no rule applies to is
  refused. Two addresses with the same IP and port are never told apart.
\<close>

theorem filter_lowest_rule_decides:
  "allowed_ip addr \<lparr>filters = rules\<rparr> ptype =
     (case find (rule_applies addr ptype) (rev rules) of
        None \<Rightarrow> False
      | Some rule \<Rightarrow> filter_result rule = Include) \<and>
   allowed_ip (SocketV6 a p fl sc) cfg ptype = allowed_ip (SocketV6 a p 0 0) cfg ptype"
proof (rule conjI)
  show "allowed_ip addr \<lparr>filters = rules\<rparr> ptype =
     (case find (rule_applies addr ptype) (rev rules) of
        None \<Rightarrow> False
      | Some rule \<Rightarrow> filter_result rule = Include)"
    using allowed_ip_policy [of addr rules ptype] by (simp add: policy_def)
  obtain fs where "cfg = \<lparr>filters = fs\<rparr>" by (cases cfg) simp
  then show "allowed_ip (SocketV6 a p fl sc) cfg ptype = allowed_ip (SocketV6 a p 0 0) cfg ptype"
    using allowed_ip_ip_port [of "SocketV6 a p fl sc" "SocketV6 a p 0 0" fs ptype] by simp
qed

text \<open>
  C31. The commands build the filters they promise. \<open>server\<close>: whatever the flags, an address
  is admitted unless it is a loopback address and \<open>--localhost-block\<close> is given or a private one
  and \<open>--private-network-block\<close> is; the port and the protocol play no part. \<open>forward\<close>: only
  loopback addresses, and of them exactly the listed ports for the protocol they are listed
  for; a port given with \<open>-u\<close> is not reachable over TCP nor one given with \<open>-t\<close> over UDP.
\<close>

theorem commands_build_filters:
  "(\<exists>cfg. main_dispatch (Server identity localhost_block private_block) = RunServer identity cfg \<and>
     (\<forall>addr ptype. allowed_ip addr cfg ptype =
        (\<not> (localhost_block \<and> is_loopback (ip_of addr)) \<and> \<not> (private_block \<and> is_private_net (ip_of addr))))) \<and>
   (\<exists>cfg. main_dispatch (Forward identity udp tcp both) = RunServer identity cfg \<and>
     (\<forall>addr. allowed_ip addr cfg Tcp =
        (is_loopback (ip_of addr) \<and> port_of addr \<in> set tcp \<union> set both)) \<and>
     (\<forall>addr. allowed_ip addr cfg Udp =
        (is_loopback (ip_of addr) \<and> port_of addr \<in> set udp \<union> set both)))"
  by (auto simp: allowed_ip_server allowed_ip_forward)

text \<open>
  The two block flags look at the written form of the address. With both given, the
  IPv4-mapped forms of loopback and private addresses (\<open>::ffff:127.0.0.1\<close>,
  \<open>::ffff:10.0.0.1\<close>), the unspecified address \<open>0.0.0.0\<close>, which reaches the machine itself,
  and the link-local range (\<open>169.254.169.254\<close>) are still admitted.
\<close>

theorem block_flags_bypassed:
  "allowed_ip (SocketV6 0xFFFF7F000001 p fl sc) (server_filter_config True True) ptype \<and>
   allowed_ip (SocketV6 0xFFFF0A000001 p fl sc) (server_filter_config True True) ptype \<and>
   allowed_ip (SocketV4 0 p) (server_filter_config True True) ptype \<and>
   allowed_ip (SocketV4 (ipv4 169 254 169 254) p) (server_filter_config True True) ptype"
proof -
  have "octet 0 0 = 0" "octet 1 0 = 0"
    by (simp_all add: octet_def u32_to_be_bytes_def)
  then show ?thesis
    by (simp add: allowed_ip_server v4_is_loopback_def v4_is_private_def v6_is_loopback_def
        v6_is_unique_local_def)
qed

text \<open>
  The \<open>connect\<close> command of a client and the \<open>forward\<close> command of a server agree: the
  target that a tunnel asks for is a loopback port of the exit node, and a forwarding exit node
  admits it for the protocol of the tunnel exactly when it lists that port for it.
\<close>

theorem connect_matches_forward:
  assumes "main_dispatch (ConnectTo dest udp tcp both) = RunClientForward dest ports"
    and "TcpTunnel p \<in> set (run_client_forward_tasks ports)"
  shows "(server_port p, client_port p) \<in> set tcp \<union> set both \<and>
    (filter_and_convert Some (localhost_target (server_port p))
        (Some (connect_vec_merging_forward tcp' udp' both')) Tcp \<noteq> None \<longleftrightarrow>
      server_port p \<in> set tcp' \<union> set both')"
proof
  from assms show "(server_port p, client_port p) \<in> set tcp \<union> set both"
    by (auto simp: connect_vec_merging_connect_def run_client_forward_tasks_def tunnels_of_def
        forward_of_def split: port_type.splits)
  show "filter_and_convert Some (localhost_target (server_port p))
        (Some (connect_vec_merging_forward tcp' udp' both')) Tcp \<noteq> None \<longleftrightarrow>
      server_port p \<in> set tcp' \<union> set both'"
    by (auto simp: localhost_target_def filter_and_convert_def target_to_socket_def
        allowed_ip_forward v4_is_loopback_def)
qed

theorem connect_matches_forward_witness:
  "filter_and_convert Some (localhost_target 80) (Some (connect_vec_merging_forward [80] [] [])) Tcp \<noteq> None"
proof -
  let ?p = "\<lparr>server_port = 80, client_port = 8080, fp_type = Tcp\<rparr>"
  have "TcpTunnel ?p \<in> set (run_client_forward_tasks (connect_vec_merging_connect [(80, 8080)] [] []))"
    by (simp add: run_client_forward_tasks_def connect_vec_merging_connect_def forward_of_def tunnels_of_def)
  from connect_matches_forward [OF _ this, of "[]" "[]" "[(80, 8080)]" "[]" "[80]" "[]" "[]"]
  show ?thesis by simp
qed

text \<open>
  C32. The connect command serves what it was asked for: once connected, the forwarding client
  runs tunnels for its ports only, TCP and UDP ones as the types of the ports say, each on a
  local address it could bind and no two on the same one; and of the tunnels it was asked for none
  is missing but those whose address is not free or is that of another tunnel it runs, in
  whatever order the tunnels come to bind. Every session of a tunnel asks the exit node for the
  loopback address and the remote port of that tunnel. A port 0 is any that is not in use.
\<close>

theorem forward_client_tunnels:
  assumes "run_client_forward hex connect bind order addr ports os = Serving (d, rx, ts, os')"
    and "exclusive_bind bind free held" "held os = {}" "\<forall>us. set (order us) = set us"
  shows "(TcpTunnel p \<in> set ts \<longrightarrow> p \<in> set ports \<and> fp_type p \<in> {Tcp, TcpUdp} \<and> free (Tcp, tunnel_addr p)) \<and>
    (UdpTunnel p \<in> set ts \<longrightarrow> p \<in> set ports \<and> fp_type p \<in> {Udp, TcpUdp} \<and> free (Udp, tunnel_addr p)) \<and>
    distinct (map tunnel_local (filter (\<lambda>t. \<not> any_port t) ts)) \<and>
    (\<forall>t. (\<exists>q\<in>set ports. t = TcpTunnel q \<and> fp_type q \<in> {Tcp, TcpUdp} \<or> t = UdpTunnel q \<and> fp_type q \<in> {Udp, TcpUdp}) \<longrightarrow>
       free (tunnel_local t) \<longrightarrow> (\<exists>u\<in>set ts. tunnel_local u = tunnel_local t \<and> (any_port t \<longrightarrow> u = t))) \<and>
    (\<forall>b o1 es m ss m' o2. tcp_tunnel b p o1 es (m :: 'l mux) = Some ((ss, m'), o2) \<or>
         udp_tunnel b p (o1 :: 'o) es m = Some ((ss, m'), o2) \<longrightarrow>
       (\<forall>(sid, c, target)\<in>set ss. target = localhost_target (server_port p)))"
proof (intro conjI)
  from assms(1) have ts: "tunnel_binds bind (order (run_client_forward_tasks ports)) os = (ts, os')"
    by (auto simp: run_client_forward_def split: option.splits prod.splits)
  from assms(4) have tasks: "set (order us) = set us" for us by blast
  note sound = tunnel_binds_sound [OF assms(2) ts] and complete = tunnel_binds_complete [OF assms(2) ts]
  show "TcpTunnel p \<in> set ts \<longrightarrow> p \<in> set ports \<and> fp_type p \<in> {Tcp, TcpUdp} \<and> free (Tcp, tunnel_addr p)"
    using sound(1) [of "TcpTunnel p"] unfolding tasks tunnel_tasks by simp
  show "UdpTunnel p \<in> set ts \<longrightarrow> p \<in> set ports \<and> fp_type p \<in> {Udp, TcpUdp} \<and> free (Udp, tunnel_addr p)"
    using sound(1) [of "UdpTunnel p"] unfolding tasks tunnel_tasks by simp
  show "distinct (map tunnel_local (filter (\<lambda>t. \<not> any_port t) ts))" by (rule sound(2))
  show "\<forall>t. (\<exists>q\<in>set ports. t = TcpTunnel q \<and> fp_type q \<in> {Tcp, TcpUdp} \<or> t = UdpTunnel q \<and> fp_type q \<in> {Udp, TcpUdp}) \<longrightarrow>
      free (tunnel_local t) \<longrightarrow> (\<exists>u\<in>set ts. tunnel_local u = tunnel_local t \<and> (any_port t \<longrightarrow> u = t))"
    using complete assms(3) unfolding tasks by (blast intro: tunnel_tasks [THEN iffD2])
qed (intro allI impI, erule tunnel_targets)

theorem forward_client_tunnels_witness:
  "\<exists>d rx ts os'. run_client_forward (\<lambda>h. Some (replicate 16 0)) (\<lambda>dest. Some (Some (mux_new :: nat mux, [] :: (nat, unit) proxy_event list)))
      (\<lambda>k a os. if (k, a) \<in> os \<and> port_of a \<noteq> 0 then None else Some (insert (k, a) os)) id []
      [forward_of TcpUdp (80, 8080), forward_of Tcp (81, 8080)] {} = Serving (d, rx, ts, os') \<and>
     TcpTunnel (forward_of TcpUdp (80, 8080)) \<in> set ts \<and> UdpTunnel (forward_of TcpUdp (80, 8080)) \<in> set ts \<and>
     TcpTunnel (forward_of Tcp (81, 8080)) \<notin> set ts \<and> distinct (map tunnel_local (filter (\<lambda>t. \<not> any_port t) ts))"
proof -
  let ?bind = "\<lambda>k a os. if (k, a) \<in> os \<and> port_of a \<noteq> 0 then None else Some (insert (k, a) os)"
  let ?ps = "[forward_of TcpUdp (80, 8080), forward_of Tcp (81, 8080)]"
  let ?run = "run_client_forward (\<lambda>h. Some (replicate 16 0)) (\<lambda>dest. Some (Some (mux_new :: nat mux, [] :: (nat, unit) proxy_event list)))
      ?bind id [] ?ps {}"
  have bind: "exclusive_bind ?bind (\<lambda>a. True) id" by (auto simp: exclusive_bind_def)
  have "?run = Serving (reconnect_generator mux_new, [], [TcpTunnel (forward_of TcpUdp (80, 8080)), UdpTunnel (forward_of TcpUdp (80, 8080))],
      {(Udp, SocketV4 (ipv4 127 0 0 1) 8080), (Tcp, SocketV4 (ipv4 127 0 0 1) 8080)})"
    by (simp add: run_client_forward_def decode_hash_def run_client_forward_tasks_def tunnels_of_def forward_of_def tunnel_addr_def)
  from this forward_client_tunnels [OF this bind, of "forward_of Tcp (81, 8080)"] show ?thesis
    by (simp add: forward_of_def)
qed

section \<open>The exit node\<close>

text \<open>
  C33. Clients do not affect each other: after any history, whatever of the data of one link
  has been handled, frame by frame, the multiplexer of every other link, its sessions and their
  queues are as they were, every session table is well formed, and the new sessions are on the
  link's own multiplexer.
\<close>

theorem server_links_isolated:
  assumes "server_loop\<^sup>*\<^sup>* server_start s" "server_event (LinkData l data :: ('l, 'd) proxy_event) s = Some s1"
    and "server_resumes n s1 = Some s'" and "link_muxes s l' = Some h'" "l' \<noteq> l"
  shows "muxes s' ! h' = muxes s ! h' \<and> link_muxes s' = link_muxes s \<and>
    (\<exists>new. tasks s' = tasks s @ new \<and> (\<forall>t\<in>set new. link_muxes s l = Some (task_mux t))) \<and>
    (\<forall>m\<in>set (muxes s'). mux_inv m)"
proof -
  from server_inv_run [OF assms(1) server_inv_start] have inv: "server_inv s" .
  from server_inv_run [OF server_resumes_run [OF assms(3)] server_inv_event [OF assms(2) inv]]
  have mi: "\<forall>m\<in>set (muxes s'). mux_inv m" by (simp add: server_inv_def)
  show ?thesis
  proof (cases "link_muxes s l")
    case None
    with assms(2) have "s1 = s" "backlog s = []" by (auto simp: server_event_def split: if_splits)
    with assms(3) have "s' = s" by (cases n) (simp_all add: server_resume_def)
    with mi show ?thesis by simp
  next
    case (Some h)
    with inv assms(4,5) have "h' \<noteq> h" by (auto simp: server_inv_def own_handles_def)
    note took = server_event_data [OF assms(2) Some]
    from took(1,3) have "\<forall>(k, f)\<in>set (backlog s1). k = h" by (auto simp: only_mux_def)
    from only_mux_trans [OF took(1) server_resumes_only [OF assms(3) this]] \<open>h' \<noteq> h\<close> Some mi show ?thesis
      by (auto simp: only_mux_def)
  qed
qed

theorem server_links_isolated_witness:
  "\<exists>s s1 s' :: nat server. server_events [LinkEstablished 1 0 False, LinkEstablished 2 0 False :: (nat, unit) proxy_event]
       server_start = Some s \<and>
     server_event (LinkData 1 (encode (frame_new Connect 3 [])) :: (nat, unit) proxy_event) s = Some s1 \<and>
     server_resumes 1 s1 = Some s' \<and> muxes s' ! 1 = muxes s ! 1"
proof -
  let ?es = "[LinkEstablished 1 0 False, LinkEstablished 2 0 False] :: (nat, unit) proxy_event list"
  let ?e = "LinkData 1 (encode (frame_new Connect 3 [])) :: (nat, unit) proxy_event"
  obtain s where s: "server_events ?es server_start = Some s" "link_muxes s 1 = Some 0" "link_muxes s 2 = Some 1"
      "muxes s = [set_link_id 1 mux_new, set_link_id 2 mux_new]" "backlog s = []"
    by (simp add: server_start_def server_handles_def server_event_def)
  have recv: "receive_data (encode (frame_new Connect 3 [])) (muxes s ! 0) = ([frame_new Connect 3 []], muxes s ! 0)"
    using s(4) by (intro receive_data_clean) (simp_all add: frame_wf_def frame_stream_def set_link_id_def mux_new_def)
  with s(2,5) obtain s1 where s1: "server_event ?e s = Some s1" by (simp add: server_event_def)
  from server_event_data(4) [OF s1 s(2) recv] s(4) have "muxes s1 = muxes s" "backlog s1 = [(0, frame_new Connect 3 [])]"
    by simp_all
  with s(4) obtain s' where s': "server_resumes 1 s1 = Some s'"
    by (simp add: server_resume_def server_frame_def decode_connect_payload_def update_mux_def send_def send_frame_def
        SENDER_CAPACITY_def set_link_id_def mux_new_def)
  from server_links_isolated [OF server_events_run [OF s(1)] s1 s' s(3)] s(1) s1 s' show ?thesis by auto
qed

text \<open>
  C20. A CONNECT and the DATA that follows it in the same arrival: the session is registered
  before the later frames are handled, so none of them is lost, whatever else the arrival
  brings for other sessions; when the event loop, idle before, has handled the arrival, the task of
  the session is there and all of them are in its channel.
\<close>

theorem connect_then_data_kept:
  assumes "server_inv s" "backlog s = []" "link_muxes s l = Some h" "recv_buf (muxes s ! h) = []"
    and "frame_type f = Connect" "decode_connect_payload (payload f) = Some (host, p, udp)"
    and "\<forall>g\<in>set fs. frame_type g = Data \<or> frame_type g = Close"
    and "\<forall>g\<in>set (f # fs). length (payload g) < 65536" "data = concat (map encode (f # fs))"
  shows "\<exists>s' c. server_handles (LinkData l data :: ('l, 'd) proxy_event) s = Some s' \<and> server_loop\<^sup>*\<^sup>* s s' \<and>
    tasks s' = tasks s @ [if udp then SessionUdp h (session_id f) (Domain host p) c
                          else SessionTcp h (session_id f) (Domain host p) c] \<and>
    sessions (muxes s' ! h) (session_id f) = Some c \<and>
    mailbox (muxes s' ! h) (session_id f) = Some (filter (\<lambda>g. session_id g = session_id f) fs)"
proof -
  let ?m = "muxes s ! h" and ?sid = "session_id f"
  let ?t = "if udp then SessionUdp h ?sid (Domain host p) (length (chans ?m))
            else SessionTcp h ?sid (Domain host p) (length (chans ?m))"
  let ?s1 = "(update_mux h (register ?sid ?m) s)\<lparr>tasks := tasks s @ [?t]\<rparr>"
  from assms(1,3) have h: "h < length (muxes s)" "mux_inv ?m" by (auto simp: server_inv_def)
  from assms(4,8,9) have recv: "receive_data data ?m = (f # fs, ?m)"
    by (intro receive_data_clean) (simp_all add: frame_wf_def frame_stream_def)
  have id: "update_mux h ?m s = s" by (simp add: update_mux_def)
  have 1: "server_frame h f s = Some ?s1" by (rule server_frame_connect [OF assms(5,6)])
  have 2: "server_frames h fs ?s1 =
      Some (update_mux h (fold dispatch fs (register ?sid ?m)) ?s1)"
    using h(1) by (subst server_frames_dispatch [OF assms(7)]) simp_all
  have "sessions (fold dispatch fs (register ?sid ?m)) ?sid = Some (length (chans ?m))"
    by (simp add: frame_rules) (simp add: register_def register_session_def)
  moreover have "mailbox (fold dispatch fs (register ?sid ?m)) ?sid =
      Some (filter (\<lambda>g. session_id g = ?sid) fs)"
    using h(2) by (simp add: table.mailbox_deliver_all table.inv_register table.mailbox_register)
  moreover have "server_handles (LinkData l data :: ('l, 'd) proxy_event) s =
      Some (update_mux h (fold dispatch fs (register ?sid ?m)) ?s1)"
    by (simp only: server_handles_data [OF assms(2,3) recv] id server_frames.simps 1 option.case 2)
  moreover have run: "server_handles (LinkData l data :: ('l, unit) proxy_event) s =
      Some (update_mux h (fold dispatch fs (register ?sid ?m)) ?s1)"
    by (simp only: server_handles_data [OF assms(2,3) recv] id server_frames.simps 1 option.case 2)
  moreover note server_handles_run [OF run]
  ultimately show ?thesis using h(1) by (intro exI conjI) (assumption | simp)+
qed

theorem connect_then_data_kept_witness:
  "\<exists>(s :: nat server) s' c. server_handles (LinkEstablished 7 0 False :: (nat, unit) proxy_event) server_start = Some s \<and>
     server_handles (LinkData 7 (encode (frame_new Connect 1 (encode_connect_payload [] 80 False)) @
       encode (frame_new Data 1 [42])) :: (nat, unit) proxy_event) s = Some s' \<and>
     tasks s' = [SessionTcp 0 1 (Domain [] 80) c] \<and> mailbox (muxes s' ! 0) 1 = Some [frame_new Data 1 [42]]"
proof -
  let ?f = "frame_new Connect 1 (encode_connect_payload [] 80 False)"
  let ?data = "concat (map encode (?f # [frame_new Data 1 [42]]))"
  obtain s :: "nat server" where est: "server_handles (LinkEstablished 7 0 False :: (nat, unit) proxy_event) server_start = Some s"
      and s: "link_muxes s 7 = Some 0" "muxes s = [set_link_id 7 mux_new]" "tasks s = []" "backlog s = []"
    by (simp add: server_handles_def server_event_def server_start_def)
  have inv: "server_inv s" by (rule server_inv_run [OF server_handles_run [OF est] server_inv_start])
  have dec: "decode_connect_payload (payload ?f) = Some ([], 80, False)"
    using connect_payload_decodes [of "[]" 80 False "[]"] by simp
  have "\<forall>g\<in>set (?f # [frame_new Data 1 [42]]). length (payload g) < 65536"
    by (simp add: codec_simps)
  from connect_then_data_kept [OF inv s(4,1) _ _ dec _ this refl]
  obtain s' c where s': "server_handles (LinkData 7 ?data :: (nat, unit) proxy_event) s = Some s'"
    "tasks s' = tasks s @ [SessionTcp 0 1 (Domain [] 80) c]" "sessions (muxes s' ! 0) 1 = Some c"
    "mailbox (muxes s' ! 0) 1 = Some [frame_new Data 1 [42]]"
    using s by (auto simp: set_link_id_def mux_new_def)
  with est s(3) show ?thesis by auto
qed

section \<open>Sessions\<close>

text \<open>
  What the client asks for is what the exit node gets: the one frame a SOCKS5 session
  queues before it waits is read by the exit node as the same session id, host, port and
  protocol, and makes it spawn the handler of that protocol with that target, for every host
  of at most 255 bytes of UTF-8.
\<close>

theorem connect_reaches_exit:
  assumes "cmd = TCPConnect \<or> cmd = UDPAssociate" "into_string_and_port target = (host, p)"
    and "utf8_valid host" "length host < 256"
    and "open_session into_string_and_port sid cmd target m = Some m'"
  shows "\<exists>f. data_q m' = data_q m @ [encode f] \<and> decode (encode f) = Inr (f, length (encode f)) \<and>
    (\<forall>h s. \<exists>s'. server_frame h f s = Some s' \<and>
       tasks s' = tasks s @ [(if cmd = UDPAssociate then SessionUdp else SessionTcp) h sid (Domain host p)
         (length (chans (muxes s ! h)))])"
proof -
  let ?udp = "cmd = UDPAssociate"
  let ?f = "frame_new Connect sid (encode_connect_payload host p ?udp)"
  from assms(1,2,5) have "send Connect sid (encode_connect_payload host p ?udp) m = Some m'"
    by (auto simp: open_session_def connect_tcp_server_side_def udp_bind_connect_def)
  from send_SomeD [OF this] have "data_q m' = data_q m @ [encode ?f]" by simp
  moreover have "frame_wf ?f" using assms(4) by (simp add: frame_wf_def codec_simps)
  from decode_encode [OF this, of "[]"] have "decode (encode ?f) = Inr (?f, length (encode ?f))" by simp
  moreover have "decode_connect_payload (payload ?f) = Some (host, p, ?udp)"
    using connect_payload_decodes [OF assms(3,4), of p ?udp "[]"] by simp
  ultimately show ?thesis by (intro exI [of _ ?f]) (simp add: server_frame_connect)
qed

theorem connect_reaches_exit_witness:
  "\<exists>f m'. open_session (\<lambda>t. (str_bytes ''a.io'', 80)) 3 TCPConnect (localhost_target 80) (mux_new :: nat mux) = Some m' \<and>
     data_q m' = [encode f] \<and>
     (\<exists>s' :: nat server. server_frame 0 f (server_start\<lparr>muxes := [mux_new]\<rparr>) = Some s' \<and>
        tasks s' = [SessionTcp 0 3 (Domain (str_bytes ''a.io'') 80) 0])"
proof -
  let ?into = "\<lambda>t :: target_addr. (str_bytes ''a.io'', 80 :: u16)"
  let ?s = "server_start\<lparr>muxes := [mux_new]\<rparr> :: nat server"
  have valid: "utf8_valid (str_bytes ''a.io'')"
    by (rule utf8_valid_ascii) (simp add: str_bytes_def)
  have len: "length (str_bytes ''a.io'') < 256" by (simp add: str_bytes_def)
  obtain m' where m': "open_session ?into 3 TCPConnect (localhost_target 80) (mux_new :: nat mux) = Some m'"
    by (simp add: open_session_def connect_tcp_server_side_def send_def send_frame_def SENDER_CAPACITY_def mux_new_def)
  from connect_reaches_exit [OF _ _ valid len m', of 80] obtain f where
    f: "data_q m' = data_q (mux_new :: nat mux) @ [encode f]"
      "\<forall>h (s :: nat server). \<exists>s'. server_frame h f s = Some s' \<and>
        tasks s' = tasks s @ [SessionTcp h 3 (Domain (str_bytes ''a.io'') 80) (length (chans (muxes s ! h)))]"
    by auto
  from f(2) [rule_format, of 0 ?s] obtain s' where "server_frame 0 f ?s = Some s'"
    "tasks s' = [SessionTcp 0 3 (Domain (str_bytes ''a.io'') 80) 0]"
    by (auto simp: server_start_def mux_new_def)
  with m' f(1) show ?thesis by (auto simp: mux_new_def)
qed

text \<open>
  The client learns what the exit node found: the one frame a session handler (TCP or
  UDP) queues, in whatever pieces it crosses the link, ends the wait of the client's session
  with success exactly when the exit node has its connection or socket, and else with the very
  text of the error.
\<close>

theorem handshake_tells_verdict:
  assumes "handle_server_session_tcp resolve connect sid addr rx cfg me = Some (out, me') \<and>
        v = exit_verdict resolve connect addr cfg \<or>
      handle_server_session_udp v sid addr rx me = Some (out, me')"
    and "verdict_ok v"
    and "mux_inv mc" "sessions mc sid = Some c" "mailbox mc sid = Some []" "recv_buf mc = []"
    and "concat ds = concat (drop (length (data_q me)) (data_q me'))"
  shows "(out \<noteq> None \<longleftrightarrow> (\<exists>stream. v = Inr stream)) \<and>
    (\<exists>fs mc'. receive_all ds mc = (fs, mc') \<and>
       connect_result timed_out (fst (await_reply c (fold dispatch fs mc'))) = Some (verdict_result v))"
proof -
  from assms(1) have "data_q me' = data_q me @ [encode (verdict_frame sid v)] \<and>
      out = (case v of Inr stream \<Rightarrow> Some stream | Inl err \<Rightarrow> None)"
    using tcp_handler_verdict udp_handler_verdict by blast
  with client_learns [OF assms(3-6,2)] assms(7) show ?thesis
    by (fastforce simp: connect_result_def split: sum.splits)
qed

theorem handshake_tells_verdict_witness:
  "\<exists>me' (mc :: nat mux) fs mc'.
     handle_server_session_tcp Some (\<lambda>a. Inr () :: bytes + unit) 1 (localhost_target 80) 0
       (server_filter_config True False) (mux_new :: nat mux) = Some (None, me') \<and>
     receive_all (map (\<lambda>b. [b]) (concat (data_q me'))) mc = (fs, mc') \<and>
     connect_result False (fst (await_reply 0 (fold dispatch fs mc'))) = Some (Inl (str_bytes ''invalid ip address''))"
proof -
  let ?cfg = "server_filter_config True False" and ?me = "mux_new :: nat mux"
  let ?mc = "register 1 (set_link_id 7 mux_new) :: nat mux"
  let ?v = "exit_verdict Some (\<lambda>a. Inr () :: bytes + unit) (localhost_target 80) ?cfg"
  have "filter_and_convert Some (localhost_target 80) (Some ?cfg) Tcp = None"
    by (simp add: filter_and_convert_def target_to_socket_def localhost_target_def allowed_ip_server
        v4_is_loopback_def)
  then have v: "?v = Inl (str_bytes ''invalid ip address'')" by (simp add: exit_verdict_def)
  then obtain me' where me': "handle_server_session_tcp Some (\<lambda>a. Inr ()) 1 (localhost_target 80) 0 ?cfg ?me = Some (None, me')"
    by (simp add: handle_server_session_tcp_def exit_verdict_def fail_session_def send_def send_frame_def
        SENDER_CAPACITY_def mux_new_def split: option.splits)
  have valid: "utf8_valid (str_bytes ''invalid ip address'')" by (rule utf8_valid_ascii) (simp add: str_bytes_def)
  have "verdict_ok ?v" unfolding v verdict_ok_def using valid by (simp add: str_bytes_def)
  moreover have "mux_inv ?mc" "sessions ?mc 1 = Some 0" "mailbox ?mc 1 = Some []" "recv_buf ?mc = []"
    by (simp_all add: table.inv_register mux_inv_fields table.mailbox_register frame_rules)
      (simp_all add: register_def register_session_def set_link_id_def mux_new_def)
  moreover have "concat (map (\<lambda>b. [b]) xs) = xs" for xs :: bytes by (induction xs) simp_all
  then have "concat (map (\<lambda>b. [b]) (concat (data_q me'))) =
      concat (drop (length (data_q ?me)) (data_q me'))" by (simp add: mux_new_def)
  moreover note handshake_tells_verdict [where mc = ?mc and c = 0 and timed_out = False
      and ds = "map (\<lambda>b. [b]) (concat (data_q me'))", OF disjI1 [OF conjI [OF me' refl]]]
  ultimately have "\<exists>fs mc'. receive_all (map (\<lambda>b. [b]) (concat (data_q me'))) ?mc = (fs, mc') \<and>
      connect_result False (fst (await_reply 0 (fold dispatch fs mc'))) = Some (verdict_result ?v)" by blast
  with me' show ?thesis unfolding v by (auto simp: verdict_result_def)
qed

text \<open>
  The TCP handler of the exit node answers every session with exactly one frame: CONN_OK
  with the session kept, or CONN_ERR with a reason and the session dropped. It is held up only
  by a full link sender, and it never touches another session.
\<close>

theorem tcp_session_one_reply:
  assumes "mux_inv m" "sessions m sid = Some c"
  shows "case handle_server_session_tcp resolve_dns connect sid addr c cfg m of
      None \<Rightarrow> 5 \<le> length (data_q m)
    | Some (Some stream, m') \<Rightarrow>
        data_q m' = data_q m @ [encode (frame_new ConnectOk sid [])] \<and> mailbox m' = mailbox m \<and> mux_inv m'
    | Some (None, m') \<Rightarrow>
        (\<exists>reason. data_q m' = data_q m @ [encode (frame_new ConnectErr sid reason)]) \<and>
        mailbox m' = (mailbox m)(sid := None) \<and> mux_inv m'"
proof (cases "handle_server_session_tcp resolve_dns connect sid addr c cfg m")
  case None
  then have "5 \<le> length (data_q m)" by (simp add: handle_tcp_blocked SENDER_CAPACITY_def)
  with None show ?thesis by simp
next
  case (Some r)
  then obtain k m' where r: "handle_server_session_tcp resolve_dns connect sid addr c cfg m = Some (k, m')"
    by (cases r) auto
  show ?thesis
  proof (cases k)
    case None
    from handle_tcp_failD [OF r [unfolded None]] obtain reason where
      f: "fail_session sid c reason m = Some m'" by blast
    have "\<forall>s. s \<noteq> sid \<longrightarrow> sessions m s \<noteq> Some c"
      using mux_invD(3) [OF assms] by blast
    note f' = fail_session_SomeD [OF f assms(1) this]
    then have "\<exists>reason. data_q m' = data_q m @ [encode (frame_new ConnectErr sid reason)]" by blast
    with f'(1,3) show ?thesis unfolding r None option.case prod.case by blast
  next
    case (Some stream)
    from handle_tcp_relayD [OF r [unfolded Some]] have sent: "send ConnectOk sid [] m = Some m'" by blast
    from send_SomeD [OF sent] mailbox_send [OF sent] mux_inv_send [OF sent] assms(1)
    show ?thesis unfolding r Some option.case prod.case by simp
  qed
qed

theorem tcp_session_one_reply_witness:
  "\<exists>m'. handle_server_session_tcp (\<lambda>t. None) (\<lambda>a. Inr ()) 1 (localhost_target 80) 0
      (server_filter_config True True) (register 1 (mux_new :: nat mux)) = Some (None, m') \<and>
    (\<exists>reason. data_q m' = [encode (frame_new ConnectErr 1 reason)]) \<and> mailbox m' 1 = None"
proof -
  let ?m = "register 1 (mux_new :: nat mux)"
  have c: "sessions ?m 1 = Some 0" by (simp add: register_def register_session_def mux_new_def)
  have inv: "mux_inv ?m" by (simp add: table.inv_register)
  have q: "data_q ?m = []" by (simp add: register_def register_session_def mux_new_def)
  obtain m' where m': "handle_server_session_tcp (\<lambda>t. None) (\<lambda>a. Inr ()) 1 (localhost_target 80) 0
      (server_filter_config True True) ?m = Some (None, m')"
    by (simp add: handle_server_session_tcp_def filter_and_convert_def target_to_socket_def
        fail_session_def send_def send_frame_def q SENDER_CAPACITY_def)
  from tcp_session_one_reply [OF inv c, of "\<lambda>t. None" "\<lambda>a. Inr ()" "localhost_target 80"
      "server_filter_config True True"] m' q show ?thesis by auto
qed

text \<open>
  A CONNECT that reuses a session id takes the id over: the earlier session's channel is
  closed. When the earlier handler then gives up, it drops the id, which is the new session by
  now, so the new session's channel is closed with nothing in it.
\<close>

theorem reused_id_closes_both:
  assumes "mux_inv m" "sessions m sid = Some old"
    and "register_session sid m = (new, m1)" "fail_session sid old reason m1 = Some m2"
  shows "chan_closed m1 old \<and> sessions m1 sid = Some new \<and> sessions m2 sid = None \<and>
    recv new m2 = (Closed, m2)"
proof -
  from assms(3) have m1: "m1 = register sid m" "new = length (chans m)" "sessions m1 sid = Some new"
      "cq (chans m1 ! new) = []" "new < length (chans m1)"
    by (auto simp: register_def register_session_def nth_append)
  from m1(1) assms(1) have inv: "mux_inv m1" by (simp add: table.inv_register)
  from m1(2) mux_invD(1) [OF assms(1,2)] have "old \<noteq> new" by simp
  moreover from assms(4) obtain m' where "send ConnectErr sid reason m1 = Some m'"
      "m2 = drop_receiver old (drop_session sid m')"
    by (auto simp: fail_session_def split: option.splits)
  with send_SomeD [of ConnectErr sid reason m1 m']
  have m2: "m2 = drop_receiver old (drop_session sid (m1\<lparr>data_q := data_q m1 @ [encode (frame_new ConnectErr sid reason)]\<rparr>))"
    by simp
  ultimately have "chans m2 ! new = close_tx (chans m1 ! new)" "sessions m2 sid = None"
    using m1(3,5) by (simp_all add: drop_receiver_def drop_session_def drop_sender_def)
  with m1 register_closes_old [OF assms(1,2)] show ?thesis
    by (auto simp: recv_def)
qed

theorem reused_id_closes_both_witness:
  "\<exists>m2. fail_session 1 0 [] (snd (register_session 1 (register 1 (mux_new :: nat mux)))) = Some m2 \<and>
     sessions m2 1 = None \<and> recv 1 m2 = (Closed, m2)"
proof -
  let ?m = "register 1 (mux_new :: nat mux)"
  have m: "mux_inv ?m" "sessions ?m 1 = Some 0" "register_session 1 ?m = (1, snd (register_session 1 ?m))"
    by (simp_all add: table.inv_register) (simp_all add: register_def register_session_def mux_new_def drop_sender_def)
  obtain m2 where "fail_session 1 0 [] (snd (register_session 1 ?m)) = Some m2"
    by (simp add: fail_session_def send_def send_frame_def register_def register_session_def
        mux_new_def SENDER_CAPACITY_def)
  with reused_id_closes_both [OF m this] show ?thesis by blast
qed

text \<open>
  C40. When a link closes, the exit node forgets its multiplexer but does not end its sessions:
  the multiplexer and its tasks stay exactly as they are, no later event ever reaches them, and
  a session that had taken all its frames waits for another one forever.
\<close>

theorem closed_link_strands_sessions:
  assumes "server_inv s" "link_muxes s l = Some h"
    and "server_event (LinkClosed l reason :: ('l, 'd) proxy_event) s = Some s'"
    and "server_loop\<^sup>*\<^sup>* s' s''"
  shows "tasks s' = tasks s \<and> muxes s'' ! h = muxes s ! h \<and> (\<forall>l'. link_muxes s'' l' \<noteq> Some h) \<and>
    (\<forall>sid c. sessions (muxes s ! h) sid = Some c \<longrightarrow> mailbox (muxes s ! h) sid = Some [] \<longrightarrow>
       recv c (muxes s'' ! h) = (Pending, muxes s'' ! h))"
proof -
  from assms(3) have s': "s' = s\<lparr>link_muxes := (link_muxes s)(l := None)\<rparr>" "backlog s = []"
    by (simp_all add: server_event_def split: if_splits)
  with assms(1,2) have un: "unlinked h s'"
    by (auto simp: unlinked_def server_inv_def own_handles_def)
  from server_loop_unlinked [OF assms(4) un] have "unlinked h s''" "muxes s'' ! h = muxes s ! h"
    by (simp_all add: s')
  moreover from assms(1,2) have "mux_inv (muxes s ! h)" by (simp add: server_inv_def)
  ultimately show ?thesis using recv_Nil s' by (auto simp: unlinked_def)
qed

theorem closed_link_strands_sessions_witness:
  "\<exists>s' :: nat server. server_event (LinkClosed 7 None :: (nat, unit) proxy_event)
      (server_start\<lparr>muxes := [register 1 mux_new], link_muxes := [7 \<mapsto> 0], tasks := [SessionTcp 0 1 (Domain [] 80) 0]\<rparr>) = Some s' \<and>
     tasks s' = [SessionTcp 0 1 (Domain [] 80) 0] \<and> recv 0 (muxes s' ! 0) = (Pending, muxes s' ! 0)"
proof -
  let ?s = "server_start\<lparr>muxes := [register 1 mux_new], link_muxes := [7 \<mapsto> 0],
    tasks := [SessionTcp 0 1 (Domain [] 80) 0]\<rparr> :: nat server"
  have inv: "server_inv ?s"
    by (simp add: server_inv_def server_start_def own_handles_def table.inv_register)
  have l: "link_muxes ?s 7 = Some 0" by simp
  have ev: "server_event (LinkClosed 7 None :: (nat, unit) proxy_event) ?s = Some (?s\<lparr>link_muxes := (link_muxes ?s)(7 := None)\<rparr>)"
    by (simp add: server_event_def server_start_def)
  have reg: "sessions (register 1 (mux_new :: nat mux)) 1 = Some 0" "mailbox (register 1 (mux_new :: nat mux)) 1 = Some []"
    by (simp_all add: table.mailbox_register) (simp add: register_def register_session_def mux_new_def)
  from closed_link_strands_sessions [OF inv l ev rtranclp.rtrancl_refl] reg ev show ?thesis by auto
qed

text \<open>
  Waiting for the reply to a CONNECT: frames that decide nothing are skipped, the first
  CONN_OK or CONN_ERR decides, and what follows it stays queued for the relay; with no such
  frame the wait goes on, ends in an error when the channel has closed, and ends in \<open>Timeout\<close>
  after the 60 seconds. The reason given for an error is always valid UTF-8.
\<close>

theorem connect_reply_first_decides:
  assumes "c < length (chans m)" "cq (chans m ! c) = pre @ rest" "\<forall>f\<in>set pre. \<not> decides f"
    and "rest = [] \<or> decides (hd rest)"
  shows "(case await_reply c m of (w, m') \<Rightarrow>
      cq (chans m' ! c) = tl rest \<and> sessions m' = sessions m \<and> data_q m' = data_q m \<and>
      connect_result timed_out w =
        (if rest = [] then
           (if \<not> tx_alive (chans m ! c) then Some (Inl (str_bytes ''channel closed''))
            else if timed_out then Some (Inl (str_bytes ''Timeout'')) else None)
         else if frame_type (hd rest) = ConnectOk then Some (Inr ())
         else Some (Inl (from_utf8_lossy (payload (hd rest)))))) \<and>
    utf8_valid (from_utf8_lossy reason)"
proof -
  have "await_queue tx (cq (chans m ! c)) = await_queue tx rest" for tx
    unfolding assms(2) by (rule await_queue_split [OF assms(3)])
  with assms(1,4) show ?thesis
    by (cases rest) (auto simp: await_reply_def decides_def connect_result_def from_utf8_lossy_valid)
qed

theorem connect_reply_first_decides_witness:
  "connect_result True (fst (await_reply 0 (mux_new\<lparr>chans := [chan_new
      \<lparr>cq := [frame_new Data 1 [7], frame_new ConnectOk 1 [], frame_new Data 1 [8]]\<rparr>]\<rparr> :: nat mux))) =
     Some (Inr ())"
proof -
  let ?m = "mux_new\<lparr>chans := [chan_new
      \<lparr>cq := [frame_new Data 1 [7], frame_new ConnectOk 1 [], frame_new Data 1 [8]]\<rparr>]\<rparr> :: nat mux"
  have "cq (chans ?m ! 0) = [frame_new Data 1 [7]] @ [frame_new ConnectOk 1 [], frame_new Data 1 [8]]"
    by simp
  from connect_reply_first_decides [OF _ this, of True] show ?thesis
    by (simp add: decides_def case_prod_beta)
qed

text \<open>
  When a SOCKS5 session ends without a relay, its id is taken out of the session table
  only after a success reply could not be written or after a failed UDP association. A refused
  TCP connect, a failed handshake, an unreadable or unsupported command, and every failed
  tunnel leave the id registered, and after a refused TCP connect the client gets no reply.
\<close>

theorem unserved_sessions_leak:
  assumes "handle_socks5_session sid c hs result bind_ok reply_ok m = Some (None, reply, m')"
  shows "sessions m' sid =
      (if hs = Requested TCPConnect \<and> result = Inr () \<or> hs = Requested UDPAssociate \<and> bind_ok then None
       else sessions m sid) \<and>
    (\<forall>e. result = Inl e \<longrightarrow>
       (hs = Requested TCPConnect \<longrightarrow> reply = NoReply) \<and>
       (hs = Requested UDPAssociate \<and> bind_ok \<longrightarrow> reply = GeneralFailure) \<and>
       sessions (snd (tunnel_session kind c result m)) sid = sessions m sid)"
proof -
  have leave: "sessions (drop_receiver c n) = sessions n" for n :: "'z mux"
    by (simp add: drop_receiver_def)
  have tun: "sessions (snd (tunnel_session kind c (Inl e) m)) sid = sessions m sid" for e
    by (simp add: tunnel_session_def leave)
  from assms show ?thesis
  proof (cases hs)
    case (Requested cmd)
    with assms tun show ?thesis
      by (cases cmd; cases result)
        (auto simp: handle_tcp_connect_def handle_udp_connect_def end_session_def leave drop_session_def
          split: option.splits if_splits dest!: sessions_close_session)
  qed (use assms tun in \<open>auto simp: leave\<close>)
qed

theorem unserved_sessions_leak_witness:
  "\<exists>m'. handle_socks5_session 1 0 (Requested TCPConnect) (Inl []) True True (register 1 (mux_new :: nat mux)) =
      Some (None, NoReply, m') \<and> sessions m' 1 = Some 0"
proof -
  let ?m = "register 1 (mux_new :: nat mux)"
  have run: "handle_socks5_session 1 0 (Requested TCPConnect) (Inl []) True True ?m =
      Some (None, NoReply, drop_receiver 0 ?m)"
    by (simp add: handle_tcp_connect_def end_session_def)
  have "sessions ?m 1 = Some 0" by (simp add: register_def register_session_def mux_new_def)
  with unserved_sessions_leak [OF run] run show ?thesis by simp
qed

text \<open>
  C35. Session ids are not reused: after any history of a client with at most
  \<open>2 ^ 32 - 2\<close> accepted connections, over all its listeners and reconnections, the next
  connection gets an id that is registered to no session, so no running session loses its
  channel.
\<close>

theorem session_ids_fresh:
  assumes "client_history k m" "Suc k < 2 ^ 32" "accept_round Accepted m = (Some (sid, c), m')"
  shows "sid = of_nat (Suc k) \<and> sessions m sid = None \<and>
    sessions m' = (sessions m)(sid \<mapsto> c) \<and> mailbox m' = (mailbox m)(sid \<mapsto> []) \<and> client_history (Suc k) m'"
proof -
  from client_history_ids [OF assms(1)] have inv: "ids_inv k m" .
  from accept_round_Some [OF assms(3)] have *: "sid = next_sid m + 1" "c = length (chans m)"
    "m' = register sid (m\<lparr>next_sid := sid\<rparr>)" by auto
  have mi: "mux_inv (m\<lparr>next_sid := sid\<rparr>)" using inv by (simp add: ids_inv_def mux_inv_def)
  have "mailbox (m\<lparr>next_sid := sid\<rparr>) = mailbox m" by (rule mailbox_cong) simp_all
  with table.mailbox_register [OF mi, of sid] *(3) have "mailbox m' = (mailbox m)(sid \<mapsto> [])" by simp
  moreover have "sessions m' = (sessions m)(sid \<mapsto> c)"
    using * by (simp add: register_def register_session_def)
  moreover have "sid = of_nat (Suc k)" using inv *(1) by (simp add: ids_inv_def)
  moreover have "sessions m sid = None" unfolding *(1) by (rule fresh_id [OF inv assms(2)])
  ultimately show ?thesis using client_history.accept [OF assms(1,3)] by blast
qed

theorem session_ids_fresh_witness:
  "\<exists>m'. accept_round Accepted (set_link_id (7 :: nat) mux_new) = (Some (1, 0), m') \<and>
     sessions (set_link_id (7 :: nat) mux_new) 1 = None \<and> mailbox m' 1 = Some []"
proof -
  let ?m = "set_link_id (7 :: nat) mux_new"
  have h: "client_history 0 ?m" by (intro client_history.link client_history.new)
  obtain m' where a: "accept_round Accepted ?m = (Some (1, 0), m')"
    by (simp add: accept_round_def is_connected_def next_session_id_def register_session_def
        set_link_id_def mux_new_def)
  from session_ids_fresh [OF h _ a] a show ?thesis by auto
qed

section \<open>Reconnection\<close>

text \<open>
  C36. A reconnected client starts clean: whatever happened before, when the link it asked for
  is established the client is connected on that link with an empty reassembly buffer, so the
  first frames of the new link are read as they were sent, in any segmentation, and nothing
  of the old link is mixed in.
\<close>

theorem reconnect_starts_clean:
  assumes "driver_reachable first r" "phase r = AwaitingLink d l"
  shows "\<exists>r'. driver_step (Event (LinkEstablished l rtt True) :: ('l, unit) input) r = Some r' \<and>
    driver_reachable first r' \<and> phase r' = Dispatching \<and> link_id (dmux r') = Some l \<and>
    notified r' = Suc (notified r) \<and>
    (\<forall>fs pieces. (\<forall>f\<in>set fs. length (payload f) < 65536) \<longrightarrow> concat pieces = concat (map encode fs) \<longrightarrow>
       receive_all pieces (dmux r') = (fs, dmux r'))"
proof -
  from reachable_driver_inv [OF assms(1)] assms(2) have buf: "recv_buf (dmux r) = []"
    by (simp add: driver_inv_def)
  let ?r = "r\<lparr>dmux := set_link_id l (dmux r), phase := Dispatching, notified := Suc (notified r)\<rparr>"
  have step: "driver_step (Event (LinkEstablished l rtt True) :: ('l, unit) input) r = Some ?r"
    using assms(2) by (simp add: driver_step_def establish_event_def)
  moreover have "receive_all pieces (dmux ?r) = (fs, dmux ?r)"
    if "\<forall>f\<in>set fs. length (payload f) < 65536" "concat pieces = concat (map encode fs)" for fs pieces
    using that buf by (intro receive_all_stream) (simp_all add: frame_wf_def frame_stream_def set_link_id_def)
  ultimately show ?thesis
    using driver_reachable.step [OF assms(1) step] by (intro exI [of _ ?r]) (simp add: set_link_id_def)
qed

theorem reconnect_starts_clean_witness:
  "\<exists>r r'. driver_run [Event (LinkData 1 [4, 0, 0]), Event (LinkClosed 1 None), Timer, PathChecked True,
       Recalled (Some []), LinkAttempt (Some 2) :: (nat, unit) input] (driver_start 1) = Some r \<and>
     phase r = AwaitingLink 0 2 \<and>
     driver_step (Event (LinkEstablished 2 0 True) :: (nat, unit) input) r = Some r' \<and>
     receive_all [encode (frame_new Close 1 [])] (dmux r') = ([frame_new Close 1 []], dmux r')"
proof -
  let ?is = "[Event (LinkData 1 [4, 0, 0]), Event (LinkClosed 1 None), Timer, PathChecked True,
       Recalled (Some []), LinkAttempt (Some 2)] :: (nat, unit) input list"
  have reach: "driver_run is r = Some r' \<Longrightarrow> driver_reachable l r \<Longrightarrow> driver_reachable l r'"
    for "is" :: "(nat, unit) input list" and l r r'
    by (induction "is" arbitrary: r) (auto split: option.splits intro: driver_reachable.step)
  obtain r where run: "driver_run ?is (driver_start 1) = Some r" "phase r = AwaitingLink 0 2"
    by (simp add: driver_step_def driver_start_def dispatch_event_def)
  from reconnect_starts_clean [OF reach [OF run(1) driver_reachable.start] run(2), of 0]
  obtain r' where r': "driver_step (Event (LinkEstablished 2 0 True) :: (nat, unit) input) r = Some r'"
    "\<forall>fs pieces. (\<forall>f\<in>set fs. length (payload f) < 65536) \<longrightarrow> concat pieces = concat (map encode fs) \<longrightarrow>
       receive_all pieces (dmux r') = (fs, dmux r')" by blast
  from r'(2) [rule_format, of "[frame_new Close 1 []]" "[encode (frame_new Close 1 [])]"]
  have "receive_all [encode (frame_new Close 1 [])] (dmux r') = ([frame_new Close 1 []], dmux r')"
    by simp
  with run r'(1) show ?thesis by blast
qed

text \<open>
  While the client has no link it takes no connection: from the loss of a link until the
  next one is up, no accept loop (the proxy's, a TCP tunnel's, a UDP tunnel's) opens a session
  or touches the multiplexer, whatever the other tasks did since.
\<close>

theorem no_session_while_reconnecting:
  assumes "driver_reachable l r" "phase_delay (phase r) = Some d"
  shows "accept_round e (dmux r) = (None, dmux r) \<and> tcp_tunnel_round p e (dmux r) = (None, dmux r) \<and>
    udp_tunnel_round p e (dmux r) = (None, dmux r)"
  using reconnecting_refuses [OF assms] by simp

theorem no_session_while_reconnecting_witness:
  "\<exists>r. driver_step (Event (LinkClosed (7 :: nat) None) :: (nat, unit) input) (driver_start 7) = Some r \<and>
     accept_round Accepted (dmux r) = (None, dmux r)"
proof -
  let ?i = "Event (LinkClosed (7 :: nat) None) :: (nat, unit) input"
  obtain r where r: "driver_step ?i (driver_start 7) = Some r" "phase r = Sleeping 0"
    by (simp add: driver_step_def driver_start_def dispatch_event_def)
  from driver_reachable.step [OF driver_reachable.start r(1)] have "driver_reachable 7 r" .
  from no_session_while_reconnecting [OF this, of 0 Accepted] r show ?thesis by simp
qed

text \<open>
  Failed link attempts back off: after the loss of a link the waits are 0, 1, 3, 7, 15 and
  then 30 seconds, and in every reachable state of the reconnection the wait is at most 30
  seconds and the client counts as disconnected, so it takes no new connections.
\<close>

theorem link_attempts_back_off:
  assumes "driver_reachable first r" "phase r = Sleeping 0"
  shows "driver_run (concat (replicate k
        [Timer, PathChecked True, Recalled (Some key), LinkAttempt None :: ('l, unit) input])) r =
      Some (r\<lparr>phase := Sleeping (if k < 5 then [0, 1, 3, 7, 15] ! k else 30)\<rparr>) \<and>
    (\<forall>r' d. driver_reachable first r' \<longrightarrow> phase_delay (phase r') = Some d \<longrightarrow>
       d \<le> 30 \<and> accept_round Accepted (dmux r') = (None, dmux r'))"
proof (intro conjI allI impI)
  show "driver_run (concat (replicate k
        [Timer, PathChecked True, Recalled (Some key), LinkAttempt None :: ('l, unit) input])) r =
      Some (r\<lparr>phase := Sleeping (if k < 5 then [0, 1, 3, 7, 15] ! k else 30)\<rparr>)"
    using driver_link_rounds [OF assms(2), of k key] by (simp only: link_backoff_sequence)
next
  fix r' d assume "driver_reachable first r'" "phase_delay (phase r') = Some d"
  with reachable_driver_inv [of first r'] show "d \<le> 30" "accept_round Accepted (dmux r') = (None, dmux r')"
    by (auto simp: driver_inv_def accept_round_def)
qed

theorem link_attempts_back_off_witness:
  "\<exists>r. driver_reachable (1 :: nat) r \<and>
     driver_run (concat (replicate 3 [Timer, PathChecked True, Recalled (Some []), LinkAttempt None :: (nat, unit) input])) r =
       Some (r\<lparr>phase := Sleeping 7\<rparr>)"
proof -
  let ?r = "dispatch_event (LinkClosed 1 None :: (nat, unit) proxy_event) (driver_start 1)"
  have "driver_step (Event (LinkClosed 1 None) :: (nat, unit) input) (driver_start 1) = Some ?r"
    by (simp add: driver_step_def driver_start_def)
  from driver_reachable.step [OF driver_reachable.start this] have r: "driver_reachable 1 ?r" .
  have "phase ?r = Sleeping 0" by (simp add: dispatch_event_def)
  from link_attempts_back_off [OF r this, of 3] r show ?thesis by auto
qed

text \<open>
  A missing path never backs off: the delay starts at 0 and the path and recall branches
  double it, so after any number of rounds without a path, or without the server's identity,
  the machine is exactly where it was, with no wait before the next round.
\<close>

theorem missing_path_never_backs_off:
  assumes "phase r = Sleeping 0" "\<forall>round\<in>set rounds. round = [Timer, PathChecked False] \<or>
      round = [Timer, PathChecked True, Recalled None :: ('l, 'd) input]"
  shows "driver_run (concat rounds) r = Some r"
  using assms(2)
proof (induction rounds)
  case (Cons round rounds)
  have same: "r\<lparr>phase := Sleeping 0\<rparr> = r" using assms(1) by simp
  have "driver_run round r = Some r"
    using Cons.prems assms(1) same by (auto simp: driver_step_def path_failed_def path_backoff_zero)
  with Cons show ?case by (simp add: driver_run_append)
qed simp

theorem missing_path_never_backs_off_witness:
  "driver_run [Timer, PathChecked False, Timer, PathChecked True, Recalled None, Timer, PathChecked False :: (nat, unit) input]
     (dispatch_event (LinkClosed 1 None :: (nat, unit) proxy_event) (driver_start 1)) =
   Some (dispatch_event (LinkClosed 1 None :: (nat, unit) proxy_event) (driver_start 1))"
  using missing_path_never_backs_off [of "dispatch_event (LinkClosed 1 None :: (nat, unit) proxy_event) (driver_start 1)"
      "[[Timer, PathChecked False], [Timer, PathChecked True, Recalled None], [Timer, PathChecked False :: (nat, unit) input]]"]
  by (simp only: concat.simps append_Cons append_Nil list.set) (simp add: dispatch_event_def)

text \<open>
  C39. The dispatch loop does not look at link ids: the close of any link, also of one that was
  asked for earlier and is not the current one, disconnects the client and drops all its
  sessions, while the same event is ignored as long as the new link is awaited; and data of any
  link is read as data of the current one.
\<close>

theorem foreign_close_ends_live_link:
  assumes "phase r = AwaitingLink d l" "old \<noteq> l"
  shows "driver_step (Event (LinkClosed old reason) :: ('l, 'd) input) r = Some r \<and>
    (\<exists>r'. driver_run [Event (LinkEstablished l rtt True), Event (LinkClosed old reason) :: ('l, 'd) input] r = Some r' \<and>
       phase r' = Sleeping 0 \<and> \<not> is_connected (dmux r') \<and> mailbox (dmux r') = Map.empty) \<and>
    (\<forall>s. driver_step (Event (LinkData old bytes) :: ('l, 'd) input) s = driver_step (Event (LinkData l bytes)) s)"
  using assms
  by (auto simp: driver_step_def establish_event_def dispatch_event_def mailbox_reset split: phase.split)
    (simp add: reset_def is_connected_def)

theorem foreign_close_ends_live_link_witness:
  "\<exists>r'. driver_run [Event (LinkEstablished 2 0 True), Event (LinkClosed 1 None) :: (nat, unit) input]
      \<lparr>dmux = mux_new, phase = AwaitingLink 0 2, notified = 0\<rparr> = Some r' \<and> phase r' = Sleeping 0"
proof -
  let ?r = "\<lparr>dmux = mux_new, phase = AwaitingLink 0 (2 :: nat), notified = 0\<rparr>"
  have "phase ?r = AwaitingLink 0 2" "(1 :: nat) \<noteq> 2" by simp_all
  from foreign_close_ends_live_link [OF this, of "None :: unit option" 0] show ?thesis by blast
qed

text \<open>
  A send that was under way on the lost link and fails after the reconnection takes the
  new link down for sending: the link id of the multiplexer is gone, new connections are
  refused and queued frames are thrown away, and no event but the close of a link, nor any
  data that comes in, brings the link id back.
\<close>

theorem stale_send_failure_disconnects:
  assumes "sender m = Some (old, chunk # cs)" "send_on_link net old chunk DATA_CONTEXT = (False, net')"
  shows "let m' = snd (sender_chunk send_on_link (net, set_link_id new (reset m)))
    in is_connected (set_link_id new (reset m)) \<and> accept_round Accepted m' = (None, m') \<and>
       (\<forall>d q. data_q m = d # q \<longrightarrow> sender_recv mdu m' = m'\<lparr>data_q := q\<rparr>) \<and>
       (\<forall>e r'. driver_step (Event e :: ('l, 'd) input) \<lparr>dmux = m', phase = Dispatching, notified = n\<rparr> = Some r' \<longrightarrow>
          (\<exists>k reason. e = LinkClosed k reason) \<or> phase r' = Dispatching \<and> \<not> is_connected (dmux r'))"
proof -
  have "link_id (fold dispatch fs x) = link_id x" for fs and x :: "'l mux"
    by (induction fs arbitrary: x) (simp_all add: dispatch_def split: option.split)
  then have data: "link_id (dispatch_data d x) = link_id x" for d and x :: "'l mux"
    by (simp add: dispatch_data_def receive_data_def case_prod_beta)
  define m' where "m' = snd (sender_chunk send_on_link (net, set_link_id new (reset m)))"
  have m': "m' = (set_link_id new (reset m))\<lparr>link_id := None, sender := None\<rparr>"
    using assms by (simp add: m'_def sender_chunk_def set_link_id_def reset_def)
  have "phase r' = Dispatching \<and> \<not> is_connected (dmux r')"
    if "driver_step (Event e :: ('l, 'd) input) \<lparr>dmux = m', phase = Dispatching, notified = n\<rparr> = Some r'"
      "\<nexists>k reason. e = LinkClosed k reason" for e r'
    using that m' by (cases e) (auto simp: driver_step_def dispatch_event_def is_connected_def data)
  moreover have "sender_recv mdu m' = m'\<lparr>data_q := q\<rparr>" if "data_q m = d # q" for d q
    using that by (simp add: m' sender_recv_def set_link_id_def reset_def)
  moreover have "accept_round Accepted m' = (None, m')" "is_connected (set_link_id new (reset m))"
    by (simp_all add: m' accept_round_def is_connected_def set_link_id_def)
  ultimately show ?thesis unfolding m'_def [symmetric] Let_def by blast
qed

theorem stale_send_failure_disconnects_witness:
  "let m' = snd (sender_chunk (\<lambda>net l c ctx. (False, net))
      ((), set_link_id (2 :: nat) (reset (mux_new\<lparr>sender := Some (1, [[4, 0]])\<rparr>))))
   in accept_round Accepted m' = (None, m')"
proof -
  let ?m = "mux_new\<lparr>sender := Some (1 :: nat, [[4, 0]])\<rparr>"
  let ?fail = "\<lambda>(net :: unit) (l :: nat) (c :: bytes) (ctx :: u8). (False, net)"
  have m: "sender ?m = Some (1, [4, 0] # [])" by simp
  from stale_send_failure_disconnects [OF m, of ?fail "()" "()" 2] show ?thesis unfolding Let_def by blast
qed

section \<open>UDP relays\<close>

text \<open>
  The UDP relays leave their reading task behind: after the far side has closed the
  session, the relay answers with CLOSE and drops the session, and a datagram of the local
  client that arrives later is still sent as DATA of the closed session, behind its CLOSE.
\<close>

theorem udp_relay_sends_after_close:
  assumes "buf \<noteq> []" "length buf \<le> 4096"
  shows "\<exists>m r. (relay_bidirectional_udp_client_side sid 0)\<^sup>*\<^sup>*
      (dispatch (frame_new Close sid []) (register sid (set_link_id link mux_new)), relay_start None) (m, r) \<and>
    stage r = Ended \<and> sessions m sid = None \<and>
    sent r = [frame_new Close sid [], frame_new Data sid buf]"
proof -
  let ?m = "dispatch (frame_new Close sid []) (register sid (set_link_id link mux_new))"
  let ?S = "relay_bidirectional_udp_client_side sid 0"
  from closed_session_queue [of sid link] obtain m1 m2 where m1: "recv 0 ?m = (Got (frame_new Close sid []), m1)"
    and m2: "send Close sid [] (drop_receiver 0 m1) = Some m2"
    and q2: "data_q (drop_session sid m2) = [encode (frame_new Close sid [])]" by blast
  from relay_closes [where downf = client_rns_to_udp and r = "relay_start None" and upf = "client_udp_to_rns sid"
      and abort = False and watched = True and locks = True and ok = "\<lambda>i. True" and torn = "\<lambda>out n. []", OF m1 _ _ _ m2]
  obtain r1 where r1: "?S\<^sup>*\<^sup>* (?m, relay_start None) (drop_session sid m2, r1)" "stage r1 = Ended" "up r1 = Reading"
      "sent r1 = [frame_new Close sid []]"
    by (auto simp: relay_bidirectional_udp_client_side_def client_rns_to_udp_def relay_start_def)
  obtain m3 where m3: "send_frame (frame_new Data sid buf) (drop_session sid m2) = Some m3"
    by (simp add: send_frame_def q2 SENDER_CAPACITY_def)
  have up: "client_udp_to_rns sid (DatagramOk buf (SocketV4 0 p)) (cell r1) = (UpSend (frame_new Data sid buf), Some p)"
    for p using assms by (simp add: client_udp_to_rns_def BUF_SIZE_def)
  from relay_sends [where upf = "client_udp_to_rns sid" and r = r1 and ok = "\<lambda>i. True", OF up [of 0] TrueI r1(3) m3,
      of False True True "\<lambda>out n. []" sid 0 client_rns_to_udp]
  obtain r2 where
    r2: "?S\<^sup>*\<^sup>* (drop_session sid m2, r1) (m3, r2)" "stage r2 = Ended" "sent r2 = sent r1 @ [frame_new Data sid buf]"
    unfolding relay_bidirectional_udp_client_side_def using r1(2) by metis
  have "sessions m3 sid = None"
    using m3 by (auto simp: send_frame_def drop_session_def split: if_splits)
  with r1 r2 rtranclp_trans [OF r1(1) r2(1)] show ?thesis by auto
qed

theorem udp_relay_sends_after_close_witness:
  "\<exists>m r. (relay_bidirectional_udp_client_side 1 0)\<^sup>*\<^sup>*
      (dispatch (frame_new Close 1 []) (register 1 (set_link_id (7 :: nat) mux_new)), relay_start None) (m, r) \<and>
    stage r = Ended \<and> sessions m 1 = None \<and> sent r = [frame_new Close 1 [], frame_new Data 1 [42]]"
  by (rule udp_relay_sends_after_close) simp_all

text \<open>
  A datagram without payload ends a UDP session of the exit node, and it is looked at
  before the filter is: any host, also one the filter refuses, whose other datagrams are
  skipped, closes the session by sending an empty one.
\<close>

theorem empty_datagram_ends_session:
  assumes "\<not> allowed_ip peer cfg Udp" "length (data_q m) < 5"
  shows "(\<forall>buf. server_udp_to_rns hdr cfg sid (DatagramOk buf peer) = (if buf = [] then UpBreak else UpSkip)) \<and>
    (\<exists>m' r. (relay_bidirectional_udp_server_side hdr parse resolve_dns cfg sid c)\<^sup>*\<^sup>*
        (m, relay_start ()) (m', r) \<and>
      stage r = Ended \<and> sent r = [frame_new Close sid []] \<and> reads r = [] \<and> sessions m' sid = None)"
proof
  show brk: "\<forall>buf. server_udp_to_rns hdr cfg sid (DatagramOk buf peer) = (if buf = [] then UpBreak else UpSkip)"
    using assms(1) by (simp add: server_udp_to_rns_def)
  let ?S = "relay_bidirectional_udp_server_side hdr parse resolve_dns cfg sid c"
  obtain m' where m': "send Close sid [] m = Some m'"
    using assms(2) by (simp add: send_def send_frame_def SENDER_CAPACITY_def)
  let ?up = "\<lambda>i x. (server_udp_to_rns hdr cfg sid i, x)"
  from relay_up_breaks [where upf = ?up and i = "DatagramOk [] peer" and r = "relay_start ()" and ok = "\<lambda>i. True"
      and torn = "\<lambda>out n. []" and downf = "\<lambda>f x. server_rns_to_udp parse resolve_dns cfg f", OF _ _ _ _ m', of "()" False False False c] brk
  obtain r where r: "?S\<^sup>*\<^sup>* (m, relay_start ()) (drop_session sid m', r)" "stage r = Ended"
      "sent r = [frame_new Close sid []]" "reads r = []"
    unfolding relay_bidirectional_udp_server_side_def by (auto simp: relay_start_def)
  then show "\<exists>m' r. ?S\<^sup>*\<^sup>* (m, relay_start ()) (m', r) \<and> stage r = Ended \<and>
      sent r = [frame_new Close sid []] \<and> reads r = [] \<and> sessions m' sid = None"
    by (intro exI [of _ "drop_session sid m'"] exI [of _ r]) (simp add: drop_session_def)
qed

theorem empty_datagram_ends_session_witness:
  "\<exists>m' r. (relay_bidirectional_udp_server_side (\<lambda>a. Some []) (\<lambda>b. None) Some
        (connect_vec_merging_forward [] [53] []) 1 0)\<^sup>*\<^sup>*
      (register 1 (mux_new :: nat mux), relay_start ()) (m', r) \<and>
    stage r = Ended \<and> sent r = [frame_new Close 1 []] \<and> sessions m' 1 = None"
proof -
  have "\<not> allowed_ip (SocketV4 (ipv4 9 9 9 9) 53) (connect_vec_merging_forward [] [53] []) Udp"
    by (simp add: allowed_ip_forward v4_is_loopback_def)
  moreover have "length (data_q (register 1 (mux_new :: nat mux))) < 5"
    by (simp add: register_def register_session_def mux_new_def)
  ultimately show ?thesis using empty_datagram_ends_session by blast
qed

text \<open>
  So does a datagram that cannot be read: one DATA frame of the client whose SOCKS5 header does
  not parse makes the exit node close the association and drop its session, where a datagram to a
  refused address is only skipped.
\<close>

theorem malformed_datagram_ends_session:
  assumes "recv c m = (Got f, m1)" "is_data f" "parse (payload f) = None"
    and "up r = Reading" "down r" "stage r = Relaying" "length (data_q m) < 5"
  shows "\<exists>m' r'. (relay_bidirectional_udp_server_side hdr parse resolve_dns cfg sid c)\<^sup>*\<^sup>* (m, r) (m', r') \<and>
    stage r' = Ended \<and> sent r' = sent r @ [frame_new Close sid []] \<and> sessions m' sid = None"
proof -
  have brk: "server_rns_to_udp parse resolve_dns cfg f = Break"
    using assms(2,3) by (simp add: server_rns_to_udp_def is_data_def)
  have "data_q (drop_receiver c m1) = data_q m"
    using assms(1) by (auto simp: recv_Got drop_receiver_def)
  then obtain m2 where m2: "send Close sid [] (drop_receiver c m1) = Some m2"
    using assms(7) by (simp add: send_def send_frame_def SENDER_CAPACITY_def)
  from relay_closes [where downf = "\<lambda>f x. server_rns_to_udp parse resolve_dns cfg f" and abort = False and watched = False
      and locks = False and ok = "\<lambda>i. True" and torn = "\<lambda>out n. []" and upf = "\<lambda>i x. (server_udp_to_rns hdr cfg sid i, x)",
      OF assms(1) brk assms(5,6) m2]
  obtain r' where "(relay_bidirectional_udp_server_side hdr parse resolve_dns cfg sid c)\<^sup>*\<^sup>* (m, r) (drop_session sid m2, r')"
    "stage r' = Ended" "sent r' = sent r @ [frame_new Close sid []]"
    unfolding relay_bidirectional_udp_server_side_def by blast
  then show ?thesis
    by (intro exI [of _ "drop_session sid m2"] exI [of _ r']) (simp add: drop_session_def)
qed

text \<open>
  C38. Waiting for the server: \<open>ensure_path\<close> answers yes exactly when the node knows the path
  at once or at one of the next polls, one per second and no more of them than the timeout;
  \<open>wait_for_path\<close> goes on whatever it answers and returns exactly when some later recall of
  the identity succeeds, so it waits forever for a server that never announces itself.
\<close>

theorem wait_for_path_returns_iff:
  "(fst (ensure_path has_path request_path sleep timeout w) \<longleftrightarrow>
      path_known (fst (has_path w)) \<or>
      (\<exists>k<unat timeout. path_known (fst (has_path (sleep
         (poll_state has_path sleep k (request_path (snd (has_path w))))))))) \<and>
   (wait_for_path has_path request_path recall sleep w \<noteq> None \<longleftrightarrow>
      (\<exists>k. recall_sig_pub (fst (recall (recall_state recall sleep k
         (snd (ensure_path has_path request_path sleep 30 w))))) \<noteq> None))"
proof
  show "fst (ensure_path has_path request_path sleep timeout w) \<longleftrightarrow>
      path_known (fst (has_path w)) \<or>
      (\<exists>k<unat timeout. path_known (fst (has_path (sleep
         (poll_state has_path sleep k (request_path (snd (has_path w))))))))"
    by (simp add: ensure_path_def case_prod_beta poll_path_iff)
  let ?w = "snd (ensure_path has_path request_path sleep 30 w)"
  show "wait_for_path has_path request_path recall sleep w \<noteq> None \<longleftrightarrow>
      (\<exists>k. recall_sig_pub (fst (recall (recall_state recall sleep k ?w))) \<noteq> None)"
    unfolding wait_for_path_def using recall_loop_returns recall_loop_result by fastforce
qed

section \<open>Startup\<close>

text \<open>
  C37. The address of an exit node is stable across restarts: the identity of a start that
  got one is in the identity file before anything else happens, and a later start that finds
  the file as it was left uses it again, without fail, and derives the same address and keys.
\<close>

theorem server_address_stable:
  assumes "storage_ok h" "p = identity_file_path dir path" "server_identity h p w = (Inr i, w1)"
    and "path_exists h p w2 = path_exists h p w1" "load_identity h p w2 = load_identity h p w1"
  shows "path_exists h p w1 \<and> load_identity h p w1 = Some i \<and> server_identity h p w2 = (Inr i, w2) \<and>
    (\<forall>k w' k' w''. server_startup h dir path w = (Inr k, w') \<and> server_startup h dir path w2 = (Inr k', w'') \<longrightarrow>
       k' = k \<and> derive_keys h i = Inr k)"
proof -
  note again = server_identity_again [OF assms(1,3-5)]
  have keys: "derive_keys h i = Inr k" if "server_startup h dir path v = (Inr k, w')" "v = w \<or> v = w2" for v k w'
    using server_startup_keys [OF that(1)] that(2) again assms(2,3) by auto
  then have "k' = k \<and> derive_keys h i = Inr k"
    if "server_startup h dir path w = (Inr k, w')" "server_startup h dir path w2 = (Inr k', w'')" for k w' k' w''
    using keys [OF that(1)] keys [OF that(2)] by simp
  with server_identity_stored [OF assms(1,3)] again show ?thesis by blast
qed

theorem server_address_stable_witness:
  "\<exists>w1. server_identity file_host (identity_file_path (path_from []) None) (Map.empty, 5) = (Inr 5, w1) \<and>
     server_identity file_host (identity_file_path (path_from []) None) (fst w1, 9) = (Inr 5, (fst w1, 9))"
proof -
  let ?p = "identity_file_path (path_from []) None"
  have ok: "storage_ok file_host" by (simp add: storage_ok_def file_host_def)
  have first: "server_identity file_host ?p (Map.empty, 5) = (Inr 5, ([?p \<mapsto> 5], 5))"
    by (simp add: server_identity_def new_identity_def file_host_def Let_def split: option.split)
  from server_address_stable [OF ok refl first, of "([?p \<mapsto> 5], 9)"] first show ?thesis
    by (simp add: file_host_def)
qed

end
